(* ===== verification/Arcux_Prelude.thy ===== *)
theory Arcux_Prelude
  imports Main "HOL-Library.Word" "HOL-Library.List_Lexorder" "HOL-Library.Monad_Syntax"
begin

text \<open>
  Shared vocabulary of the development: machine types, byte strings and their lexicographic
  order (Rust's \<open>Ord\<close> on \<open>Vec<u8>\<close>), big-endian encoding of fixed-width integers
  (\<open>to_be_bytes\<close> / \<open>from_be_bytes\<close>), cursor reads on a byte buffer, results as sums, and
  association lists sorted by key. The collections \<open>codec_simps\<close> and \<open>slice_simps\<close>
  carry the codec round trips of every component.
\<close>

type_synonym byte = "8 word"
type_synonym bytes = "byte list"
type_synonym u32 = "32 word"
type_synonym u64 = "64 word"

named_theorems codec_simps \<open>lengths and round trips of the byte codecs\<close>
named_theorems slice_simps \<open>reads at a known offset of a concatenation\<close>

section \<open>Results\<close>

definition res_bind :: "'e + 'a \<Rightarrow> ('a \<Rightarrow> 'e + 'b) \<Rightarrow> 'e + 'b" where
  "res_bind r f = (case r of Inl e \<Rightarrow> Inl e | Inr x \<Rightarrow> f x)"

definition ok_or :: "'a option \<Rightarrow> 'e \<Rightarrow> 'e + 'a" where
  "ok_or x e = (case x of None \<Rightarrow> Inl e | Some v \<Rightarrow> Inr v)"

lemma res_bind_simps [simp]:
  "res_bind (Inl e) f = Inl e"
  "res_bind (Inr x) f = f x"
  by (simp_all add: res_bind_def)

lemma ok_or_simps [simp]:
  "ok_or None e = Inl e"
  "ok_or (Some v) e = Inr v"
  by (simp_all add: ok_or_def)

lemma res_bind_eq_Inr: "res_bind r f = Inr y \<longleftrightarrow> (\<exists>x. r = Inr x \<and> f x = Inr y)"
  by (cases r) simp_all

section \<open>Big-endian encodings\<close>

primrec be_bytes :: "nat \<Rightarrow> nat \<Rightarrow> bytes" where
  "be_bytes 0 n = []"
| "be_bytes (Suc k) n = word_of_nat (n div 256 ^ k) # be_bytes k n"

fun be_value :: "bytes \<Rightarrow> nat" where
  "be_value [] = 0"
| "be_value (b # bs) = unat b * 256 ^ length bs + be_value bs"

definition u64_to_be :: "u64 \<Rightarrow> bytes" where
  "u64_to_be w = be_bytes 8 (unat w)"

definition u64_of_be :: "bytes \<Rightarrow> u64" where
  "u64_of_be bs = word_of_nat (be_value bs)"

definition u32_to_be :: "u32 \<Rightarrow> bytes" where
  "u32_to_be w = be_bytes 4 (unat w)"

definition u32_of_be :: "bytes \<Rightarrow> u32" where
  "u32_of_be bs = word_of_nat (be_value bs)"

lemma length_be_bytes [simp]: "length (be_bytes k n) = k"
  by (induction k) simp_all

lemma unat_byte_lt: "unat (b :: byte) < 256"
  using unsigned_less [of b] by simp

lemma unat_u32_lt: "unat (w :: u32) < 4294967296"
  using unsigned_less [of w] by simp

lemma unat_u64_lt: "unat (w :: u64) < 18446744073709551616"
  using unsigned_less [of w] by simp

lemma be_value_less: "be_value bs < 256 ^ length bs"
proof (induction bs)
  case (Cons b bs)
  have "unat b * 256 ^ length bs + be_value bs < unat b * 256 ^ length bs + 256 ^ length bs"
    using Cons.IH by simp
  also have "\<dots> = Suc (unat b) * 256 ^ length bs"
    by simp
  also have "\<dots> \<le> 256 * 256 ^ length bs"
    using unat_byte_lt [of b] by (intro mult_le_mono1) simp
  finally show ?case by simp
qed simp

lemma unat_word_of_nat_byte: "unat (word_of_nat n :: byte) = n mod 256"
  by (simp add: unat_of_nat)

lemma be_value_be_bytes: "be_value (be_bytes k n) = n mod 256 ^ k"
proof (induction k)
  case (Suc k)
  have "n mod (256 ^ k * 256) = 256 ^ k * (n div 256 ^ k mod 256) + n mod 256 ^ k"
    by (rule mod_mult2_eq)
  with Suc.IH show ?case
    by (simp add: unat_word_of_nat_byte mult.commute)
qed simp

lemma be_value_less_iff:
  "length xs = length ys \<Longrightarrow> xs < ys \<longleftrightarrow> be_value xs < be_value ys"
proof (induction xs ys rule: list_induct2)
  case (Cons x xs y ys)
  have step: "unat a * 256 ^ n + v < unat b * 256 ^ n + w"
    if "a < b" "v < 256 ^ n" for a b :: byte and n v w :: nat
  proof -
    have "unat a * 256 ^ n + v < Suc (unat a) * 256 ^ n"
      using that(2) by simp
    also have "\<dots> \<le> unat b * 256 ^ n"
      using that(1) by (intro mult_le_mono1) (simp add: word_less_nat_alt Suc_le_eq)
    finally show ?thesis by simp
  qed
  show ?case
    using Cons step [of x y "be_value xs" "length xs" "be_value ys"]
      step [of y x "be_value ys" "length xs" "be_value xs"]
      be_value_less [of xs] be_value_less [of ys]
    by (cases x y rule: linorder_cases) auto
qed simp

lemma be_value_inj: "length xs = length ys \<Longrightarrow> be_value xs = be_value ys \<Longrightarrow> xs = ys"
  by (metis be_value_less_iff less_irrefl linorder_less_linear)

lemma be_bytes_be_value [codec_simps]: "be_bytes (length bs) (be_value bs) = bs"
  by (rule be_value_inj) (simp_all add: be_value_be_bytes be_value_less)

lemma u64_to_be_length [simp, codec_simps]: "length (u64_to_be w) = 8"
  by (simp add: u64_to_be_def)

lemma u32_to_be_length [simp, codec_simps]: "length (u32_to_be w) = 4"
  by (simp add: u32_to_be_def)

lemma be_not_Nil [simp]: "u32_to_be w \<noteq> []" "u64_to_be w' \<noteq> []"
  using u32_to_be_length [of w] u64_to_be_length [of w'] by fastforce+

lemma u64_of_be_to_be [simp, codec_simps]: "u64_of_be (u64_to_be w) = w"
  using unat_u64_lt [of w]
  by (simp add: u64_of_be_def u64_to_be_def be_value_be_bytes)

lemma u32_of_be_to_be [simp, codec_simps]: "u32_of_be (u32_to_be w) = w"
  using unat_u32_lt [of w]
  by (simp add: u32_of_be_def u32_to_be_def be_value_be_bytes)

lemma u64_to_be_of_be [codec_simps]: "length bs = 8 \<Longrightarrow> u64_to_be (u64_of_be bs) = bs"
  using be_value_less [of bs] be_bytes_be_value [of bs]
  by (simp add: u64_of_be_def u64_to_be_def unat_of_nat)

lemma u64_to_be_less_iff: "u64_to_be v < u64_to_be w \<longleftrightarrow> v < w"
  using unat_u64_lt [of v] unat_u64_lt [of w]
  by (simp add: u64_to_be_def be_value_less_iff be_value_be_bytes word_less_nat_alt)

lemma u64_to_be_inj [simp]: "u64_to_be v = u64_to_be w \<longleftrightarrow> v = w"
  by (metis u64_of_be_to_be)

lemma u32_to_be_less_iff: "u32_to_be v < u32_to_be w \<longleftrightarrow> v < w"
  using unat_u32_lt [of v] unat_u32_lt [of w]
  by (simp add: u32_to_be_def be_value_less_iff be_value_be_bytes word_less_nat_alt)

lemma u32_to_be_inj [simp]: "u32_to_be v = u32_to_be w \<longleftrightarrow> v = w"
  by (metis u32_of_be_to_be)

section \<open>Byte strings: reads at an offset and lexicographic order\<close>

text \<open>\<open>&buf[i..j]\<close>; the code checks \<open>j \<le> buf.len()\<close> before it reads.\<close>

definition slice :: "'a list \<Rightarrow> nat \<Rightarrow> nat \<Rightarrow> 'a list" where
  "slice xs i j = take (j - i) (drop i xs)"

lemma slice_mid [slice_simps]:
  "length pre = i \<Longrightarrow> i + length x = j \<Longrightarrow> slice (pre @ x @ post) i j = x"
  by (auto simp: slice_def)

lemma slice_end [slice_simps]:
  "length pre = i \<Longrightarrow> i + length x = j \<Longrightarrow> slice (pre @ x) i j = x"
  by (auto simp: slice_def)

lemma slice_start [simp, slice_simps]:
  "length x = n \<Longrightarrow> slice (x @ post) 0 n = x"
  by (auto simp: slice_def)

lemma unat_u32_of_nat: "n < 2 ^ 32 \<Longrightarrow> unat (word_of_nat n :: u32) = n"
  by (simp add: unat_of_nat)

lemma unat_u64_of_nat: "n < 2 ^ 64 \<Longrightarrow> unat (word_of_nat n :: u64) = n"
  by (simp add: unat_of_nat)

lemma length_slice: "j \<le> length xs \<Longrightarrow> length (slice xs i j) = j - i"
  by (simp add: slice_def)

lemma list_le_append [simp]: "(xs :: 'a :: linorder list) \<le> xs @ ys"
  by (induction xs) simp_all

lemma append_less_append [simp]: "(xs :: 'a :: linorder list) @ ys < xs @ zs \<longleftrightarrow> ys < zs"
  by (induction xs) simp_all

lemma append_le_append [simp]: "(xs :: 'a :: linorder list) @ ys \<le> xs @ zs \<longleftrightarrow> ys \<le> zs"
  by (induction xs) simp_all

text \<open>\<open>k\<close> followed by a zero byte is the immediate successor of \<open>k\<close>: how the code
  steps a cursor past a key (\<open>seek.push(0)\<close>).\<close>

lemma byte_zero_le [simp]: "(0 :: byte) \<le> b"
  by (rule word_zero_le)

lemma succ_key_le_iff: "k @ [0] \<le> (k' :: bytes) \<longleftrightarrow> k < k'"
proof (induction k arbitrary: k')
  case Nil
  show ?case by (cases k') (auto simp: word_neq_0_conv)
next
  case (Cons b k)
  show ?case
    using Cons.IH by (cases k') auto
qed

lemma less_append_cases:
  "length xs = length us \<Longrightarrow>
     (xs :: 'a :: linorder list) @ ys < us @ vs \<longleftrightarrow> xs < us \<or> xs = us \<and> ys < vs"
  by (induction xs us rule: list_induct2) auto

section \<open>Association lists sorted by key\<close>

text \<open>The contents of an ordered map in iteration order. \<open>al_insert\<close> replaces the entry
  of an existing key in place, \<open>al_seek\<close> is the first entry at or after a key.\<close>

fun al_insert :: "'k :: linorder \<Rightarrow> 'v \<Rightarrow> ('k \<times> 'v) list \<Rightarrow> ('k \<times> 'v) list" where
  "al_insert k v [] = [(k, v)]"
| "al_insert k v ((k', v') # xs) =
     (if k < k' then (k, v) # (k', v') # xs
      else if k = k' then (k, v) # xs
      else (k', v') # al_insert k v xs)"

definition al_seek :: "('k :: linorder \<times> 'v) list \<Rightarrow> 'k \<Rightarrow> ('k \<times> 'v) option" where
  "al_seek xs k = find (\<lambda>e. k \<le> fst e) xs"

abbreviation strict_keys :: "('k :: linorder \<times> 'v) list \<Rightarrow> bool" where
  "strict_keys xs \<equiv> sorted_wrt (<) (map fst xs)"

text \<open>What a forward seek promises of a map: the least key at or after the cursor.\<close>

definition seek_spec :: "('k :: linorder \<rightharpoonup> 'v) \<Rightarrow> 'k \<Rightarrow> ('k \<times> 'v) option \<Rightarrow> bool" where
  "seek_spec m k r = (case r of
     None \<Rightarrow> \<forall>k'. k \<le> k' \<longrightarrow> m k' = None
   | Some (k', v) \<Rightarrow> k \<le> k' \<and> m k' = Some v \<and> (\<forall>k''. k \<le> k'' \<and> k'' < k' \<longrightarrow> m k'' = None))"

lemma map_of_al_insert [simp]: "map_of (al_insert k v xs) = (map_of xs)(k \<mapsto> v)"
  by (induction xs) (auto simp: fun_eq_iff)

lemma al_insert_not_Nil [simp]: "al_insert k v xs \<noteq> []"
  by (cases xs) (auto split: if_splits)

lemma keys_al_insert: "fst ` set (al_insert k v xs) = insert k (fst ` set xs)"
  by (induction k v xs rule: al_insert.induct) auto

lemma strict_keys_al_insert [simp]: "strict_keys xs \<Longrightarrow> strict_keys (al_insert k v xs)"
proof (induction xs)
  case (Cons e xs)
  obtain k' v' where e: "e = (k', v')" by (cases e)
  have keys: "k'' = k \<or> k'' \<in> fst ` set xs" if "k'' \<in> fst ` set (al_insert k v xs)" for k''
    using that by (simp add: keys_al_insert)
  show ?case
    using Cons keys by (cases k k' rule: linorder_cases) (fastforce simp: e)+
qed simp

lemma strict_keys_distinct: "strict_keys xs \<Longrightarrow> distinct (map fst xs)"
  by (induction xs) auto

definition al_remove :: "'k \<Rightarrow> ('k \<times> 'v) list \<Rightarrow> ('k \<times> 'v) list" where
  "al_remove k xs = filter (\<lambda>(k', _). k' \<noteq> k) xs"

lemma al_remove_sorted: "strict_keys xs \<Longrightarrow> strict_keys (al_remove i xs)"
  by (induction xs) (auto simp: al_remove_def)

lemma map_of_al_remove: "map_of (al_remove k xs) k' = (if k' = k then None else map_of xs k')"
  by (induction xs) (auto simp: al_remove_def)

lemma map_of_strict_keys_Cons:
  "strict_keys ((k, v) # xs) \<Longrightarrow> k' \<le> k \<Longrightarrow> map_of xs k' = None"
  by (force simp: map_of_eq_None_iff)

lemma seek_spec_al_seek: "strict_keys xs \<Longrightarrow> seek_spec (map_of xs) k (al_seek xs k)"
proof (induction xs)
  case Nil
  show ?case by (simp add: seek_spec_def al_seek_def)
next
  case (Cons e xs)
  obtain k' v' where e: "e = (k', v')" by (cases e)
  have tail: "seek_spec (map_of xs) k (al_seek xs k)" and gt: "\<forall>k'' \<in> fst ` set xs. k' < k''"
    using Cons by (auto simp: e)
  show ?case
  proof (cases "k \<le> k'")
    case True
    have "map_of xs k'' = None" if "k'' < k'" for k''
      using gt that by (force simp: map_of_eq_None_iff)
    with True show ?thesis by (auto simp: seek_spec_def al_seek_def e)
  next
    case False
    then have "al_seek (e # xs) k = al_seek xs k" by (simp add: al_seek_def e)
    with tail False show ?thesis
      by (auto simp: seek_spec_def e split: option.splits)
  qed
qed

lemma seek_spec_unique: "seek_spec m k r \<Longrightarrow> seek_spec m k r' \<Longrightarrow> r = r'"
proof (cases r; cases r')
  fix e e'
  assume "seek_spec m k r" "seek_spec m k r'" "r = Some e" "r' = Some e'"
  then show "r = r'"
    by (cases e; cases e') (auto simp: seek_spec_def, (metis linorder_less_linear option.distinct(1) option.inject)+)
qed (fastforce simp: seek_spec_def)+

end
