(* ===== verification/Encoding.thy ===== *)
theory Encoding
  imports Arcux_Prelude
begin

text \<open>
  \<open>engine/src/encoding.rs\<close>: descending timestamp encoding and the \<open>u32\<close>
  length-prefixed byte strings every on-disk format of the engine is made of. A cursor
  \<open>&mut usize\<close> is passed in and returned; a \<open>None\<close> is the code's early return on
  truncation.
\<close>

definition TS_LEN :: nat where
  "TS_LEN = 8"

abbreviation u64_max :: u64 where
  "u64_max \<equiv> - 1"

definition encode_ts :: "u64 \<Rightarrow> bytes" where
  "encode_ts ts = u64_to_be (u64_max - ts)"

text \<open>\<open>decode_ts\<close> is only ever called on a slice of \<open>TS_LEN\<close> bytes.\<close>

definition decode_ts :: "bytes \<Rightarrow> u64" where
  "decode_ts bs = u64_max - u64_of_be bs"

definition put_length_prefixed :: "bytes \<Rightarrow> bytes \<Rightarrow> bytes" where
  "put_length_prefixed buf bs = buf @ u32_to_be (word_of_nat (length bs)) @ bs"

definition get_length_prefixed :: "bytes \<Rightarrow> nat \<Rightarrow> (bytes \<times> nat) option" where
  "get_length_prefixed buf pos =
     (if pos + 4 > length buf then None
      else
        let len = unat (u32_of_be (slice buf pos (pos + 4)));
            data_start = pos + 4;
            data_end = data_start + len
        in if data_end > length buf then None
           else Some (slice buf data_start data_end, data_end))"

text \<open>The length prefix holds 32 bits; a longer string would be truncated on write.\<close>

abbreviation fits_u32 :: "'a list \<Rightarrow> bool" where
  "fits_u32 xs \<equiv> length xs < 2 ^ 32"

section \<open>Timestamps\<close>

lemma length_encode_ts [simp, codec_simps]: "length (encode_ts ts) = TS_LEN"
  by (simp add: encode_ts_def TS_LEN_def)

lemma decode_encode_ts [simp, codec_simps]: "decode_ts (encode_ts ts) = ts"
  by (simp add: encode_ts_def decode_ts_def)

lemma encode_decode_ts [codec_simps]: "length bs = TS_LEN \<Longrightarrow> encode_ts (decode_ts bs) = bs"
  by (simp add: encode_ts_def decode_ts_def u64_to_be_of_be TS_LEN_def)

lemma unat_u64_max: "unat u64_max = 18446744073709551615"
  by (simp add: unsigned_minus_1_eq_mask mask_eq_exp_minus_1)

lemma unat_u64_max_minus: "unat (u64_max - a) = 18446744073709551615 - unat a"
  using unat_u64_lt [of a] by (simp add: unat_sub_if' unat_u64_max)

lemma u64_max_minus_less_iff: "u64_max - a < u64_max - b \<longleftrightarrow> b < (a :: u64)"
  using unat_u64_lt [of a] unat_u64_lt [of b]
  by (auto simp: word_less_nat_alt unat_u64_max_minus)

lemma encode_ts_less_iff [simp]: "encode_ts a < encode_ts b \<longleftrightarrow> b < a"
  by (simp add: encode_ts_def u64_to_be_less_iff u64_max_minus_less_iff)

lemma encode_ts_inj [simp]: "encode_ts a = encode_ts b \<longleftrightarrow> a = b"
  by (metis decode_encode_ts)

lemma encode_ts_le_iff [simp]: "encode_ts a \<le> encode_ts b \<longleftrightarrow> b \<le> a"
  by (auto simp: le_less)

section \<open>Length-prefixed strings\<close>

lemma length_put_length_prefixed [simp]:
  "length (put_length_prefixed buf bs) = length buf + 4 + length bs"
  by (simp add: put_length_prefixed_def)

lemma put_length_prefixed_append:
  "put_length_prefixed buf bs = buf @ put_length_prefixed [] bs"
  by (simp add: put_length_prefixed_def)

lemma unat_u32_of_length [simp]:
  "fits_u32 xs \<Longrightarrow> unat (word_of_nat (length xs) :: u32) = length xs"
  by (simp add: unat_of_nat)

lemma get_length_prefixed_at [codec_simps]:
  assumes "length pre = pos" and "fits_u32 bs"
  shows "get_length_prefixed (pre @ put_length_prefixed [] bs @ post) pos
    = Some (bs, pos + 4 + length bs)"
proof -
  let ?n = "u32_to_be (word_of_nat (length bs))"
  let ?buf = "pre @ put_length_prefixed [] bs @ post"
  have "slice ?buf pos (pos + 4) = ?n"
    using slice_mid [of pre pos ?n "pos + 4" "bs @ post"] assms(1)
    by (simp add: put_length_prefixed_def)
  moreover have "slice ?buf (pos + 4) (pos + 4 + length bs) = bs"
    using slice_mid [of "pre @ ?n" "pos + 4" bs "pos + 4 + length bs" post] assms(1)
    by (simp add: put_length_prefixed_def)
  ultimately show ?thesis
    using assms by (simp add: get_length_prefixed_def)
qed

lemma get_length_prefixed_advances:
  "get_length_prefixed buf pos = Some (x, pos') \<Longrightarrow>
     pos + 4 \<le> pos' \<and> pos' \<le> length buf \<and> pos' = pos + 4 + length x"
  by (auto simp: get_length_prefixed_def Let_def length_slice split: if_splits)

text \<open>A string cut short is never misread as a shorter one: a prefix of the buffer either
  yields the same string or nothing.\<close>

lemma get_length_prefixed_take:
  assumes "get_length_prefixed (take n buf) pos = Some (x, pos')"
  shows "get_length_prefixed buf pos = Some (x, pos')"
proof -
  have le: "pos + 4 \<le> pos'" "pos' \<le> min (length buf) n" "pos' = pos + 4 + length x"
    using get_length_prefixed_advances [OF assms] by simp_all
  then have s: "slice (take n buf) i j = slice buf i j" if "j \<le> pos'" for i j
    using that le by (auto simp: slice_def drop_take min_def split: if_splits)
  show ?thesis
    using assms le s [of "pos + 4" pos] s [of pos' "pos + 4"]
    by (auto simp: get_length_prefixed_def Let_def split: if_splits)
qed

end
