(* ===== verification/Keys.thy ===== *)
theory Keys
  imports Encoding
begin

text \<open>
  \<open>engine/src/keys.rs\<close>: the three column families of the Percolator layout and the codecs of
  their keys and values. The lemmas are the codec round trips and the order of data keys:
  versions of one user key sort newest first.
\<close>

section \<open>Column families\<close>

datatype cf = CfDefault | CfWrite | CfLock

fun cf_u8 :: "cf \<Rightarrow> byte" where
  "cf_u8 CfDefault = 0"
| "cf_u8 CfWrite = 1"
| "cf_u8 CfLock = 2"

definition cf_from_u8 :: "byte \<Rightarrow> cf option" where
  "cf_from_u8 v =
     (if v = 0 then Some CfDefault
      else if v = 1 then Some CfWrite
      else if v = 2 then Some CfLock
      else None)"

definition cf_ALL :: "cf list" where
  "cf_ALL = [CfDefault, CfWrite, CfLock]"

section \<open>Data keys and write records\<close>

definition encode_data_key :: "bytes \<Rightarrow> u64 \<Rightarrow> bytes" where
  "encode_data_key user_key ts = user_key @ encode_ts ts"

definition decode_data_key :: "bytes \<Rightarrow> (bytes \<times> u64) option" where
  "decode_data_key key =
     (if length key < TS_LEN then None
      else let split = length key - TS_LEN
           in Some (take split key, decode_ts (drop split key)))"

definition encode_write_value :: "u64 \<Rightarrow> bytes" where
  "encode_write_value start_ts = u64_to_be start_ts"

definition decode_write_value :: "bytes \<Rightarrow> u64 option" where
  "decode_write_value bs = (if length bs = 8 then Some (u64_of_be bs) else None)"

section \<open>Values\<close>

datatype "value" = VPut bytes | VDelete

definition VTAG_PUT :: byte where "VTAG_PUT = 0"
definition VTAG_DELETE :: byte where "VTAG_DELETE = 1"

fun value_encode :: "value \<Rightarrow> bytes" where
  "value_encode (VPut v) = VTAG_PUT # v"
| "value_encode VDelete = [VTAG_DELETE]"

definition value_decode :: "bytes \<Rightarrow> value option" where
  "value_decode bs = (case bs of
     [] \<Rightarrow> None
   | tag # rest \<Rightarrow>
       if tag = VTAG_PUT then Some (VPut rest)
       else if tag = VTAG_DELETE then Some VDelete
       else None)"

fun is_delete :: "value \<Rightarrow> bool" where
  "is_delete VDelete = True"
| "is_delete (VPut _) = False"

fun into_option :: "value \<Rightarrow> bytes option" where
  "into_option (VPut v) = Some v"
| "into_option VDelete = None"

section \<open>Locks\<close>

datatype lock_kind = LkPut | LkDelete

fun lock_kind_u8 :: "lock_kind \<Rightarrow> byte" where
  "lock_kind_u8 LkPut = 0"
| "lock_kind_u8 LkDelete = 1"

record lock =
  lk_primary :: bytes
  lk_start_ts :: u64
  lk_ttl :: u64
  lk_kind :: lock_kind

definition lock_encode :: "lock \<Rightarrow> bytes" where
  "lock_encode l =
     put_length_prefixed
       ([lock_kind_u8 (lk_kind l)] @ u64_to_be (lk_start_ts l) @ u64_to_be (lk_ttl l))
       (lk_primary l)"

definition lock_decode :: "bytes \<Rightarrow> lock option" where
  "lock_decode bs =
     (if length bs < 1 + 8 + 8 then None
      else do {
        kind \<leftarrow> (if bs ! 0 = 0 then Some LkPut else if bs ! 0 = 1 then Some LkDelete else None);
        (primary, pos) \<leftarrow> get_length_prefixed bs 17;
        Some \<lparr>lk_primary = primary, lk_start_ts = u64_of_be (slice bs 1 9),
              lk_ttl = u64_of_be (slice bs 9 17), lk_kind = kind\<rparr>
      })"

definition is_primary :: "lock \<Rightarrow> bytes \<Rightarrow> bool" where
  "is_primary l this_key \<longleftrightarrow> lk_primary l = this_key"

section \<open>Round trips and order\<close>

lemma cf_u8_roundtrip [simp, codec_simps]: "cf_from_u8 (cf_u8 c) = Some c"
  by (cases c) (simp_all add: cf_from_u8_def)

lemma cf_u8_inj [simp]: "cf_u8 c = cf_u8 d \<longleftrightarrow> c = d"
  by (cases c; cases d) simp_all

lemma length_encode_data_key [simp]: "length (encode_data_key k ts) = length k + TS_LEN"
  by (simp add: encode_data_key_def)

lemma decode_encode_data_key [simp, codec_simps]:
  "decode_data_key (encode_data_key k ts) = Some (k, ts)"
  by (simp add: decode_data_key_def encode_data_key_def Let_def)

lemma encode_decode_data_key:
  "decode_data_key key = Some (k, ts) \<Longrightarrow> encode_data_key k ts = key"
  by (auto simp: decode_data_key_def encode_data_key_def Let_def encode_decode_ts split: if_splits)

lemma decode_data_key_iff: "decode_data_key key = Some (k, ts) \<longleftrightarrow> key = encode_data_key k ts"
  by (metis decode_encode_data_key encode_decode_data_key)

lemma encode_data_key_inj [simp]:
  "encode_data_key k ts = encode_data_key k' ts' \<longleftrightarrow> k = k' \<and> ts = ts'"
  by (metis Pair_inject decode_encode_data_key option.inject)

lemma encode_data_key_less_iff [simp]:
  "encode_data_key k a < encode_data_key k b \<longleftrightarrow> b < a"
  by (simp add: encode_data_key_def)

lemma encode_data_key_le_iff [simp]:
  "encode_data_key k a \<le> encode_data_key k b \<longleftrightarrow> b \<le> a"
  by (simp add: encode_data_key_def)

lemma write_value_roundtrip [simp, codec_simps]:
  "decode_write_value (encode_write_value ts) = Some ts"
  by (simp add: decode_write_value_def encode_write_value_def)

lemma value_roundtrip [simp, codec_simps]: "value_decode (value_encode v) = Some v"
  by (cases v) (simp_all add: value_decode_def VTAG_PUT_def VTAG_DELETE_def)

lemma lock_roundtrip [simp, codec_simps]:
  assumes "fits_u32 (lk_primary l)"
  shows "lock_decode (lock_encode l) = Some l"
proof -
  let ?k = "[lock_kind_u8 (lk_kind l)]"
  let ?s = "u64_to_be (lk_start_ts l)" and ?t = "u64_to_be (lk_ttl l)"
  let ?b = "lock_encode l"
  have b: "?b = ?k @ ?s @ ?t @ put_length_prefixed [] (lk_primary l)"
    by (simp add: lock_encode_def put_length_prefixed_def)
  have "slice ?b 1 9 = ?s"
    using slice_mid [of ?k 1 ?s 9 "?t @ put_length_prefixed [] (lk_primary l)"]
    by (simp add: b)
  moreover have "slice ?b 9 17 = ?t"
    using slice_mid [of "?k @ ?s" 9 ?t 17 "put_length_prefixed [] (lk_primary l)"]
    by (simp add: b)
  moreover have "get_length_prefixed ?b 17 = Some (lk_primary l, 21 + length (lk_primary l))"
    using get_length_prefixed_at [of "?k @ ?s @ ?t" 17 "lk_primary l" "[]"] assms
    by (simp add: b)
  ultimately show ?thesis
    by (cases "lk_kind l") (simp_all add: lock_decode_def b)
qed

end
