(* ===== verification/Batch.thy ===== *)
theory Batch
  imports Keys
begin

text \<open>
  \<open>engine/src/batch.rs\<close>: the atomic write batch and its body codec (the payload of a WAL
  record). The decode loop counts operations down and advances a cursor; the round trip holds
  at any offset of a larger buffer.
\<close>

datatype write_op = OpPut (op_cf: cf) (op_key: bytes) bytes | OpDelete (op_cf: cf) (op_key: bytes)

fun op_approx_size :: "write_op \<Rightarrow> nat" where
  "op_approx_size (OpPut cf key v) = length key + length v + 16"
| "op_approx_size (OpDelete cf key) = length key + 16"

record write_batch =
  ops :: "write_op list"

definition batch_new :: write_batch where
  "batch_new = \<lparr>ops = []\<rparr>"

definition batch_put :: "write_batch \<Rightarrow> cf \<Rightarrow> bytes \<Rightarrow> bytes \<Rightarrow> write_batch" where
  "batch_put b cf key v = b\<lparr>ops := ops b @ [OpPut cf key v]\<rparr>"

definition batch_delete :: "write_batch \<Rightarrow> cf \<Rightarrow> bytes \<Rightarrow> write_batch" where
  "batch_delete b cf key = b\<lparr>ops := ops b @ [OpDelete cf key]\<rparr>"

definition batch_is_empty :: "write_batch \<Rightarrow> bool" where
  "batch_is_empty b \<longleftrightarrow> ops b = []"

definition batch_approx_size :: "write_batch \<Rightarrow> nat" where
  "batch_approx_size b = sum_list (map op_approx_size (ops b))"

fun op_encode :: "write_op \<Rightarrow> bytes" where
  "op_encode (OpPut cf key v) =
     put_length_prefixed (put_length_prefixed [0, cf_u8 cf] key) v"
| "op_encode (OpDelete cf key) = put_length_prefixed [1, cf_u8 cf] key"

definition batch_encode :: "write_batch \<Rightarrow> bytes" where
  "batch_encode b = u32_to_be (word_of_nat (length (ops b))) @ concat (map op_encode (ops b))"

text \<open>\<open>*buf.get(pos)?\<close>\<close>

definition byte_at :: "bytes \<Rightarrow> nat \<Rightarrow> byte option" where
  "byte_at buf pos = (if pos < length buf then Some (buf ! pos) else None)"

definition op_decode :: "bytes \<Rightarrow> nat \<Rightarrow> (write_op \<times> nat) option" where
  "op_decode buf pos = do {
     op_tag \<leftarrow> byte_at buf pos;
     cf_tag \<leftarrow> byte_at buf (pos + 1);
     cf \<leftarrow> cf_from_u8 cf_tag;
     (key, pos) \<leftarrow> get_length_prefixed buf (pos + 2);
     (if op_tag = 0 then do {
        (v, pos) \<leftarrow> get_length_prefixed buf pos;
        Some (OpPut cf key v, pos)
      }
      else if op_tag = 1 then Some (OpDelete cf key, pos)
      else None)
   }"

fun ops_decode :: "bytes \<Rightarrow> nat \<Rightarrow> nat \<Rightarrow> write_op list option" where
  "ops_decode buf 0 pos = Some []"
| "ops_decode buf (Suc n) pos = do {
     (op, pos) \<leftarrow> op_decode buf pos;
     ops \<leftarrow> ops_decode buf n pos;
     Some (op # ops)
   }"

definition batch_decode :: "bytes \<Rightarrow> write_batch option" where
  "batch_decode buf =
     (if length buf < 4 then None
      else do {
        ops \<leftarrow> ops_decode buf (unat (u32_of_be (slice buf 0 4))) 4;
        Some \<lparr>ops = ops\<rparr>
      })"

section \<open>Round trip\<close>

text \<open>A batch the 32-bit length fields can hold.\<close>

fun op_fits :: "write_op \<Rightarrow> bool" where
  "op_fits (OpPut cf key v) \<longleftrightarrow> fits_u32 key \<and> fits_u32 v"
| "op_fits (OpDelete cf key) \<longleftrightarrow> fits_u32 key"

definition batch_fits :: "write_batch \<Rightarrow> bool" where
  "batch_fits b \<longleftrightarrow> fits_u32 (ops b) \<and> (\<forall>op \<in> set (ops b). op_fits op)"

lemma byte_at_append [codec_simps]:
  "length pre = pos \<Longrightarrow> byte_at (pre @ b # post) pos = Some b"
  by (auto simp: byte_at_def)

lemma op_decode_at [codec_simps]:
  assumes "length pre = pos" and "op_fits op"
  shows "op_decode (pre @ op_encode op @ post) pos = Some (op, pos + length (op_encode op))"
proof (cases op)
  case (OpPut cf key v)
  let ?k = "put_length_prefixed [] key" and ?v = "put_length_prefixed [] v"
  have fits: "fits_u32 key" "fits_u32 v"
    using assms(2) by (simp_all add: OpPut)
  have enc: "op_encode op = 0 # cf_u8 cf # ?k @ ?v"
    by (simp add: OpPut put_length_prefixed_def)
  have "get_length_prefixed (pre @ op_encode op @ post) (pos + 2)
      = Some (key, pos + 2 + 4 + length key)"
    using get_length_prefixed_at [of "pre @ [0, cf_u8 cf]" "pos + 2" key "?v @ post"] assms(1) fits
    by (simp add: enc)
  moreover have "get_length_prefixed (pre @ op_encode op @ post) (pos + 2 + 4 + length key)
      = Some (v, pos + 2 + 4 + length key + 4 + length v)"
    using get_length_prefixed_at [of "pre @ [0, cf_u8 cf] @ ?k" "pos + 2 + 4 + length key" v post] assms(1) fits
    by (simp add: enc)
  moreover have "byte_at (pre @ op_encode op @ post) pos = Some 0"
    "byte_at (pre @ op_encode op @ post) (pos + 1) = Some (cf_u8 cf)"
    using assms(1) byte_at_append [of "pre @ [0]" "pos + 1" "cf_u8 cf"] by (simp_all add: enc byte_at_append)
  ultimately show ?thesis
    by (simp add: op_decode_def enc) (simp add: OpPut)
next
  case (OpDelete cf key)
  let ?k = "put_length_prefixed [] key"
  have fits: "fits_u32 key"
    using assms(2) by (simp add: OpDelete)
  have enc: "op_encode op = 1 # cf_u8 cf # ?k"
    by (simp add: OpDelete put_length_prefixed_def)
  have "get_length_prefixed (pre @ op_encode op @ post) (pos + 2)
      = Some (key, pos + 2 + 4 + length key)"
    using get_length_prefixed_at [of "pre @ [1, cf_u8 cf]" "pos + 2" key post] assms(1) fits
    by (simp add: enc)
  moreover have "byte_at (pre @ op_encode op @ post) pos = Some 1"
    "byte_at (pre @ op_encode op @ post) (pos + 1) = Some (cf_u8 cf)"
    using assms(1) byte_at_append [of "pre @ [1]" "pos + 1" "cf_u8 cf"] by (simp_all add: enc byte_at_append)
  ultimately show ?thesis
    by (simp add: op_decode_def enc) (simp add: OpDelete)
qed

lemma ops_decode_at:
  assumes "length pre = pos" and "\<forall>op \<in> set os. op_fits op"
  shows "ops_decode (pre @ concat (map op_encode os) @ post) (length os) pos = Some os"
  using assms
proof (induction os arbitrary: pre pos)
  case (Cons op os)
  have "op_decode (pre @ op_encode op @ concat (map op_encode os) @ post) pos
      = Some (op, pos + length (op_encode op))"
    using Cons.prems by (intro op_decode_at) simp_all
  moreover have "ops_decode ((pre @ op_encode op) @ concat (map op_encode os) @ post) (length os)
      (pos + length (op_encode op)) = Some os"
    using Cons.prems by (intro Cons.IH) simp_all
  ultimately show ?case by simp
qed simp

lemma batch_decode_encode [codec_simps]:
  assumes "batch_fits b"
  shows "batch_decode (batch_encode b) = Some b"
proof -
  let ?n = "u32_to_be (word_of_nat (length (ops b)))"
  have "ops_decode (batch_encode b) (length (ops b)) 4 = Some (ops b)"
    using ops_decode_at [of ?n 4 "ops b" "[]"] assms by (simp add: batch_encode_def batch_fits_def)
  moreover have "slice (batch_encode b) 0 4 = ?n"
    by (simp add: batch_encode_def)
  ultimately show ?thesis
    using assms by (simp add: batch_decode_def batch_fits_def batch_encode_def)
qed

lemma batch_ops_simps [simp]:
  "ops batch_new = []"
  "ops (batch_put b cf k v) = ops b @ [OpPut cf k v]"
  "ops (batch_delete b cf k) = ops b @ [OpDelete cf k]"
  by (simp_all add: batch_new_def batch_put_def batch_delete_def)

end
