(* ===== verification/Deps.thy ===== *)
theory Deps
  imports Arcux_Prelude
begin

text \<open>
  The engine's two third-party crates, as parameters of every definition that uses them:
  \<open>crossbeam_skiplist::SkipMap\<close> (the concurrent ordered map of a memtable) and
  \<open>crc32c::crc32c\<close>. The locale \<open>skip_map\<close> states what the engine relies on: the
  documented behaviour of an ordered map, expressed on its iteration order. Nothing is assumed
  of the checksum. The instance \<open>list_deps\<close> shows that the laws can hold; it serves the
  closed examples.
\<close>

record ('m, 'v) deps =
  sm_new :: 'm
  sm_insert :: "'m \<Rightarrow> bytes \<Rightarrow> 'v \<Rightarrow> 'm"
  sm_get :: "'m \<Rightarrow> bytes \<Rightarrow> 'v option"
  sm_lower_bound :: "'m \<Rightarrow> bytes \<Rightarrow> (bytes \<times> 'v) option"
  sm_iter :: "'m \<Rightarrow> (bytes \<times> 'v) list"
  crc32c :: "bytes \<Rightarrow> u32"

locale skip_map =
  fixes D :: "('m, 'v) deps"
  assumes iter_new: "sm_iter D (sm_new D) = []"
    and iter_insert: "sm_iter D (sm_insert D m k v) = al_insert k v (sm_iter D m)"
    and get_iter: "sm_get D m k = map_of (sm_iter D m) k"
    and lower_bound_iter: "sm_lower_bound D m k = al_seek (sm_iter D m) k"
begin

lemma get_new [simp]: "sm_get D (sm_new D) k = None"
  by (simp add: get_iter iter_new)

lemma get_insert [simp]:
  "sm_get D (sm_insert D m k v) k' = (if k' = k then Some v else sm_get D m k')"
  by (simp add: get_iter iter_insert)

lemma lower_bound_seek:
  "strict_keys (sm_iter D m) \<Longrightarrow> seek_spec (sm_get D m) k (sm_lower_bound D m k)"
proof -
  assume "strict_keys (sm_iter D m)"
  moreover have "sm_get D m = map_of (sm_iter D m)"
    by (simp add: fun_eq_iff get_iter)
  ultimately show ?thesis
    by (simp add: lower_bound_iter seek_spec_al_seek)
qed

end

text \<open>A sorted association list as the ordered map; the checksum adds the bytes up.\<close>

definition list_deps :: "((bytes \<times> 'v) list, 'v) deps" where
  "list_deps = \<lparr>sm_new = [], sm_insert = (\<lambda>m k v. al_insert k v m), sm_get = map_of,
     sm_lower_bound = al_seek, sm_iter = (\<lambda>m. m),
     crc32c = (\<lambda>bs. word_of_nat (sum_list (map unat bs)))\<rparr>"

interpretation list_sm: skip_map list_deps
  by unfold_locales (simp_all add: list_deps_def)

end
