(* ===== verification/Memtable.thy ===== *)
theory Memtable
  imports Batch Deps
begin

text \<open>
  \<open>engine/src/memtable.rs\<close>: the in-memory write buffer, one ordered map per column family.
  The locale lemmas give the memtable's contract over the ordered map's laws: a batch applies
  its operations in order, a lookup returns the last of them, a seek returns the least key at
  or after the cursor, tombstones included.
\<close>

datatype mem_value = MvPut bytes | MvDelete

definition MV_PUT :: byte where "MV_PUT = 0"
definition MV_DELETE :: byte where "MV_DELETE = 1"

fun into_present :: "mem_value \<Rightarrow> bytes option" where
  "into_present (MvPut v) = Some v"
| "into_present MvDelete = None"

fun mv_encode :: "mem_value \<Rightarrow> bytes" where
  "mv_encode (MvPut v) = MV_PUT # v"
| "mv_encode MvDelete = [MV_DELETE]"

definition mv_decode :: "bytes \<Rightarrow> mem_value option" where
  "mv_decode bs = (case bs of
     [] \<Rightarrow> None
   | tag # rest \<Rightarrow>
       if tag = MV_PUT then Some (MvPut rest)
       else if tag = MV_DELETE then Some MvDelete
       else None)"

record 'm memtable =
  mt_cfs :: "cf \<Rightarrow> 'm"
  mt_size :: nat
  mt_max_seq :: u64

type_synonym 'm mem_deps = "('m, mem_value) deps"

definition mt_new :: "'m mem_deps \<Rightarrow> 'm memtable" where
  "mt_new D = \<lparr>mt_cfs = (\<lambda>_. sm_new D), mt_size = 0, mt_max_seq = 0\<rparr>"

text \<open>One iteration of \<open>apply\<close>'s loop: the map insert and the size accounting.\<close>

fun mt_apply_op :: "'m mem_deps \<Rightarrow> write_op \<Rightarrow> 'm memtable \<Rightarrow> 'm memtable" where
  "mt_apply_op D (OpPut cf key v) m =
     m\<lparr>mt_cfs := (mt_cfs m)(cf := sm_insert D (mt_cfs m cf) key (MvPut v)),
       mt_size := mt_size m + (length key + length v + 24)\<rparr>"
| "mt_apply_op D (OpDelete cf key) m =
     m\<lparr>mt_cfs := (mt_cfs m)(cf := sm_insert D (mt_cfs m cf) key MvDelete),
       mt_size := mt_size m + (length key + 24)\<rparr>"

definition mt_apply :: "'m mem_deps \<Rightarrow> 'm memtable \<Rightarrow> u64 \<Rightarrow> write_batch \<Rightarrow> 'm memtable" where
  "mt_apply D m seq b =
     (let m' = fold (mt_apply_op D) (ops b) m
      in m'\<lparr>mt_max_seq := max (mt_max_seq m') seq\<rparr>)"

definition mt_get_cf :: "'m mem_deps \<Rightarrow> 'm memtable \<Rightarrow> cf \<Rightarrow> bytes \<Rightarrow> mem_value option" where
  "mt_get_cf D m cf key = sm_get D (mt_cfs m cf) key"

definition mt_seek_cf :: "'m mem_deps \<Rightarrow> 'm memtable \<Rightarrow> cf \<Rightarrow> bytes \<Rightarrow> (bytes \<times> mem_value) option" where
  "mt_seek_cf D m cf from = sm_lower_bound D (mt_cfs m cf) from"

definition mt_iter_cf :: "'m mem_deps \<Rightarrow> 'm memtable \<Rightarrow> cf \<Rightarrow> (bytes \<times> mem_value) list" where
  "mt_iter_cf D m cf = sm_iter D (mt_cfs m cf)"

definition mt_is_empty :: "'m memtable \<Rightarrow> bool" where
  "mt_is_empty m \<longleftrightarrow> mt_size m = 0"

section \<open>The contents of a memtable and of a batch\<close>

text \<open>A column-family store as a map, and what one batch does to it. This is the abstract view
  every level of the engine is compared with.\<close>

type_synonym cf_store = "cf \<Rightarrow> bytes \<Rightarrow> mem_value option"

fun op_value :: "write_op \<Rightarrow> mem_value" where
  "op_value (OpPut cf key v) = MvPut v"
| "op_value (OpDelete cf key) = MvDelete"

definition store_op :: "write_op \<Rightarrow> cf_store \<Rightarrow> cf_store" where
  "store_op op s = s(op_cf op := (s (op_cf op))(op_key op \<mapsto> op_value op))"

definition store_batch :: "write_batch \<Rightarrow> cf_store \<Rightarrow> cf_store" where
  "store_batch b s = fold store_op (ops b) s"

definition mt_store :: "'m mem_deps \<Rightarrow> 'm memtable \<Rightarrow> cf_store" where
  "mt_store D m = mt_get_cf D m"

text \<open>Well-formedness: every column family iterates in strictly ascending key order, and the
  size estimate is zero exactly when nothing was written.\<close>

definition mt_inv :: "'m mem_deps \<Rightarrow> 'm memtable \<Rightarrow> bool" where
  "mt_inv D m \<longleftrightarrow> (\<forall>cf. strict_keys (mt_iter_cf D m cf)) \<and>
     (mt_size m = 0 \<longleftrightarrow> (\<forall>cf. mt_iter_cf D m cf = []))"

lemma mv_roundtrip [simp, codec_simps]: "mv_decode (mv_encode v) = Some v"
  by (cases v) (simp_all add: mv_decode_def MV_PUT_def MV_DELETE_def)

lemma mv_encode_inj: "mv_encode v = mv_encode v' \<longleftrightarrow> v = v'"
  by (metis mv_roundtrip option.inject)

lemma store_op_apply: "store_op op s cf k =
    (if cf = op_cf op \<and> k = op_key op then Some (op_value op) else s cf k)"
  by (simp add: store_op_def)

locale mem_skip_map = skip_map D for D :: "'m mem_deps"
begin

lemma mt_store_new [simp]: "mt_store D (mt_new D) = (\<lambda>_ _. None)"
  by (simp add: mt_store_def mt_get_cf_def mt_new_def fun_eq_iff)

lemma mt_store_apply_op [simp]: "mt_store D (mt_apply_op D op m) = store_op op (mt_store D m)"
  by (cases op) (auto simp: mt_store_def mt_get_cf_def store_op_def fun_eq_iff)

lemma mt_store_fold: "mt_store D (fold (mt_apply_op D) os m) = fold store_op os (mt_store D m)"
  by (induction os arbitrary: m) simp_all

lemma mt_store_apply [simp]: "mt_store D (mt_apply D m seq b) = store_batch b (mt_store D m)"
  using mt_store_fold [of "ops b" m]
  by (simp add: mt_apply_def store_batch_def Let_def mt_store_def mt_get_cf_def fun_eq_iff)

lemma mt_inv_new [simp]: "mt_inv D (mt_new D)"
  by (simp add: mt_inv_def mt_new_def mt_iter_cf_def iter_new)

lemma mt_inv_apply_op [simp]: "mt_inv D m \<Longrightarrow> mt_inv D (mt_apply_op D op m)"
  by (cases op) (auto simp: mt_inv_def mt_iter_cf_def iter_insert)

lemma mt_inv_fold: "mt_inv D m \<Longrightarrow> mt_inv D (fold (mt_apply_op D) os m)"
  by (induction os arbitrary: m) simp_all

lemma mt_inv_apply [simp]: "mt_inv D m \<Longrightarrow> mt_inv D (mt_apply D m seq b)"
  using mt_inv_fold [of m "ops b"] by (simp add: mt_apply_def Let_def mt_inv_def mt_iter_cf_def)

lemma mt_store_iter: "mt_store D m cf = map_of (mt_iter_cf D m cf)"
  by (simp add: mt_store_def mt_get_cf_def mt_iter_cf_def fun_eq_iff get_iter)

lemma mt_seek_spec: "mt_inv D m \<Longrightarrow> seek_spec (mt_store D m cf) from (mt_seek_cf D m cf from)"
  by (simp add: mt_store_iter mt_seek_cf_def lower_bound_iter mt_inv_def mt_iter_cf_def
      seek_spec_al_seek)

lemma mt_is_empty_store: "mt_inv D m \<Longrightarrow> mt_is_empty m \<Longrightarrow> mt_store D m = (\<lambda>_ _. None)"
  by (simp add: mt_is_empty_def mt_inv_def mt_store_iter fun_eq_iff)

lemma mt_max_seq_new [simp]: "mt_max_seq (mt_new D) = 0"
  by (simp add: mt_new_def)

lemma mt_max_seq_fold: "mt_max_seq (fold (mt_apply_op D) os m) = mt_max_seq m"
proof (induction os arbitrary: m)
  case (Cons op os)
  then show ?case by (cases op) simp_all
qed simp

lemma mt_max_seq_apply [simp]: "mt_max_seq (mt_apply D m seq b) = max (mt_max_seq m) seq"
  by (simp add: mt_apply_def Let_def mt_max_seq_fold)

end

interpretation list_mem: mem_skip_map "list_deps :: (bytes \<times> mem_value) list mem_deps"
  by unfold_locales

end
