(* ===== verification/Engine_Error.thy ===== *)
theory Engine_Error
  imports Arcux_Prelude
begin

text \<open>
  \<open>engine/src/error.rs\<close>: the engine's error type. A formatted message is kept as the values
  it prints: who holds the lock a read met.
\<close>

datatype locked_by =
    LockedByTxn u64
  | PrimaryAlive bytes u64

datatype error =
    Io
  | Corruption string
  | InvalidArgument string
  | Conflict string
  | KeyIsLocked locked_by

type_synonym 'a res = "error + 'a"

end
