(* ===== verification/Kv.thy ===== *)
theory Kv
  imports Memtable Engine_Error "HOL-Library.Sublist"
begin

text \<open>
  The read interface of the engine core and the conditional operations of
  \<open>engine/src/db.rs\<close> that are built on it: the conflict check of a prewrite, the lock
  re-check of a resolution and the batches they write. \<open>kv\<close> holds the two read entry
  points, \<open>get_cf\<close> and \<open>seek_cf\<close>. The locale \<open>kv_reads\<close> is their contract against a
  store, and its lemmas say what the newest-version seek finds: the newest commit of a user key,
  as long as no user key with a commit record is a prefix of another.
\<close>

record kv =
  kv_get :: "cf \<Rightarrow> bytes \<Rightarrow> bytes option res"
  kv_seek :: "cf \<Rightarrow> bytes \<Rightarrow> (bytes \<times> mem_value) option res"

record prewrite_spec =
  pw_key :: bytes
  pw_value :: bytes
  pw_primary :: bytes
  pw_start_ts :: u64
  pw_ttl :: u64
  pw_kind :: lock_kind

datatype resolve_action = RaCommit u64 | RaRollback

record resolve_spec =
  rs_key :: bytes
  rs_start_ts :: u64
  rs_action :: resolve_action

datatype op = OWrite write_batch | OPrewrite prewrite_spec | OResolve resolve_spec

definition decode_lock :: "string \<Rightarrow> bytes option \<Rightarrow> lock option res" where
  "decode_lock msg v = (case v of
     None \<Rightarrow> Inr None
   | Some b \<Rightarrow> res_bind (ok_or (lock_decode b) (Corruption msg)) (\<lambda>l. Inr (Some l)))"

definition current_lock :: "kv \<Rightarrow> bytes \<Rightarrow> lock option res" where
  "current_lock K key = res_bind (kv_get K CfLock key) (decode_lock ''lock decode'')"

definition check_prewrite :: "kv \<Rightarrow> bytes \<Rightarrow> u64 \<Rightarrow> unit res" where
  "check_prewrite K key start_ts =
     res_bind (kv_seek K CfWrite (encode_data_key key u64_max)) (\<lambda>newest.
       if (case newest of
             None \<Rightarrow> False
           | Some (wkey, _) \<Rightarrow>
               (case decode_data_key wkey of
                  None \<Rightarrow> False
                | Some (wuser, commit_ts) \<Rightarrow> wuser = key \<and> start_ts \<le> commit_ts))
       then Inl (Conflict ''write conflict: a newer commit exists'')
       else res_bind (kv_get K CfLock key) (\<lambda>l.
         if l \<noteq> None then Inl (Conflict ''key is already locked by another transaction'')
         else Inr ()))"

definition build_prewrite_batch :: "prewrite_spec \<Rightarrow> write_batch" where
  "build_prewrite_batch spec =
     (let b = batch_put batch_new CfDefault (encode_data_key (pw_key spec) (pw_start_ts spec)) (pw_value spec);
          l = \<lparr>lk_primary = pw_primary spec, lk_start_ts = pw_start_ts spec, lk_ttl = pw_ttl spec,
               lk_kind = pw_kind spec\<rparr>
      in batch_put b CfLock (pw_key spec) (lock_encode l))"

definition build_resolve_batch :: "resolve_spec \<Rightarrow> write_batch" where
  "build_resolve_batch spec = (case rs_action spec of
     RaCommit commit_ts \<Rightarrow>
       batch_delete
         (batch_put batch_new CfWrite (encode_data_key (rs_key spec) commit_ts)
           (encode_write_value (rs_start_ts spec)))
         CfLock (rs_key spec)
   | RaRollback \<Rightarrow>
       batch_delete (batch_delete batch_new CfLock (rs_key spec))
         CfDefault (encode_data_key (rs_key spec) (rs_start_ts spec)))"

text \<open>The \<open>match &req.op\<close> of \<open>process_group\<close>: the batch to append, nothing for a
  resolution whose lock has changed hands, or the error that answers the request.\<close>

definition request_batch :: "kv \<Rightarrow> op \<Rightarrow> write_batch option res" where
  "request_batch K op = (case op of
     OWrite b \<Rightarrow> Inr (Some b)
   | OPrewrite spec \<Rightarrow>
       res_bind (check_prewrite K (pw_key spec) (pw_start_ts spec)) (\<lambda>_.
         Inr (Some (build_prewrite_batch spec)))
   | OResolve spec \<Rightarrow>
       res_bind (current_lock K (rs_key spec)) (\<lambda>l. Inr (case l of
           None \<Rightarrow> None
         | Some lk \<Rightarrow>
             if lk_start_ts lk = rs_start_ts spec then Some (build_resolve_batch spec) else None)))"

section \<open>Versions of a user key in a store\<close>

definition present :: "cf_store \<Rightarrow> cf \<Rightarrow> bytes \<Rightarrow> bytes option" where
  "present s cf k = Option.bind (s cf k) into_present"

definition incomparable :: "bytes \<Rightarrow> bytes \<Rightarrow> bool" where
  "incomparable k k' \<longleftrightarrow> \<not> prefix k k' \<and> \<not> prefix k' k"

text \<open>Every commit record is one of \<open>k\<close> or of a key that is neither a prefix nor an
  extension of \<open>k\<close>.\<close>

definition isolated :: "cf_store \<Rightarrow> bytes \<Rightarrow> bool" where
  "isolated s k \<longleftrightarrow> (\<forall>w. s CfWrite w \<noteq> None \<longrightarrow>
     (\<exists>k' ts. w = encode_data_key k' ts \<and> (k' = k \<or> incomparable k k')))"

lemma incomparable_append_less:
  "incomparable k k' \<Longrightarrow> k @ x < k' @ y \<longleftrightarrow> k < k'"
proof (induction k arbitrary: k')
  case (Cons a k)
  then show ?case by (cases k') (auto simp: incomparable_def)
qed (simp add: incomparable_def)

lemma incomparable_sym: "incomparable k k' \<Longrightarrow> incomparable k' k"
  by (auto simp: incomparable_def)

text \<open>What a seek in the commit records of \<open>k\<close> hits: the newest commit of \<open>k\<close> at or after
  the cursor, or, when there is none, nothing or another user key.\<close>

lemma seek_commit_from:
  assumes iso: "isolated s k" and seek: "seek_spec (s CfWrite) (k @ x) r"
  shows "(\<exists>ts v. r = Some (encode_data_key k ts, v) \<and> k @ x \<le> encode_data_key k ts \<and>
            s CfWrite (encode_data_key k ts) = Some v \<and>
            (\<forall>ts'. ts < ts' \<and> k @ x \<le> encode_data_key k ts' \<longrightarrow> s CfWrite (encode_data_key k ts') = None)) \<or>
         ((r = None \<or> (\<exists>k' ts v. r = Some (encode_data_key k' ts, v) \<and> k' \<noteq> k)) \<and>
            (\<forall>ts'. k @ x \<le> encode_data_key k ts' \<longrightarrow> s CfWrite (encode_data_key k ts') = None))"
proof (cases r)
  case None
  then show ?thesis
    using seek by (auto simp: seek_spec_def)
next
  case (Some e)
  obtain w v where e: "e = (w, v)" by (cases e)
  have hit: "k @ x \<le> w" "s CfWrite w = Some v"
    and gap: "\<And>w'. k @ x \<le> w' \<Longrightarrow> w' < w \<Longrightarrow> s CfWrite w' = None"
    using seek by (auto simp: seek_spec_def Some e)
  obtain k' ts where w: "w = encode_data_key k' ts" "k' = k \<or> incomparable k k'"
    using iso hit(2) unfolding isolated_def by blast
  show ?thesis
  proof (cases "k' = k")
    case True
    then show ?thesis
      using hit gap by (auto simp: Some e w)
  next
    case False
    then have inc: "incomparable k k'" using w(2) by simp
    then have "k < k'"
      using hit(1) w(1) incomparable_append_less [OF inc, of x "encode_ts ts"] False
        incomparable_append_less [OF incomparable_sym [OF inc], of "encode_ts ts" x]
      by (auto simp: encode_data_key_def le_less)
    then have "s CfWrite (encode_data_key k ts') = None" if "k @ x \<le> encode_data_key k ts'" for ts'
      using gap [of "encode_data_key k ts'"] that incomparable_append_less [OF inc]
      by (simp add: w(1)) (simp add: encode_data_key_def)
    with False show ?thesis by (auto simp: Some e w(1))
  qed
qed

lemma seek_newest_commit:
  assumes "isolated s k" "seek_spec (s CfWrite) (encode_data_key k t) r"
  shows "(\<exists>ts v. r = Some (encode_data_key k ts, v) \<and> ts \<le> t \<and>
            s CfWrite (encode_data_key k ts) = Some v \<and>
            (\<forall>ts'. ts < ts' \<and> ts' \<le> t \<longrightarrow> s CfWrite (encode_data_key k ts') = None)) \<or>
         ((r = None \<or> (\<exists>k' ts v. r = Some (encode_data_key k' ts, v) \<and> k' \<noteq> k)) \<and>
            (\<forall>ts' \<le> t. s CfWrite (encode_data_key k ts') = None))"
  using seek_commit_from [of s k "encode_ts t" r] assms
  by (simp flip: encode_data_key_def)

section \<open>The read contract\<close>

locale kv_reads =
  fixes K :: kv and s :: cf_store
  assumes get_store: "kv_get K cf k = Inr (present s cf k)"
    and seek_store: "\<exists>r. kv_seek K cf from = Inr r \<and> seek_spec (s cf) from r"
begin

lemma seek_unique: "seek_spec (s cf) from r \<Longrightarrow> kv_seek K cf from = Inr r"
  using seek_store seek_spec_unique by blast

lemma current_lock_store: "current_lock K key = decode_lock ''lock decode'' (present s CfLock key)"
  by (simp add: current_lock_def get_store)

text \<open>A prewrite is refused exactly when a commit at or after its snapshot exists or the key is
  locked.\<close>

lemma check_prewrite_store:
  assumes "isolated s key"
  shows "check_prewrite K key start_ts =
    (if \<exists>ts \<ge> start_ts. s CfWrite (encode_data_key key ts) \<noteq> None
     then Inl (Conflict ''write conflict: a newer commit exists'')
     else if present s CfLock key \<noteq> None
     then Inl (Conflict ''key is already locked by another transaction'')
     else Inr ())"
proof -
  obtain r where r: "kv_seek K CfWrite (encode_data_key key u64_max) = Inr r"
    "seek_spec (s CfWrite) (encode_data_key key u64_max) r"
    using seek_store by blast
  let ?newer = "\<exists>ts \<ge> start_ts. s CfWrite (encode_data_key key ts) \<noteq> None"
  have "(case r of None \<Rightarrow> False
     | Some (wkey, _) \<Rightarrow> (case decode_data_key wkey of None \<Rightarrow> False
        | Some (wuser, commit_ts) \<Rightarrow> wuser = key \<and> start_ts \<le> commit_ts)) \<longleftrightarrow> ?newer"
    using seek_newest_commit [OF assms r(2)]
  proof (elim disjE exE conjE)
    fix ts v
    assume hit: "r = Some (encode_data_key key ts, v)" "s CfWrite (encode_data_key key ts) = Some v"
      and gap: "\<forall>ts'. ts < ts' \<and> ts' \<le> u64_max \<longrightarrow> s CfWrite (encode_data_key key ts') = None"
    have "start_ts \<le> ts" if "start_ts \<le> ts'" "s CfWrite (encode_data_key key ts') \<noteq> None" for ts'
      using gap that by (cases "ts < ts'") simp_all
    then show ?thesis using hit by (auto simp: hit(1))
  qed simp_all
  then show ?thesis by (simp add: check_prewrite_def r(1) get_store)
qed

end

text \<open>The contract determines the interface, so whatever is read through it is a function of
  the store alone.\<close>

lemma kv_reads_unique:
  assumes "kv_reads K s" "kv_reads K' s"
  shows "K = K'"
proof -
  have "kv_get K = kv_get K'"
    using assms by (simp add: kv_reads.get_store fun_eq_iff)
  moreover have "kv_seek K cf from = kv_seek K' cf from" for cf "from"
    using kv_reads.seek_store [OF assms(1)] kv_reads.seek_unique [OF assms(2)] by metis
  ultimately show ?thesis by (simp add: fun_eq_iff)
qed

end
