(* ===== verification/Mvcc.thy ===== *)
theory Mvcc
  imports Kv
begin

text \<open>
  \<open>engine/src/mvcc.rs\<close> and the request methods of the engine handle in
  \<open>engine/src/db.rs\<close>: snapshot reads and Percolator lock resolution. An engine is a record of
  its read interface and its submission call, so the same definitions run on the engine core and
  on a replicated store. A search that may not end is a partial function: \<open>None\<close> is not
  returning. The lemmas characterise the reads by the commit records of a user key and show that
  the search for a transaction's commit record ends.
\<close>

record 'c eng =
  eng_kv :: "'c \<Rightarrow> kv"
  eng_submit :: "'c \<Rightarrow> op \<Rightarrow> 'c \<times> u64 res"
  eng_last_seq :: "'c \<Rightarrow> u64"

section \<open>Requests\<close>

definition engine_write :: "'c eng \<Rightarrow> 'c \<Rightarrow> write_batch \<Rightarrow> 'c \<times> u64 res" where
  "engine_write E c b = (if batch_is_empty b then (c, Inr (eng_last_seq E c)) else eng_submit E c (OWrite b))"

fun value_kind :: "value \<Rightarrow> lock_kind" where
  "value_kind (VPut _) = LkPut"
| "value_kind VDelete = LkDelete"

definition prewrite_one :: "'c eng \<Rightarrow> 'c \<Rightarrow> bytes \<Rightarrow> value \<Rightarrow> bytes \<Rightarrow> u64 \<Rightarrow> u64 \<Rightarrow> 'c \<times> u64 res" where
  "prewrite_one E c key v primary start_ts ttl =
     eng_submit E c (OPrewrite \<lparr>pw_key = key, pw_value = value_encode v, pw_primary = primary,
       pw_start_ts = start_ts, pw_ttl = ttl, pw_kind = value_kind v\<rparr>)"

definition resolve_commit :: "'c eng \<Rightarrow> 'c \<Rightarrow> bytes \<Rightarrow> u64 \<Rightarrow> u64 \<Rightarrow> 'c \<times> unit res" where
  "resolve_commit E c key start_ts commit_ts =
     (case eng_submit E c (OResolve \<lparr>rs_key = key, rs_start_ts = start_ts, rs_action = RaCommit commit_ts\<rparr>)
      of (c, r) \<Rightarrow> (c, res_bind r (\<lambda>_. Inr ())))"

definition resolve_rollback :: "'c eng \<Rightarrow> 'c \<Rightarrow> bytes \<Rightarrow> u64 \<Rightarrow> 'c \<times> unit res" where
  "resolve_rollback E c key start_ts =
     (case eng_submit E c (OResolve \<lparr>rs_key = key, rs_start_ts = start_ts, rs_action = RaRollback\<rparr>)
      of (c, r) \<Rightarrow> (c, res_bind r (\<lambda>_. Inr ())))"

section \<open>Snapshot reads\<close>

definition read_committed :: "kv \<Rightarrow> bytes \<Rightarrow> u64 \<Rightarrow> bytes option res" where
  "read_committed K user_key read_ts =
     res_bind (kv_seek K CfWrite (encode_data_key user_key read_ts)) (\<lambda>hit. case hit of
       None \<Rightarrow> Inr None
     | Some (wkey, wval) \<Rightarrow>
         (case decode_data_key wkey of
            None \<Rightarrow> Inl (Corruption ''write-cf key decode'')
          | Some (wuser, _) \<Rightarrow>
              if wuser \<noteq> user_key then Inr None
              else (case wval of
                      MvDelete \<Rightarrow> Inr None
                    | MvPut start_ts_bytes \<Rightarrow>
                        res_bind (ok_or (decode_write_value start_ts_bytes) (Corruption ''write-cf value''))
                          (\<lambda>start_ts.
                        res_bind (kv_get K CfDefault (encode_data_key user_key start_ts)) (\<lambda>d. case d of
                          None \<Rightarrow> Inr None
                        | Some val_bytes \<Rightarrow>
                            res_bind (ok_or (value_decode val_bytes) (Corruption ''default-cf value''))
                              (\<lambda>v. Inr (into_option v)))))))"

definition mvcc_get_unresolved :: "kv \<Rightarrow> bytes \<Rightarrow> u64 \<Rightarrow> bytes option res" where
  "mvcc_get_unresolved K user_key read_ts =
     res_bind (kv_get K CfLock user_key) (\<lambda>lb.
     res_bind (decode_lock ''lock decode'' lb) (\<lambda>l. case l of
       Some lk \<Rightarrow>
         if lk_start_ts lk \<le> read_ts then Inl (KeyIsLocked (LockedByTxn (lk_start_ts lk)))
         else read_committed K user_key read_ts
     | None \<Rightarrow> read_committed K user_key read_ts))"

section \<open>The fate of a transaction\<close>

datatype txn_status = Committed u64 | RolledBack | Locked u64

text \<open>The loop of \<open>find_commit_ts\<close> at the seek cursor.\<close>

partial_function (option) find_commit_loop :: "kv \<Rightarrow> bytes \<Rightarrow> u64 \<Rightarrow> bytes \<Rightarrow> u64 option res option" where
  "find_commit_loop K primary start_ts seek =
     (case kv_seek K CfWrite seek of
        Inl e \<Rightarrow> Some (Inl e)
      | Inr None \<Rightarrow> Some (Inr None)
      | Inr (Some (wkey, wval)) \<Rightarrow>
          (case decode_data_key wkey of
             None \<Rightarrow> Some (Inl (Corruption ''write-cf key decode''))
           | Some (wuser, commit_ts) \<Rightarrow>
               if wuser \<noteq> primary then Some (Inr None)
               else if (case wval of MvPut sb \<Rightarrow> decode_write_value sb = Some start_ts | MvDelete \<Rightarrow> False)
               then Some (Inr (Some commit_ts))
               else find_commit_loop K primary start_ts (wkey @ [0])))"

declare find_commit_loop.simps [code]

definition find_commit_ts :: "kv \<Rightarrow> bytes \<Rightarrow> u64 \<Rightarrow> u64 option res option" where
  "find_commit_ts K primary start_ts =
     find_commit_loop K primary start_ts (encode_data_key primary u64_max)"

definition status_of_commit :: "u64 option res option \<Rightarrow> txn_status res option" where
  "status_of_commit r = map_option (\<lambda>r. res_bind r (\<lambda>c. Inr (case c of
     Some commit_ts \<Rightarrow> Committed commit_ts
   | None \<Rightarrow> RolledBack))) r"

definition check_txn_status :: "'c eng \<Rightarrow> 'c \<Rightarrow> bytes \<Rightarrow> u64 \<Rightarrow> u64 \<Rightarrow> ('c \<times> txn_status res) option" where
  "check_txn_status E c primary start_ts now_ts =
     (case res_bind (kv_get (eng_kv E c) CfLock primary) (decode_lock ''primary lock decode'') of
        Inl e \<Rightarrow> Some (c, Inl e)
      | Inr primary_lock \<Rightarrow>
          (case primary_lock of
             Some plock \<Rightarrow>
               if lk_start_ts plock = start_ts
               then (if lk_ttl plock < now_ts
                     then (case resolve_rollback E c primary start_ts of (c, r) \<Rightarrow>
                             Some (c, res_bind r (\<lambda>_. Inr RolledBack)))
                     else Some (c, Inr (Locked (lk_ttl plock))))
               else map_option (Pair c) (status_of_commit (find_commit_ts (eng_kv E c) primary start_ts))
           | None \<Rightarrow> map_option (Pair c) (status_of_commit (find_commit_ts (eng_kv E c) primary start_ts))))"

definition check_txn_status_peek :: "kv \<Rightarrow> bytes \<Rightarrow> u64 \<Rightarrow> txn_status res option" where
  "check_txn_status_peek K primary start_ts =
     (case res_bind (kv_get K CfLock primary) (decode_lock ''primary lock decode'') of
        Inl e \<Rightarrow> Some (Inl e)
      | Inr (Some plock) \<Rightarrow>
          if lk_start_ts plock = start_ts then Some (Inr (Locked (lk_ttl plock)))
          else status_of_commit (find_commit_ts K primary start_ts)
      | Inr None \<Rightarrow> status_of_commit (find_commit_ts K primary start_ts))"

definition resolve_lock :: "'c eng \<Rightarrow> 'c \<Rightarrow> bytes \<Rightarrow> lock \<Rightarrow> u64 \<Rightarrow> ('c \<times> unit res) option" where
  "resolve_lock E c key lk now_ts = do {
     (c, status) \<leftarrow> check_txn_status E c (lk_primary lk) (lk_start_ts lk) now_ts;
     Some (case status of
         Inl e \<Rightarrow> (c, Inl e)
       | Inr (Committed commit_ts) \<Rightarrow> resolve_commit E c key (lk_start_ts lk) commit_ts
       | Inr RolledBack \<Rightarrow> resolve_rollback E c key (lk_start_ts lk)
       | Inr (Locked ttl) \<Rightarrow> (c, Inl (KeyIsLocked (PrimaryAlive (lk_primary lk) ttl))))
   }"

text \<open>The retry loop of \<open>mvcc_get\<close> with the rounds left.\<close>

fun mvcc_resolve :: "'c eng \<Rightarrow> nat \<Rightarrow> 'c \<Rightarrow> bytes \<Rightarrow> u64 \<Rightarrow> ('c \<times> unit res) option" where
  "mvcc_resolve E 0 c user_key read_ts = Some (c, Inr ())"
| "mvcc_resolve E (Suc n) c user_key read_ts =
     (case res_bind (kv_get (eng_kv E c) CfLock user_key) (decode_lock ''lock decode'') of
        Inl e \<Rightarrow> Some (c, Inl e)
      | Inr None \<Rightarrow> Some (c, Inr ())
      | Inr (Some lk) \<Rightarrow>
          if read_ts < lk_start_ts lk then Some (c, Inr ())
          else do {
            (c, r) \<leftarrow> resolve_lock E c user_key lk read_ts;
            (case r of
               Inl e \<Rightarrow> Some (c, Inl e)
             | Inr _ \<Rightarrow> mvcc_resolve E n c user_key read_ts)
          })"

definition mvcc_get :: "'c eng \<Rightarrow> 'c \<Rightarrow> bytes \<Rightarrow> u64 \<Rightarrow> ('c \<times> bytes option res) option" where
  "mvcc_get E c user_key read_ts = do {
     (c, r) \<leftarrow> mvcc_resolve E 8 c user_key read_ts;
     Some (c, res_bind r (\<lambda>_. read_committed (eng_kv E c) user_key read_ts))
   }"

section \<open>Commit records of a user key\<close>

definition commits :: "cf_store \<Rightarrow> bytes \<Rightarrow> u64 set" where
  "commits s k = {ts. s CfWrite (encode_data_key k ts) \<noteq> None}"

text \<open>The start timestamp a commit record points at.\<close>

definition start_of :: "cf_store \<Rightarrow> bytes \<Rightarrow> u64 \<Rightarrow> u64 option" where
  "start_of s k ts = Option.bind (present s CfWrite (encode_data_key k ts)) decode_write_value"

definition newest_commit :: "cf_store \<Rightarrow> bytes \<Rightarrow> u64 \<Rightarrow> u64 \<Rightarrow> bool" where
  "newest_commit s k t ts \<longleftrightarrow> ts \<in> commits s k \<and> ts \<le> t \<and> (\<forall>ts' \<in> commits s k. ts' \<le> t \<longrightarrow> ts' \<le> ts)"

text \<open>What a reader gets from the commit record at \<open>ts\<close>.\<close>

definition commit_value :: "cf_store \<Rightarrow> bytes \<Rightarrow> u64 \<Rightarrow> bytes option res" where
  "commit_value s k ts = (case s CfWrite (encode_data_key k ts) of
     Some (MvPut sb) \<Rightarrow>
       res_bind (ok_or (decode_write_value sb) (Corruption ''write-cf value'')) (\<lambda>st.
         case present s CfDefault (encode_data_key k st) of
           None \<Rightarrow> Inr None
         | Some vb \<Rightarrow>
             res_bind (ok_or (value_decode vb) (Corruption ''default-cf value'')) (\<lambda>v. Inr (into_option v)))
   | _ \<Rightarrow> Inr None)"

lemma start_of_commits: "start_of s k ts = Some st \<Longrightarrow> ts \<in> commits s k"
  by (auto simp: start_of_def commits_def present_def bind_eq_Some_conv)

lemma start_of_hit:
  "s CfWrite (encode_data_key k ts) = Some v \<Longrightarrow>
     (case v of MvPut sb \<Rightarrow> decode_write_value sb = Some st | MvDelete \<Rightarrow> False) \<longleftrightarrow> start_of s k ts = Some st"
  by (cases v) (auto simp: start_of_def present_def)

context kv_reads
begin

text \<open>A snapshot read returns what the newest commit at or below its timestamp points at.\<close>

lemma read_committed_none:
  assumes "isolated s k" "\<forall>ts \<in> commits s k. t < ts"
  shows "read_committed K k t = Inr None"
proof -
  obtain r where r: "kv_seek K CfWrite (encode_data_key k t) = Inr r"
    "seek_spec (s CfWrite) (encode_data_key k t) r"
    using seek_store by blast
  from seek_newest_commit [OF assms(1) r(2)] show ?thesis
    using assms(2) by (auto simp: read_committed_def r(1) commits_def not_le [symmetric])
qed

lemma newest_commit_cases:
  assumes "isolated s k"
  obtains (none) "\<forall>ts \<in> commits s k. t < ts" | (newest) ts where "newest_commit s k t ts"
proof -
  obtain r where "seek_spec (s CfWrite) (encode_data_key k t) r"
    using seek_store by blast
  from seek_newest_commit [OF assms this] show thesis
  proof (elim disjE exE conjE)
    fix ts v
    assume "ts \<le> t" "s CfWrite (encode_data_key k ts) = Some v"
      "\<forall>ts'. ts < ts' \<and> ts' \<le> t \<longrightarrow> s CfWrite (encode_data_key k ts') = None"
    then have "newest_commit s k t ts"
      by (auto simp: newest_commit_def commits_def not_less [symmetric])
    then show thesis by (rule newest)
  next
    assume "\<forall>ts' \<le> t. s CfWrite (encode_data_key k ts') = None"
    then have "\<forall>ts \<in> commits s k. t < ts"
      unfolding commits_def by (metis (mono_tags) mem_Collect_eq not_le)
    then show thesis by (rule none)
  next
    assume "\<forall>ts' \<le> t. s CfWrite (encode_data_key k ts') = None"
    then have "\<forall>ts \<in> commits s k. t < ts"
      unfolding commits_def by (metis (mono_tags) mem_Collect_eq not_le)
    then show thesis by (rule none)
  qed
qed

lemma read_committed_value:
  assumes "isolated s k" "newest_commit s k t ts"
  shows "read_committed K k t = commit_value s k ts"
proof -
  obtain r where r: "kv_seek K CfWrite (encode_data_key k t) = Inr r"
    "seek_spec (s CfWrite) (encode_data_key k t) r"
    using seek_store by blast
  have ts: "ts \<le> t" "s CfWrite (encode_data_key k ts) \<noteq> None"
    and max: "\<And>ts'. s CfWrite (encode_data_key k ts') \<noteq> None \<Longrightarrow> ts' \<le> t \<Longrightarrow> ts' \<le> ts"
    using assms(2) by (auto simp: newest_commit_def commits_def)
  from seek_newest_commit [OF assms(1) r(2)]
  obtain ts' w where hit: "r = Some (encode_data_key k ts', w)" "ts' \<le> t"
    "s CfWrite (encode_data_key k ts') = Some w"
    "\<forall>ts''. ts' < ts'' \<and> ts'' \<le> t \<longrightarrow> s CfWrite (encode_data_key k ts'') = None"
    using ts by (elim disjE exE conjE) auto
  have "ts' = ts"
    using max [of ts'] hit ts by (metis option.distinct(1) order_le_less)
  with hit show ?thesis
    by (cases w) (simp_all add: read_committed_def commit_value_def r(1) get_store)
qed

lemma read_committed_newest:
  assumes "isolated s k" "newest_commit s k t ts" "start_of s k ts = Some st"
    and "present s CfDefault (encode_data_key k st) = Some vb" "value_decode vb = Some v"
  shows "read_committed K k t = Inr (into_option v)"
proof -
  obtain sb where "s CfWrite (encode_data_key k ts) = Some (MvPut sb)" "decode_write_value sb = Some st"
    using assms(3) by (auto simp: start_of_def present_def bind_eq_Some_conv elim!: into_present.elims)
  then show ?thesis
    using read_committed_value [OF assms(1,2)] assms(4,5) by (simp add: commit_value_def ok_or_def)
qed

text \<open>The search for the commit record of a transaction ends, and finds it if there is one.\<close>

lemma find_commit_loop_ends:
  assumes iso: "isolated s k" and fin: "finite (dom (s CfWrite))"
  shows "\<exists>r. find_commit_loop K k st (k @ x) = Some (Inr r) \<and> (case r of
      Some cts \<Rightarrow> start_of s k cts = Some st
    | None \<Rightarrow> \<forall>cts. k @ x \<le> encode_data_key k cts \<longrightarrow> start_of s k cts \<noteq> Some st)"
proof (induction "card {w \<in> dom (s CfWrite). k @ x \<le> w}" arbitrary: x rule: less_induct)
  case less
  obtain r where r: "kv_seek K CfWrite (k @ x) = Inr r" "seek_spec (s CfWrite) (k @ x) r"
    using seek_store by blast
  consider (hit) ts v where "r = Some (encode_data_key k ts, v)" "k @ x \<le> encode_data_key k ts"
      "s CfWrite (encode_data_key k ts) = Some v"
      "\<forall>ts'. ts < ts' \<and> k @ x \<le> encode_data_key k ts' \<longrightarrow> s CfWrite (encode_data_key k ts') = None"
    | (miss) "r = None \<or> (\<exists>k' ts v. r = Some (encode_data_key k' ts, v) \<and> k' \<noteq> k)"
      "\<forall>ts'. k @ x \<le> encode_data_key k ts' \<longrightarrow> s CfWrite (encode_data_key k ts') = None"
    using seek_commit_from [OF iso r(2)] by blast
  then show ?case
  proof cases
    case miss
    then have "find_commit_loop K k st (k @ x) = Some (Inr None)"
      by (subst find_commit_loop.simps) (auto simp: r(1))
    moreover have "\<forall>cts. k @ x \<le> encode_data_key k cts \<longrightarrow> start_of s k cts \<noteq> Some st"
      using miss(2) by (auto simp: start_of_def present_def)
    ultimately show ?thesis by simp
  next
    case hit
    note step = find_commit_loop.simps [of K k st "k @ x"]
    show ?thesis
    proof (cases "start_of s k ts = Some st")
      case True
      then show ?thesis
        using start_of_hit [of s k _ _ st, OF hit(3)] by (subst step) (simp add: r(1) hit(1))
    next
      case False
      let ?x' = "encode_ts ts @ [0]"
      have nxt: "find_commit_loop K k st (k @ x) = find_commit_loop K k st (k @ ?x')"
        using False start_of_hit [of s k _ _ st, OF hit(3)]
        by (subst step) (simp add: r(1) hit(1), simp add: encode_data_key_def)
      have cur: "k @ ?x' \<le> w \<longleftrightarrow> encode_data_key k ts < w" for w
        using succ_key_le_iff [of "encode_data_key k ts" w] by (simp add: encode_data_key_def)
      have "{w \<in> dom (s CfWrite). k @ ?x' \<le> w} \<subset> {w \<in> dom (s CfWrite). k @ x \<le> w}"
        using hit(2,3) unfolding cur by (auto intro: order_trans)
      then have "card {w \<in> dom (s CfWrite). k @ ?x' \<le> w} < card {w \<in> dom (s CfWrite). k @ x \<le> w}"
        using fin by (intro psubset_card_mono) auto
      from less [OF this] obtain res where res: "find_commit_loop K k st (k @ ?x') = Some (Inr res)"
        "case res of Some cts \<Rightarrow> start_of s k cts = Some st
           | None \<Rightarrow> \<forall>cts. k @ ?x' \<le> encode_data_key k cts \<longrightarrow> start_of s k cts \<noteq> Some st"
        by blast
      have "start_of s k cts \<noteq> Some st"
        if "\<forall>cts. k @ ?x' \<le> encode_data_key k cts \<longrightarrow> start_of s k cts \<noteq> Some st"
          "k @ x \<le> encode_data_key k cts" for cts
        using that(1) [unfolded cur] that(2) hit(4) False
        by (cases cts ts rule: linorder_cases) (auto simp: start_of_def present_def)
      with res nxt show ?thesis by (auto split: option.splits)
    qed
  qed
qed

lemma find_commit_ts_ends:
  assumes "isolated s k" "finite (dom (s CfWrite))"
  shows "\<exists>r. find_commit_ts K k st = Some (Inr r) \<and> (case r of
      Some cts \<Rightarrow> start_of s k cts = Some st
    | None \<Rightarrow> \<forall>cts. start_of s k cts \<noteq> Some st)"
proof -
  have "k @ encode_ts u64_max \<le> encode_data_key k cts" for cts
    using encode_data_key_le_iff [of k u64_max cts] by (simp add: encode_data_key_def)
  then show ?thesis
    using find_commit_loop_ends [OF assms, of st "encode_ts u64_max"]
    by (auto simp: find_commit_ts_def encode_data_key_def split: option.splits)
qed

end

text \<open>A snapshot read depends only on the commit records at or below its timestamp and on the
  values they point at.\<close>

lemma read_committed_cong:
  assumes K: "kv_reads K s" "kv_reads K' s'" and iso: "isolated s k" "isolated s' k"
    and recs: "\<And>ts. ts \<le> t \<Longrightarrow> s' CfWrite (encode_data_key k ts) = s CfWrite (encode_data_key k ts)"
    and vals: "\<And>ts st. ts \<le> t \<Longrightarrow> start_of s k ts = Some st \<Longrightarrow>
      present s' CfDefault (encode_data_key k st) = present s CfDefault (encode_data_key k st)"
  shows "read_committed K' k t = read_committed K k t"
proof -
  consider (none) "\<forall>ts \<in> commits s k. t < ts" | (newest) ts where "newest_commit s k t ts"
    using kv_reads.newest_commit_cases [OF K(1) iso(1)] by metis
  then show ?thesis
  proof cases
    case none
    then have "\<forall>ts \<in> commits s' k. t < ts"
      using recs by (auto simp: commits_def not_le [symmetric])
    with none show ?thesis
      using kv_reads.read_committed_none K iso by metis
  next
    case (newest ts)
    then have "newest_commit s' k t ts"
      using recs by (auto simp: newest_commit_def commits_def)
    moreover have "commit_value s' k ts = commit_value s k ts"
      using newest recs [of ts] vals [of ts]
      by (auto simp: commit_value_def newest_commit_def start_of_def present_def ok_or_def res_bind_def
          split: option.splits mem_value.splits)
    ultimately show ?thesis
      using kv_reads.read_committed_value [OF K(1) iso(1) newest] kv_reads.read_committed_value [OF K(2) iso(2)]
      by simp
  qed
qed

section \<open>The engine as its clients see it\<close>

lemma store_batch_simps [simp]:
  "store_batch batch_new s = s"
  "store_batch (batch_put b cf k v) s = store_op (OpPut cf k v) (store_batch b s)"
  "store_batch (batch_delete b cf k) s = store_op (OpDelete cf k) (store_batch b s)"
  by (simp_all add: store_batch_def batch_new_def batch_put_def batch_delete_def)

lemma store_op_simps [simp]:
  "store_op (OpPut cf k v) s cf' k' = (if cf' = cf \<and> k' = k then Some (MvPut v) else s cf' k')"
  "store_op (OpDelete cf k) s cf' k' = (if cf' = cf \<and> k' = k then Some MvDelete else s cf' k')"
  by (simp_all add: store_op_apply)

text \<open>The contract: reads are served from the store, an admissible request is decided on the
  current store and applied as one batch.\<close>

locale engine_api =
  fixes E :: "'c eng" and inv :: "'c \<Rightarrow> bool" and store :: "'c \<Rightarrow> cf_store" and adm :: "op \<Rightarrow> bool"
  assumes reads: "inv c \<Longrightarrow> kv_reads (eng_kv E c) (store c)"
    and finite_store: "inv c \<Longrightarrow> finite (dom (store c cf))"
    and submit_inv: "inv c \<Longrightarrow> adm op \<Longrightarrow> eng_submit E c op = (c', r) \<Longrightarrow> inv c'"
    and submit_store: "inv c \<Longrightarrow> adm op \<Longrightarrow> eng_submit E c op = (c', r) \<Longrightarrow>
      (case request_batch (eng_kv E c) op of
         Inl e \<Rightarrow> store c' = store c \<and> r = Inl e
       | Inr None \<Rightarrow> store c' = store c \<and> r = Inr 0
       | Inr (Some b) \<Rightarrow> store c' = store_batch b (store c) \<and> (\<exists>n. r = Inr n))"
begin

lemma get_store: "inv c \<Longrightarrow> kv_get (eng_kv E c) cf k = Inr (present (store c) cf k)"
  by (rule kv_reads.get_store [OF reads])

lemma engine_write_store:
  assumes "inv c" "adm (OWrite b)" "\<not> batch_is_empty b" "engine_write E c b = (c', r)"
  shows "inv c' \<and> store c' = store_batch b (store c) \<and> (\<exists>n. r = Inr n)"
  using assms submit_inv [of c "OWrite b" c' r] submit_store [of c "OWrite b" c' r]
  by (simp add: engine_write_def request_batch_def)

lemma prewrite_one_ok:
  assumes "inv c" "prewrite_one E c key v primary st ttl = (c', Inr n)"
    and spec: "spec = \<lparr>pw_key = key, pw_value = value_encode v, pw_primary = primary,
       pw_start_ts = st, pw_ttl = ttl, pw_kind = value_kind v\<rparr>" and "adm (OPrewrite spec)"
  shows "inv c' \<and> check_prewrite (eng_kv E c) key st = Inr () \<and>
    store c' = store_batch (build_prewrite_batch spec) (store c)"
  using assms submit_inv [of c "OPrewrite spec" c' "Inr n"] submit_store [of c "OPrewrite spec" c' "Inr n"]
  by (auto simp: prewrite_one_def request_batch_def res_bind_def split: sum.splits)

lemma prewrite_one_err:
  assumes "inv c" "prewrite_one E c key v primary st ttl = (c', Inl e)"
    and spec: "spec = \<lparr>pw_key = key, pw_value = value_encode v, pw_primary = primary,
       pw_start_ts = st, pw_ttl = ttl, pw_kind = value_kind v\<rparr>" and "adm (OPrewrite spec)"
  shows "inv c' \<and> check_prewrite (eng_kv E c) key st = Inl e \<and> store c' = store c"
  using assms submit_inv [of c "OPrewrite spec" c' "Inl e"] submit_store [of c "OPrewrite spec" c' "Inl e"]
  by (auto simp: prewrite_one_def request_batch_def res_bind_def split: sum.splits)

text \<open>A resolution acts only on the transaction's own lock.\<close>

lemma resolve_own:
  assumes "inv c" "adm (OResolve spec)" "eng_submit E c (OResolve spec) = (c', r)"
    and "present (store c) CfLock (rs_key spec) = Some lb" "lock_decode lb = Some lk"
    and "lk_start_ts lk = rs_start_ts spec"
  shows "inv c' \<and> store c' = store_batch (build_resolve_batch spec) (store c) \<and> (\<exists>n. r = Inr n)"
  using assms submit_inv [of c "OResolve spec" c' r] submit_store [of c "OResolve spec" c' r]
  by (auto simp: request_batch_def kv_reads.current_lock_store [OF reads] decode_lock_def ok_or_def)

lemma resolve_foreign:
  assumes "inv c" "adm (OResolve spec)" "eng_submit E c (OResolve spec) = (c', r)"
    and "present (store c) CfLock (rs_key spec) = None \<or>
      (\<exists>lb lk. present (store c) CfLock (rs_key spec) = Some lb \<and> lock_decode lb = Some lk \<and>
         lk_start_ts lk \<noteq> rs_start_ts spec)"
  shows "inv c' \<and> store c' = store c \<and> r = Inr 0"
  using assms submit_inv [of c "OResolve spec" c' r] submit_store [of c "OResolve spec" c' r]
  by (auto simp: request_batch_def kv_reads.current_lock_store [OF reads] decode_lock_def ok_or_def)

text \<open>Asking for the fate of a transaction always gets an answer.\<close>

lemma find_commit_ends:
  assumes "inv c" "isolated (store c) k"
  shows "\<exists>r. find_commit_ts (eng_kv E c) k st = Some (Inr r) \<and> (case r of
      Some cts \<Rightarrow> start_of (store c) k cts = Some st
    | None \<Rightarrow> \<forall>cts. start_of (store c) k cts \<noteq> Some st)"
  using kv_reads.find_commit_ts_ends [OF reads [OF assms(1)] assms(2) finite_store [OF assms(1)]] .

lemma check_txn_status_ends:
  assumes "inv c" "isolated (store c) k"
  shows "\<exists>c' r. check_txn_status E c k st now = Some (c', r)"
  using find_commit_ends [OF assms, of st]
  by (auto simp: check_txn_status_def status_of_commit_def split: sum.split option.split prod.split)

end

end
