(* ===== verification/Percolator.thy ===== *)
theory Percolator
  imports Mvcc
begin

text \<open>
  \<open>engine/src/percolator.rs\<close> and \<open>engine/src/clock.rs\<close>: two-phase transactions on one
  engine. The lemmas hold for every engine that meets the contract \<open>engine_api\<close>: a
  transaction that prewrites and commits without interference becomes visible at its commit
  timestamp, all keys at once, and older snapshots keep reading what they read before.
\<close>

record mutation =
  mu_key :: bytes
  mu_value :: "value"

record transaction =
  tx_start_ts :: u64
  tx_primary :: bytes
  tx_mutations :: "mutation list"

definition transaction_new :: "u64 \<Rightarrow> mutation list \<Rightarrow> transaction res" where
  "transaction_new start_ts mutations = (case mutations of
     [] \<Rightarrow> Inl (InvalidArgument ''transaction needs at least one mutation'')
   | first # _ \<Rightarrow> Inr \<lparr>tx_start_ts = start_ts, tx_primary = mu_key first, tx_mutations = mutations\<rparr>)"

text \<open>The loop over the secondaries: the keys locked so far and the first error.\<close>

fun prewrite_rest :: "'c eng \<Rightarrow> 'c \<Rightarrow> transaction \<Rightarrow> u64 \<Rightarrow> mutation list \<Rightarrow> bytes list
    \<Rightarrow> 'c \<times> bytes list \<times> unit res" where
  "prewrite_rest E c tx ttl [] acquired = (c, acquired, Inr ())"
| "prewrite_rest E c tx ttl (m # ms) acquired =
     (case prewrite_one E c (mu_key m) (mu_value m) (tx_primary tx) (tx_start_ts tx) ttl of
        (c, Inr _) \<Rightarrow> prewrite_rest E c tx ttl ms (acquired @ [mu_key m])
      | (c, Inl e) \<Rightarrow> (c, acquired, Inl e))"

fun rollback_all :: "'c eng \<Rightarrow> 'c \<Rightarrow> u64 \<Rightarrow> bytes list \<Rightarrow> 'c" where
  "rollback_all E c start_ts [] = c"
| "rollback_all E c start_ts (k # ks) = rollback_all E (fst (resolve_rollback E c k start_ts)) start_ts ks"

definition tx_prewrite :: "'c eng \<Rightarrow> 'c \<Rightarrow> transaction \<Rightarrow> u64 \<Rightarrow> 'c \<times> unit res" where
  "tx_prewrite E c tx ttl =
     (case (case prewrite_one E c (tx_primary tx) (mu_value (tx_mutations tx ! 0)) (tx_primary tx)
                 (tx_start_ts tx) ttl of
              (c, Inr _) \<Rightarrow> prewrite_rest E c tx ttl (tl (tx_mutations tx)) [tx_primary tx]
            | (c, Inl e) \<Rightarrow> (c, [], Inl e)) of
        (c, acquired, Inr _) \<Rightarrow> (c, Inr ())
      | (c, acquired, Inl e) \<Rightarrow> (rollback_all E c (tx_start_ts tx) acquired, Inl e))"

definition commit_primary_batch :: "transaction \<Rightarrow> u64 \<Rightarrow> write_batch" where
  "commit_primary_batch tx commit_ts =
     batch_delete
       (batch_put batch_new CfWrite (encode_data_key (tx_primary tx) commit_ts)
         (encode_write_value (tx_start_ts tx)))
       CfLock (tx_primary tx)"

definition commit_primary :: "'c eng \<Rightarrow> 'c \<Rightarrow> transaction \<Rightarrow> u64 \<Rightarrow> 'c \<times> unit res" where
  "commit_primary E c tx commit_ts =
     (case engine_write E c (commit_primary_batch tx commit_ts) of (c, r) \<Rightarrow> (c, res_bind r (\<lambda>_. Inr ())))"

fun finalize_loop :: "'c eng \<Rightarrow> 'c \<Rightarrow> transaction \<Rightarrow> u64 \<Rightarrow> mutation list \<Rightarrow> 'c \<times> unit res" where
  "finalize_loop E c tx commit_ts [] = (c, Inr ())"
| "finalize_loop E c tx commit_ts (m # ms) =
     (if mu_key m = tx_primary tx then finalize_loop E c tx commit_ts ms
      else case resolve_commit E c (mu_key m) (tx_start_ts tx) commit_ts of
             (c, Inr _) \<Rightarrow> finalize_loop E c tx commit_ts ms
           | (c, Inl e) \<Rightarrow> (c, Inl e))"

definition finalize_secondaries :: "'c eng \<Rightarrow> 'c \<Rightarrow> transaction \<Rightarrow> u64 \<Rightarrow> 'c \<times> unit res" where
  "finalize_secondaries E c tx commit_ts = finalize_loop E c tx commit_ts (tx_mutations tx)"

definition tx_commit :: "'c eng \<Rightarrow> 'c \<Rightarrow> transaction \<Rightarrow> u64 \<Rightarrow> 'c \<times> unit res" where
  "tx_commit E c tx commit_ts = (case commit_primary E c tx commit_ts of
     (c, Inr _) \<Rightarrow> finalize_secondaries E c tx commit_ts
   | (c, Inl e) \<Rightarrow> (c, Inl e))"

section \<open>The timestamp source: \<open>clock.rs\<close>\<close>

record tso_clock =
  clk_next :: u64

definition clock_new :: tso_clock where
  "clock_new = \<lparr>clk_next = 1\<rparr>"

definition clock_now :: "tso_clock \<Rightarrow> tso_clock \<times> u64" where
  "clock_now t = (t\<lparr>clk_next := clk_next t + 1\<rparr>, clk_next t)"

section \<open>What a transaction does to the store\<close>

definition mu_spec :: "transaction \<Rightarrow> u64 \<Rightarrow> mutation \<Rightarrow> prewrite_spec" where
  "mu_spec tx ttl m = \<lparr>pw_key = mu_key m, pw_value = value_encode (mu_value m), pw_primary = tx_primary tx,
     pw_start_ts = tx_start_ts tx, pw_ttl = ttl, pw_kind = value_kind (mu_value m)\<rparr>"

definition mu_lock :: "transaction \<Rightarrow> u64 \<Rightarrow> mutation \<Rightarrow> lock" where
  "mu_lock tx ttl m = \<lparr>lk_primary = tx_primary tx, lk_start_ts = tx_start_ts tx, lk_ttl = ttl,
     lk_kind = value_kind (mu_value m)\<rparr>"

text \<open>A well-formed transaction: its primary is its first key, its keys are distinct and none is
  a prefix of another, the primary fits the lock's length field.\<close>

definition tx_wf :: "transaction \<Rightarrow> bool" where
  "tx_wf tx \<longleftrightarrow> tx_mutations tx \<noteq> [] \<and> tx_primary tx = mu_key (hd (tx_mutations tx)) \<and>
     distinct (map mu_key (tx_mutations tx)) \<and> fits_u32 (tx_primary tx) \<and>
     (\<forall>m \<in> set (tx_mutations tx). \<forall>m' \<in> set (tx_mutations tx).
        mu_key m = mu_key m' \<or> incomparable (mu_key m) (mu_key m'))"

abbreviation tx_keys :: "transaction \<Rightarrow> bytes set" where
  "tx_keys tx \<equiv> mu_key ` set (tx_mutations tx)"

lemma build_prewrite_store:
  "store_batch (build_prewrite_batch (mu_spec tx ttl m)) s cf k =
     (if cf = CfLock \<and> k = mu_key m then Some (MvPut (lock_encode (mu_lock tx ttl m)))
      else if cf = CfDefault \<and> k = encode_data_key (mu_key m) (tx_start_ts tx)
      then Some (MvPut (value_encode (mu_value m)))
      else s cf k)"
  by (auto simp: build_prewrite_batch_def mu_spec_def mu_lock_def Let_def)

definition prewritten :: "transaction \<Rightarrow> u64 \<Rightarrow> mutation list \<Rightarrow> cf_store \<Rightarrow> cf_store" where
  "prewritten tx ttl ms s = fold (\<lambda>m. store_batch (build_prewrite_batch (mu_spec tx ttl m))) ms s"

lemma prewritten_other:
  "(cf = CfWrite \<or> cf = CfLock \<and> k \<notin> mu_key ` set ms \<or>
    cf = CfDefault \<and> (\<forall>m \<in> set ms. k \<noteq> encode_data_key (mu_key m) (tx_start_ts tx))) \<Longrightarrow>
   prewritten tx ttl ms s cf k = s cf k"
  by (induction ms arbitrary: s) (auto simp: prewritten_def build_prewrite_store)

lemma prewritten_own:
  assumes "distinct (map mu_key ms)" "m \<in> set ms"
  shows "prewritten tx ttl ms s CfLock (mu_key m) = Some (MvPut (lock_encode (mu_lock tx ttl m)))"
    and "prewritten tx ttl ms s CfDefault (encode_data_key (mu_key m) (tx_start_ts tx))
      = Some (MvPut (value_encode (mu_value m)))"
proof -
  have "prewritten tx ttl ms s CfLock (mu_key m) = Some (MvPut (lock_encode (mu_lock tx ttl m))) \<and>
    prewritten tx ttl ms s CfDefault (encode_data_key (mu_key m) (tx_start_ts tx))
      = Some (MvPut (value_encode (mu_value m)))"
    using assms
  proof (induction ms arbitrary: s)
    case (Cons m' ms)
    show ?case
    proof (cases "m = m'")
      case True
      have "prewritten tx ttl ms s' CfLock (mu_key m) = s' CfLock (mu_key m)"
        "prewritten tx ttl ms s' CfDefault (encode_data_key (mu_key m) (tx_start_ts tx))
          = s' CfDefault (encode_data_key (mu_key m) (tx_start_ts tx))" for s'
        using Cons.prems(1) True by (intro prewritten_other; force)+
      then show ?thesis
        by (simp add: prewritten_def build_prewrite_store True)
    next
      case False
      then show ?thesis
        using Cons by (simp add: prewritten_def)
    qed
  qed simp
  then show "prewritten tx ttl ms s CfLock (mu_key m) = Some (MvPut (lock_encode (mu_lock tx ttl m)))"
    "prewritten tx ttl ms s CfDefault (encode_data_key (mu_key m) (tx_start_ts tx))
      = Some (MvPut (value_encode (mu_value m)))"
    by blast+
qed

definition commit_spec :: "transaction \<Rightarrow> u64 \<Rightarrow> bytes \<Rightarrow> resolve_spec" where
  "commit_spec tx cts k = \<lparr>rs_key = k, rs_start_ts = tx_start_ts tx, rs_action = RaCommit cts\<rparr>"

definition committed :: "transaction \<Rightarrow> u64 \<Rightarrow> bytes list \<Rightarrow> cf_store \<Rightarrow> cf_store" where
  "committed tx cts ks s = fold (\<lambda>k. store_batch (build_resolve_batch (commit_spec tx cts k))) ks s"

lemma committed_apply:
  "committed tx cts ks s cf k =
     (if cf = CfWrite \<and> (\<exists>k' \<in> set ks. k = encode_data_key k' cts)
      then Some (MvPut (encode_write_value (tx_start_ts tx)))
      else if cf = CfLock \<and> k \<in> set ks then Some MvDelete else s cf k)"
  by (induction ks arbitrary: s) (auto simp: committed_def build_resolve_batch_def commit_spec_def)

lemma committed_split:
  assumes "p \<in> set ks"
  shows "committed tx cts (filter (\<lambda>k. k \<noteq> p) ks) (committed tx cts [p] s) = committed tx cts ks s"
proof (intro ext)
  fix cf k
  show "committed tx cts (filter (\<lambda>k. k \<noteq> p) ks) (committed tx cts [p] s) cf k = committed tx cts ks s cf k"
    using assms by (cases cf) (auto simp: committed_apply)
qed

lemma commit_primary_batch_eq:
  "commit_primary_batch tx cts = build_resolve_batch (commit_spec tx cts (tx_primary tx))"
  by (simp add: commit_primary_batch_def build_resolve_batch_def commit_spec_def)

lemma commit_primary_batch_nonempty [simp]: "\<not> batch_is_empty (commit_primary_batch tx cts)"
  by (simp add: commit_primary_batch_def batch_is_empty_def batch_delete_def batch_put_def)

text \<open>The requests of a transaction are admissible.\<close>

definition tx_adm :: "(op \<Rightarrow> bool) \<Rightarrow> transaction \<Rightarrow> u64 \<Rightarrow> u64 \<Rightarrow> bool" where
  "tx_adm adm tx ttl cts \<longleftrightarrow> adm (OWrite (commit_primary_batch tx cts)) \<and>
     (\<forall>m \<in> set (tx_mutations tx). adm (OPrewrite (mu_spec tx ttl m)) \<and>
        adm (OResolve (commit_spec tx cts (mu_key m))))"

definition key_free :: "cf_store \<Rightarrow> u64 \<Rightarrow> bytes \<Rightarrow> bool" where
  "key_free s st k \<longleftrightarrow> isolated s k \<and> (\<forall>ts \<ge> st. s CfWrite (encode_data_key k ts) = None) \<and>
     present s CfLock k = None"

context engine_api
begin

lemma prewrite_one_mu:
  assumes "inv c" "adm (OPrewrite (mu_spec tx ttl m))"
    "prewrite_one E c (mu_key m) (mu_value m) (tx_primary tx) (tx_start_ts tx) ttl = (c', Inr n)"
  shows "inv c' \<and> store c' = store_batch (build_prewrite_batch (mu_spec tx ttl m)) (store c)"
  using prewrite_one_ok [OF assms(1,3) refl] assms(2) by (simp add: mu_spec_def)

lemma prewrite_rest_ok:
  assumes "inv c" "\<forall>m \<in> set ms. adm (OPrewrite (mu_spec tx ttl m))"
    "prewrite_rest E c tx ttl ms acq = (c', acq', Inr ())"
  shows "inv c' \<and> store c' = prewritten tx ttl ms (store c)"
  using assms
proof (induction ms arbitrary: c acq)
  case (Cons m ms)
  obtain c1 n where one: "prewrite_one E c (mu_key m) (mu_value m) (tx_primary tx) (tx_start_ts tx) ttl = (c1, Inr n)"
    "prewrite_rest E c1 tx ttl ms (acq @ [mu_key m]) = (c', acq', Inr ())"
    using Cons.prems(3) by (auto split: prod.splits sum.splits)
  with prewrite_one_mu [of c tx ttl m c1 n] Cons.prems Cons.IH [of c1] show ?case
    by (simp add: prewritten_def)
qed (simp add: prewritten_def)

lemma tx_prewrite_ok:
  assumes "inv c" "tx_wf tx" "tx_adm adm tx ttl cts" "tx_prewrite E c tx ttl = (c', Inr ())"
  shows "inv c' \<and> store c' = prewritten tx ttl (tx_mutations tx) (store c)"
proof -
  obtain m ms where ms: "tx_mutations tx = m # ms" "tx_primary tx = mu_key m"
    using assms(2) by (cases "tx_mutations tx") (auto simp: tx_wf_def)
  obtain c1 n acq where one: "prewrite_one E c (mu_key m) (mu_value m) (tx_primary tx) (tx_start_ts tx) ttl = (c1, Inr n)"
    "prewrite_rest E c1 tx ttl ms [tx_primary tx] = (c', acq, Inr ())"
    using assms(4) by (auto simp: tx_prewrite_def ms split: prod.splits sum.splits)
  with prewrite_one_mu [of c tx ttl m c1 n] prewrite_rest_ok [OF _ _ one(2)] assms(1,3) show ?thesis
    by (auto simp: tx_adm_def ms(1) prewritten_def)
qed

lemma finalize_loop_ok:
  assumes "inv c" "\<forall>m \<in> set ms. adm (OResolve (commit_spec tx cts (mu_key m)))"
    and "distinct (map mu_key ms)" "fits_u32 (tx_primary tx)"
    and "\<forall>m \<in> set ms. mu_key m \<noteq> tx_primary tx \<longrightarrow>
      store c CfLock (mu_key m) = Some (MvPut (lock_encode (mu_lock tx ttl m)))"
    and "finalize_loop E c tx cts ms = (c', r)"
  shows "inv c' \<and> r = Inr () \<and>
    store c' = committed tx cts (filter (\<lambda>k. k \<noteq> tx_primary tx) (map mu_key ms)) (store c)"
  using assms
proof (induction ms arbitrary: c)
  case (Cons m ms)
  show ?case
  proof (cases "mu_key m = tx_primary tx")
    case True
    then show ?thesis using Cons by simp
  next
    case False
    obtain c1 r1 where sub: "eng_submit E c (OResolve (commit_spec tx cts (mu_key m))) = (c1, r1)"
      by fastforce
    have "present (store c) CfLock (rs_key (commit_spec tx cts (mu_key m))) = Some (lock_encode (mu_lock tx ttl m))"
      using Cons.prems(5) False by (simp add: present_def commit_spec_def)
    moreover have "lock_decode (lock_encode (mu_lock tx ttl m)) = Some (mu_lock tx ttl m)"
      using Cons.prems(4) by (simp add: lock_roundtrip mu_lock_def)
    ultimately have one: "inv c1" "\<exists>n. r1 = Inr n"
      "store c1 = store_batch (build_resolve_batch (commit_spec tx cts (mu_key m))) (store c)"
      using resolve_own [OF Cons.prems(1) _ sub] Cons.prems(2)
      by (simp_all add: mu_lock_def commit_spec_def)
    have c1: "store c1 = committed tx cts [mu_key m] (store c)"
      using one(3) by (simp add: committed_def)
    have locks: "\<forall>m' \<in> set ms. mu_key m' \<noteq> tx_primary tx \<longrightarrow>
      store c1 CfLock (mu_key m') = Some (MvPut (lock_encode (mu_lock tx ttl m')))"
    proof (intro ballI impI)
      fix m' assume m': "m' \<in> set ms" "mu_key m' \<noteq> tx_primary tx"
      have "mu_key m \<notin> mu_key ` set ms" using Cons.prems(3) by simp
      then have "mu_key m' \<noteq> mu_key m" using m'(1) by (metis imageI)
      then show "store c1 CfLock (mu_key m') = Some (MvPut (lock_encode (mu_lock tx ttl m')))"
        using Cons.prems(5) m' by (simp add: c1 committed_apply)
    qed
    have "finalize_loop E c1 tx cts ms = (c', r)"
      using Cons.prems(6) False sub one(2) by (auto simp: resolve_commit_def commit_spec_def)
    from Cons.IH [OF one(1) _ _ Cons.prems(4) locks this]
    have "inv c' \<and> r = Inr () \<and>
      store c' = committed tx cts (filter (\<lambda>k. k \<noteq> tx_primary tx) (map mu_key ms)) (store c1)"
      using Cons.prems(2,3) by simp
    with False one(3) show ?thesis by (simp add: committed_def)
  qed
qed (simp add: committed_def)

lemma tx_commit_ok:
  assumes inv: "inv c" and wf: "tx_wf tx" and adm: "tx_adm adm tx ttl cts"
    and locks: "\<forall>m \<in> set (tx_mutations tx).
      store c CfLock (mu_key m) = Some (MvPut (lock_encode (mu_lock tx ttl m)))"
    and commit: "tx_commit E c tx cts = (c', r)"
  shows "inv c' \<and> r = Inr () \<and> store c' = committed tx cts (map mu_key (tx_mutations tx)) (store c)"
proof -
  let ?p = "tx_primary tx" and ?ms = "tx_mutations tx"
  obtain c1 r1 where w: "engine_write E c (commit_primary_batch tx cts) = (c1, r1)"
    by fastforce
  have one: "inv c1" "\<exists>n. r1 = Inr n" "store c1 = committed tx cts [?p] (store c)"
    using engine_write_store [OF inv _ commit_primary_batch_nonempty w] adm
    by (simp_all add: tx_adm_def committed_def commit_primary_batch_eq)
  have fin: "finalize_loop E c1 tx cts ?ms = (c', r)"
    using commit w one(2) by (auto simp: tx_commit_def commit_primary_def finalize_secondaries_def)
  have "\<forall>m \<in> set ?ms. mu_key m \<noteq> ?p \<longrightarrow>
      store c1 CfLock (mu_key m) = Some (MvPut (lock_encode (mu_lock tx ttl m)))"
    using locks one(3) by (simp add: committed_apply)
  note fin = finalize_loop_ok [OF one(1) _ _ _ this fin]
  have "inv c' \<and> r = Inr () \<and>
      store c' = committed tx cts (filter (\<lambda>k. k \<noteq> ?p) (map mu_key ?ms)) (store c1)"
    by (rule fin) (use adm wf in \<open>auto simp: tx_adm_def tx_wf_def\<close>)
  moreover have "?p \<in> set (map mu_key ?ms)"
    using wf by (simp add: tx_wf_def)
  ultimately show ?thesis
    unfolding one(3) by (simp only: committed_split)
qed

text \<open>The store after prewrite and commit.\<close>

lemma tx_store:
  assumes "inv c" "tx_wf tx" "tx_adm adm tx ttl cts"
    and "tx_prewrite E c tx ttl = (c1, Inr ())" "tx_commit E c1 tx cts = (c2, r)"
  shows "inv c2 \<and> r = Inr () \<and>
    store c2 = committed tx cts (map mu_key (tx_mutations tx)) (prewritten tx ttl (tx_mutations tx) (store c))"
proof -
  have c1: "inv c1" "store c1 = prewritten tx ttl (tx_mutations tx) (store c)"
    using tx_prewrite_ok [OF assms(1-4)] by simp_all
  have d: "distinct (map mu_key (tx_mutations tx))"
    using assms(2) by (simp add: tx_wf_def)
  show ?thesis
    using tx_commit_ok [OF c1(1) assms(2,3) _ assms(5)] c1(2) prewritten_own(1) [OF d] by simp
qed

end

text \<open>The commit records of a key of the transaction: the old ones and the new one.\<close>

lemma tx_store_commits:
  assumes "s' = committed tx cts (map mu_key (tx_mutations tx)) (prewritten tx ttl (tx_mutations tx) s)"
  shows "s' CfWrite w = (if \<exists>k \<in> tx_keys tx. w = encode_data_key k cts
      then Some (MvPut (encode_write_value (tx_start_ts tx))) else s CfWrite w)"
  by (simp add: assms committed_apply prewritten_other)

lemma tx_store_isolated:
  assumes "isolated s k" "tx_wf tx" "k \<in> tx_keys tx"
    and "s' = committed tx cts (map mu_key (tx_mutations tx)) (prewritten tx ttl (tx_mutations tx) s)"
  shows "isolated s' k"
  unfolding isolated_def
proof (intro allI impI)
  fix w assume w: "s' CfWrite w \<noteq> None"
  show "\<exists>k' ts. w = encode_data_key k' ts \<and> (k' = k \<or> incomparable k k')"
  proof (cases "\<exists>k' \<in> tx_keys tx. w = encode_data_key k' cts")
    case True
    then obtain m' where m': "m' \<in> set (tx_mutations tx)" "w = encode_data_key (mu_key m') cts" by blast
    obtain m where "m \<in> set (tx_mutations tx)" "k = mu_key m" using assms(3) by blast
    then have "mu_key m' = k \<or> incomparable k (mu_key m')"
      using assms(2) m'(1) unfolding tx_wf_def by metis
    with m'(2) show ?thesis by blast
  next
    case False
    then have "s CfWrite w \<noteq> None"
      using w tx_store_commits [OF assms(4), of w] by simp
    then show ?thesis using assms(1) by (simp add: isolated_def)
  qed
qed

context engine_api
begin

lemma tx_visible:
  assumes inv: "inv c" and wf: "tx_wf tx" and adm: "tx_adm adm tx ttl cts"
    and run: "tx_prewrite E c tx ttl = (c1, Inr ())" "tx_commit E c1 tx cts = (c2, r)"
    and m: "m \<in> set (tx_mutations tx)" "isolated (store c) (mu_key m)"
    and t: "cts \<le> t" "\<forall>ts \<in> commits (store c) (mu_key m). ts \<le> t \<longrightarrow> ts \<le> cts"
  shows "r = Inr () \<and> mvcc_get_unresolved (eng_kv E c2) (mu_key m) t = Inr (into_option (mu_value m))"
proof -
  let ?k = "mu_key m" and ?st = "tx_start_ts tx" and ?s = "store c2"
  note st = tx_store [OF inv wf adm run]
  then have s2: "?s = committed tx cts (map mu_key (tx_mutations tx)) (prewritten tx ttl (tx_mutations tx) (store c))"
    by simp
  have d: "distinct (map mu_key (tx_mutations tx))"
    using wf by (simp add: tx_wf_def)
  have rec: "?s CfWrite (encode_data_key ?k cts) = Some (MvPut (encode_write_value ?st))"
    using tx_store_commits [OF s2] m(1) by auto
  have "ts \<le> cts" if "ts \<in> commits ?s ?k" "ts \<le> t" for ts
    using that t(2) tx_store_commits [OF s2, of "encode_data_key ?k ts"]
    by (auto simp: commits_def split: if_splits)
  then have "newest_commit ?s ?k t cts"
    using rec t(1) by (auto simp: newest_commit_def commits_def)
  moreover have "start_of ?s ?k cts = Some ?st"
    by (simp add: start_of_def present_def rec)
  moreover have "present ?s CfDefault (encode_data_key ?k ?st) = Some (value_encode (mu_value m))"
    using prewritten_own(2) [OF d m(1)] by (simp add: present_def s2 committed_apply)
  moreover have "isolated ?s ?k"
    using tx_store_isolated [OF m(2) wf _ s2] m(1) by simp
  ultimately have "read_committed (eng_kv E c2) ?k t = Inr (into_option (mu_value m))"
    using st kv_reads.read_committed_newest [OF reads _ _ _ _ value_roundtrip] by blast
  moreover have "present ?s CfLock ?k = None"
    using m(1) by (simp add: present_def s2 committed_apply)
  ultimately show ?thesis
    using st by (simp add: mvcc_get_unresolved_def get_store decode_lock_def)
qed

lemma tx_old_snapshot:
  assumes inv: "inv c" and wf: "tx_wf tx" and adm: "tx_adm adm tx ttl cts"
    and run: "tx_prewrite E c tx ttl = (c1, Inr ())" "tx_commit E c1 tx cts = (c2, r)"
    and m: "m \<in> set (tx_mutations tx)" "isolated (store c) (mu_key m)"
    and t: "t < cts" "\<forall>ts. start_of (store c) (mu_key m) ts \<noteq> Some (tx_start_ts tx)"
  shows "read_committed (eng_kv E c2) (mu_key m) t = read_committed (eng_kv E c) (mu_key m) t"
proof (rule read_committed_cong)
  note st = tx_store [OF inv wf adm run]
  then have s2: "store c2 = committed tx cts (map mu_key (tx_mutations tx)) (prewritten tx ttl (tx_mutations tx) (store c))"
    by simp
  show "kv_reads (eng_kv E c) (store c)" "kv_reads (eng_kv E c2) (store c2)"
    using reads inv st by blast+
  show "isolated (store c) (mu_key m)" by (rule m(2))
  show "isolated (store c2) (mu_key m)"
    using tx_store_isolated [OF m(2) wf _ s2] m(1) by simp
  show "store c2 CfWrite (encode_data_key (mu_key m) ts) = store c CfWrite (encode_data_key (mu_key m) ts)"
    if "ts \<le> t" for ts
    using that t(1) tx_store_commits [OF s2] by auto
  show "present (store c2) CfDefault (encode_data_key (mu_key m) st) = present (store c) CfDefault (encode_data_key (mu_key m) st)"
    if "start_of (store c) (mu_key m) ts = Some st" for ts st
  proof -
    have "st \<noteq> tx_start_ts tx" using t(2) that by metis
    then show ?thesis by (simp add: present_def s2 committed_apply prewritten_other)
  qed
qed

text \<open>A key is free for a transaction: no commit at or after its snapshot, no lock.\<close>

lemma prewrite_one_succeeds:
  assumes "inv c" "adm (OPrewrite (mu_spec tx ttl m))" "key_free (store c) (tx_start_ts tx) (mu_key m)"
  shows "\<exists>c' n. prewrite_one E c (mu_key m) (mu_value m) (tx_primary tx) (tx_start_ts tx) ttl = (c', Inr n)"
proof -
  obtain c' r where p: "prewrite_one E c (mu_key m) (mu_value m) (tx_primary tx) (tx_start_ts tx) ttl = (c', r)"
    by fastforce
  have "check_prewrite (eng_kv E c) (mu_key m) (tx_start_ts tx) = Inr ()"
    using assms(3) kv_reads.check_prewrite_store [OF reads [OF assms(1)]] by (auto simp: key_free_def)
  moreover have "check_prewrite (eng_kv E c) (mu_key m) (tx_start_ts tx) = Inl e" if "r = Inl e" for e
    using prewrite_one_err [OF assms(1) p [unfolded that] refl] assms(2) by (simp add: mu_spec_def)
  ultimately show ?thesis using p by (cases r) auto
qed

lemma prewrite_rest_succeeds:
  assumes "inv c" "\<forall>m \<in> set ms. adm (OPrewrite (mu_spec tx ttl m))" "distinct (map mu_key ms)"
    "\<forall>m \<in> set ms. key_free (store c) (tx_start_ts tx) (mu_key m)"
  shows "\<exists>c' acq'. prewrite_rest E c tx ttl ms acq = (c', acq', Inr ())"
  using assms
proof (induction ms arbitrary: c acq)
  case (Cons m ms)
  obtain c1 n where one: "prewrite_one E c (mu_key m) (mu_value m) (tx_primary tx) (tx_start_ts tx) ttl = (c1, Inr n)"
    using prewrite_one_succeeds [of c tx ttl m] Cons.prems by auto
  have c1: "inv c1" "store c1 = store_batch (build_prewrite_batch (mu_spec tx ttl m)) (store c)"
    using prewrite_one_mu [OF _ _ one] Cons.prems by auto
  have "key_free (store c1) (tx_start_ts tx) (mu_key m')" if "m' \<in> set ms" for m'
  proof -
    have "mu_key m' \<noteq> mu_key m"
      using Cons.prems(3) that by (metis distinct.simps(2) imageI list.map(2) list.set_map)
    then show ?thesis
      using Cons.prems(4) that by (simp add: key_free_def isolated_def present_def c1(2) build_prewrite_store)
  qed
  then show ?case
    using Cons.IH [OF c1(1), of "acq @ [mu_key m]"] Cons.prems one by auto
qed simp

lemma tx_prewrite_succeeds:
  assumes "inv c" "tx_wf tx" "tx_adm adm tx ttl cts"
    "\<forall>m \<in> set (tx_mutations tx). key_free (store c) (tx_start_ts tx) (mu_key m)"
  shows "\<exists>c'. tx_prewrite E c tx ttl = (c', Inr ())"
proof -
  obtain m ms where ms: "tx_mutations tx = m # ms" "tx_primary tx = mu_key m"
    using assms(2) by (cases "tx_mutations tx") (auto simp: tx_wf_def)
  have "\<exists>c' acq'. prewrite_rest E c tx ttl (m # ms) [] = (c', acq', Inr ())"
    using assms by (intro prewrite_rest_succeeds) (simp_all add: tx_wf_def tx_adm_def ms(1))
  then show ?thesis
    by (auto simp: tx_prewrite_def ms split: prod.splits sum.splits)
qed

text \<open>A prewrite that fails part-way: some of the keys, all unlocked before, carry the
  transaction's lock.\<close>

lemma check_prewrite_unlocked:
  "inv c \<Longrightarrow> check_prewrite (eng_kv E c) k st = Inr () \<Longrightarrow> present (store c) CfLock k = None"
  by (auto simp: check_prewrite_def res_bind_eq_Inr get_store split: if_splits)

lemma prewrite_rest_err:
  assumes "inv c" "\<forall>m \<in> set ms. adm (OPrewrite (mu_spec tx ttl m))" "distinct (map mu_key ms)"
    "prewrite_rest E c tx ttl ms acq = (c', acq', Inl e)"
  shows "\<exists>n. inv c' \<and> acq' = acq @ map mu_key (take n ms) \<and>
    store c' = prewritten tx ttl (take n ms) (store c) \<and>
    (\<forall>m \<in> set (take n ms). present (store c) CfLock (mu_key m) = None)"
  using assms
proof (induction ms arbitrary: c acq)
  case (Cons m ms)
  obtain c1 r where one: "prewrite_one E c (mu_key m) (mu_value m) (tx_primary tx) (tx_start_ts tx) ttl = (c1, r)"
    by fastforce
  show ?case
  proof (cases r)
    case (Inl e')
    then show ?thesis
      using prewrite_one_err [OF Cons.prems(1) one [unfolded Inl] refl] Cons.prems(2,4) one
      by (intro exI [of _ 0]) (auto simp: mu_spec_def prewritten_def)
  next
    case (Inr n)
    have c1: "inv c1" "store c1 = store_batch (build_prewrite_batch (mu_spec tx ttl m)) (store c)"
      "present (store c) CfLock (mu_key m) = None"
      using prewrite_one_ok [OF Cons.prems(1) one [unfolded Inr] refl] Cons.prems(1,2) check_prewrite_unlocked
      by (auto simp: mu_spec_def)
    have "prewrite_rest E c1 tx ttl ms (acq @ [mu_key m]) = (c', acq', Inl e)"
      using Cons.prems(4) one Inr by simp
    from Cons.IH [OF c1(1) _ _ this] Cons.prems(2,3)
    obtain j where j: "inv c'" "acq' = (acq @ [mu_key m]) @ map mu_key (take j ms)"
      "store c' = prewritten tx ttl (take j ms) (store c1)"
      "\<forall>m \<in> set (take j ms). present (store c1) CfLock (mu_key m) = None"
      by auto
    have "present (store c) CfLock (mu_key m') = None" if "m' \<in> set (take j ms)" for m'
    proof -
      have "mu_key m' \<noteq> mu_key m"
        using Cons.prems(3) that by (metis distinct.simps(2) imageI in_set_takeD list.map(2) list.set_map)
      moreover have "present (store c1) CfLock (mu_key m') = None"
        using j(4) that by blast
      ultimately show ?thesis
        by (simp add: present_def c1(2) build_prewrite_store)
    qed
    then show ?thesis
      using j c1 by (intro exI [of _ "Suc j"]) (auto simp: prewritten_def)
  qed
qed simp

lemma rollback_all_store:
  assumes "inv c" "\<forall>m \<in> set ms. adm (OResolve \<lparr>rs_key = mu_key m, rs_start_ts = tx_start_ts tx, rs_action = RaRollback\<rparr>)"
    and "distinct (map mu_key ms)" "fits_u32 (tx_primary tx)"
    and "\<forall>m \<in> set ms. store c CfLock (mu_key m) = Some (MvPut (lock_encode (mu_lock tx ttl m)))"
    and "rollback_all E c (tx_start_ts tx) (map mu_key ms) = c'"
  shows "inv c' \<and> store c' CfWrite = store c CfWrite \<and>
    (\<forall>k. store c' CfLock k = (if k \<in> mu_key ` set ms then Some MvDelete else store c CfLock k))"
  using assms
proof (induction ms arbitrary: c)
  case (Cons m ms)
  let ?spec = "\<lparr>rs_key = mu_key m, rs_start_ts = tx_start_ts tx, rs_action = RaRollback\<rparr>"
  obtain c1 r1 where sub: "eng_submit E c (OResolve ?spec) = (c1, r1)"
    by fastforce
  have "present (store c) CfLock (rs_key ?spec) = Some (lock_encode (mu_lock tx ttl m))"
    using Cons.prems(5) by (simp add: present_def)
  moreover have "lock_decode (lock_encode (mu_lock tx ttl m)) = Some (mu_lock tx ttl m)"
    using Cons.prems(4) by (simp add: lock_roundtrip mu_lock_def)
  ultimately have one: "inv c1" "store c1 = store_batch (build_resolve_batch ?spec) (store c)"
    using resolve_own [OF Cons.prems(1) _ sub] Cons.prems(2) by (simp_all add: mu_lock_def)
  have ap: "store c1 cf k = (if cf = CfLock \<and> k = mu_key m \<or> cf = CfDefault \<and> k = encode_data_key (mu_key m) (tx_start_ts tx)
      then Some MvDelete else store c cf k)" for cf k
    by (auto simp: one(2) build_resolve_batch_def)
  have "\<forall>m' \<in> set ms. store c1 CfLock (mu_key m') = Some (MvPut (lock_encode (mu_lock tx ttl m')))"
  proof
    fix m' assume m': "m' \<in> set ms"
    then have "mu_key m' \<noteq> mu_key m"
      using Cons.prems(3) by (metis distinct.simps(2) imageI list.map(2) list.set_map)
    then show "store c1 CfLock (mu_key m') = Some (MvPut (lock_encode (mu_lock tx ttl m')))"
      using Cons.prems(5) m' by (simp add: ap)
  qed
  moreover have "rollback_all E c1 (tx_start_ts tx) (map mu_key ms) = c'"
    using Cons.prems(6) sub by (simp add: resolve_rollback_def)
  ultimately have "inv c' \<and> store c' CfWrite = store c1 CfWrite \<and>
      (\<forall>k. store c' CfLock k = (if k \<in> mu_key ` set ms then Some MvDelete else store c1 CfLock k))"
    using Cons.IH [OF one(1) _ _ Cons.prems(4)] Cons.prems(2,3) by simp
  then show ?case by (auto simp: ap)
qed simp

lemma tx_prewrite_failed:
  assumes inv: "inv c" and wf: "tx_wf tx" and adm: "tx_adm adm tx ttl cts"
    and rb: "\<forall>m \<in> set (tx_mutations tx). adm (OResolve \<lparr>rs_key = mu_key m, rs_start_ts = tx_start_ts tx, rs_action = RaRollback\<rparr>)"
    and run: "tx_prewrite E c tx ttl = (c', Inl e)"
  shows "inv c' \<and> store c' CfWrite = store c CfWrite \<and> present (store c') CfLock k = present (store c) CfLock k"
proof -
  obtain m ms where ms: "tx_mutations tx = m # ms" "tx_primary tx = mu_key m"
    using wf by (cases "tx_mutations tx") (auto simp: tx_wf_def)
  have d: "distinct (map mu_key (tx_mutations tx))" and fits: "fits_u32 (tx_primary tx)"
    using wf unfolding tx_wf_def by blast+
  obtain c1 acq where rest: "prewrite_rest E c tx ttl (tx_mutations tx) [] = (c1, acq, Inl e)"
    and c': "c' = rollback_all E c1 (tx_start_ts tx) acq"
    using run by (auto simp: tx_prewrite_def ms split: prod.splits sum.splits)
  obtain n where n: "inv c1" "acq = map mu_key (take n (tx_mutations tx))"
    "store c1 = prewritten tx ttl (take n (tx_mutations tx)) (store c)"
    "\<forall>m \<in> set (take n (tx_mutations tx)). present (store c) CfLock (mu_key m) = None"
    using prewrite_rest_err [OF inv _ d rest] adm by (auto simp: tx_adm_def)
  let ?ms = "take n (tx_mutations tx)"
  have dt: "distinct (map mu_key ?ms)"
    using d by (simp flip: take_map)
  have "inv c' \<and> store c' CfWrite = store c1 CfWrite \<and>
    (\<forall>k. store c' CfLock k = (if k \<in> mu_key ` set ?ms then Some MvDelete else store c1 CfLock k))"
    using rb prewritten_own(1) [OF dt, of _ tx ttl "store c"] fits c' n(1-3)
    by (intro rollback_all_store [where ttl = ttl and tx = tx] dt) (auto dest: in_set_takeD)
  moreover have "store c1 CfWrite = store c CfWrite"
    by (simp add: n(3) fun_eq_iff prewritten_other)
  moreover have "store c1 CfLock k = store c CfLock k" if "k \<notin> mu_key ` set ?ms"
    using that by (simp add: n(3) prewritten_other)
  ultimately show ?thesis
    using n(4) by (auto simp: present_def)
qed

text \<open>A reader that finds the lock expired rolls the transaction back; its owner commits all the
  same.\<close>

lemma commit_after_rollback:
  assumes inv: "inv c" and wf: "tx_wf tx" and one: "tx_mutations tx = [m]" and adm: "tx_adm adm tx ttl cts"
    and rb: "adm (OResolve \<lparr>rs_key = mu_key m, rs_start_ts = tx_start_ts tx, rs_action = RaRollback\<rparr>)"
    and run: "tx_prewrite E c tx ttl = (c1, Inr ())" "ttl < now"
      "check_txn_status E c1 (mu_key m) (tx_start_ts tx) now = Some (c2, status)"
      "tx_commit E c2 tx cts = (c3, r)"
    and iso: "isolated (store c) (mu_key m)"
    and newest: "\<forall>ts \<in> commits (store c) (mu_key m). ts \<le> cts"
  shows "status = Inr RolledBack \<and> r = Inr () \<and> mvcc_get_unresolved (eng_kv E c3) (mu_key m) cts = Inr None"
proof -
  let ?k = "mu_key m" and ?st = "tx_start_ts tx"
  let ?rb = "\<lparr>rs_key = ?k, rs_start_ts = ?st, rs_action = RaRollback\<rparr>"
  have p: "tx_primary tx = ?k" and fits: "fits_u32 (tx_primary tx)"
    using wf one by (auto simp: tx_wf_def)
  have c1: "inv c1" "store c1 = prewritten tx ttl [m] (store c)"
    using tx_prewrite_ok [OF inv wf adm run(1)] one by simp_all
  then have lock: "present (store c1) CfLock ?k = Some (lock_encode (mu_lock tx ttl m))"
    using prewritten_own(1) [of "[m]" m tx ttl "store c"] by (simp add: present_def)
  have dec: "lock_decode (lock_encode (mu_lock tx ttl m)) = Some (mu_lock tx ttl m)"
    using fits by (simp add: lock_roundtrip mu_lock_def)
  obtain c2' r2 where sub: "eng_submit E c1 (OResolve ?rb) = (c2', r2)" by fastforce
  have c2': "inv c2'" "store c2' = store_batch (build_resolve_batch ?rb) (store c1)" "\<exists>n. r2 = Inr n"
    using resolve_own [OF c1(1) rb sub _ dec] lock by (simp_all add: mu_lock_def)
  have "resolve_rollback E c1 ?k ?st = (c2', Inr ())"
    using sub c2'(3) by (auto simp: resolve_rollback_def)
  moreover have "lk_start_ts (mu_lock tx ttl m) = ?st" "lk_ttl (mu_lock tx ttl m) = ttl"
    by (simp_all add: mu_lock_def)
  ultimately have st: "c2 = c2'" "status = Inr RolledBack"
    using run(2,3) by (simp_all add: check_txn_status_def get_store [OF c1(1)] lock decode_lock_def ok_or_def dec)
  obtain c3' r3 where w: "engine_write E c2 (commit_primary_batch tx cts) = (c3', r3)" by fastforce
  have c3': "inv c3'" "\<exists>n. r3 = Inr n" "store c3' = committed tx cts [?k] (store c2)"
    using engine_write_store [OF _ _ commit_primary_batch_nonempty w] c2'(1) st adm
    by (simp_all add: tx_adm_def committed_def commit_primary_batch_eq p)
  have c3: "c3 = c3'" "r = Inr ()"
    using run(4) w c3'(2) by (auto simp: tx_commit_def commit_primary_def finalize_secondaries_def one p)
  have s3: "store c3 = committed tx cts [?k] (store_batch (build_resolve_batch ?rb) (prewritten tx ttl [m] (store c)))"
    by (simp add: c3 c3' st c2' c1)
  have rec: "store c3 CfWrite w = (if w = encode_data_key ?k cts then Some (MvPut (encode_write_value ?st))
      else store c CfWrite w)" for w
    by (simp add: s3 committed_apply build_resolve_batch_def prewritten_other)
  have "newest_commit (store c3) ?k cts cts"
    using newest by (auto simp: newest_commit_def commits_def rec)
  moreover have "isolated (store c3) ?k"
    using iso by (auto simp: isolated_def rec)
  moreover have "present (store c3) CfDefault (encode_data_key ?k ?st) = None"
    by (simp add: s3 present_def committed_apply build_resolve_batch_def)
  then have "commit_value (store c3) ?k cts = Inr None"
    by (simp add: commit_value_def rec ok_or_def)
  ultimately have "read_committed (eng_kv E c3) ?k cts = Inr None"
    using kv_reads.read_committed_value [OF reads] c3'(1) c3(1) by metis
  moreover have "present (store c3) CfLock ?k = None"
    by (simp add: s3 present_def committed_apply)
  ultimately show ?thesis
    using st(2) c3 c3'(1) by (simp add: mvcc_get_unresolved_def get_store decode_lock_def)
qed

end

end
