(* ===== verification/Scan.thy ===== *)
theory Scan
  imports Mvcc
begin

text \<open>
  \<open>engine/src/scan.rs\<close>: the merging iterator over one column family and the range scans on
  it. The iterator's state is its cursor. The lemmas show that over user keys none of which is a
  prefix of another a scan ends and returns the visible keys of the range, each once, in key
  order.
\<close>

text \<open>\<open>MergeIter::next\<close> on the cursor: the item and the next cursor.\<close>

definition merge_next :: "kv \<Rightarrow> cf \<Rightarrow> bytes \<Rightarrow> (bytes \<times> mem_value) option res \<times> bytes option" where
  "merge_next K cf cursor = (case kv_seek K cf cursor of
     Inr (Some (key, v)) \<Rightarrow> (Inr (Some (key, v)), Some (key @ [0]))
   | Inr None \<Rightarrow> (Inr None, None)
   | Inl e \<Rightarrow> (Inl e, None))"

text \<open>The loop of \<open>scan\<close>: the engine, the iterator's cursor, the rows so far and the keys
  seen.\<close>

partial_function (option) scan_loop :: "'c eng \<Rightarrow> bytes \<Rightarrow> u64 \<Rightarrow> nat \<Rightarrow> bool \<Rightarrow> 'c \<Rightarrow> bytes
    \<Rightarrow> (bytes \<times> bytes) list \<Rightarrow> bytes list \<Rightarrow> ('c \<times> (bytes \<times> bytes) list res) option" where
  "scan_loop E stop read_ts limit resolve c cursor out seen =
     (case merge_next (eng_kv E c) CfWrite cursor of
        (Inr (Some (wkey, _)), Some cursor) \<Rightarrow>
          (case decode_data_key wkey of
             None \<Rightarrow> scan_loop E stop read_ts limit resolve c cursor out seen
           | Some (user_key, _) \<Rightarrow>
               if stop \<noteq> [] \<and> stop \<le> user_key then Some (c, Inr out)
               else if user_key \<in> set seen then scan_loop E stop read_ts limit resolve c cursor out seen
               else Option.bind
                 (if resolve then mvcc_get E c user_key read_ts
                  else Some (c, mvcc_get_unresolved (eng_kv E c) user_key read_ts))
                 (\<lambda>(c, resolved). case resolved of
                    Inr (Some v) \<Rightarrow>
                      if limit \<noteq> 0 \<and> limit \<le> length (out @ [(user_key, v)])
                      then Some (c, Inr (out @ [(user_key, v)]))
                      else scan_loop E stop read_ts limit resolve c cursor (out @ [(user_key, v)]) (user_key # seen)
                  | Inr None \<Rightarrow> scan_loop E stop read_ts limit resolve c cursor out (user_key # seen)
                  | Inl (KeyIsLocked _) \<Rightarrow> scan_loop E stop read_ts limit resolve c cursor out (user_key # seen)
                  | Inl e \<Rightarrow> Some (c, Inl e)))
      | (Inl e, _) \<Rightarrow> Some (c, Inl e)
      | (_, _) \<Rightarrow> Some (c, Inr out))"

declare scan_loop.simps [code]

definition scan :: "'c eng \<Rightarrow> 'c \<Rightarrow> bytes \<Rightarrow> bytes \<Rightarrow> u64 \<Rightarrow> nat \<Rightarrow> bool
    \<Rightarrow> ('c \<times> (bytes \<times> bytes) list res) option" where
  "scan E c start stop read_ts limit resolve = scan_loop E stop read_ts limit resolve c start [] []"

type_synonym versioned_kv = "bytes \<times> u64 \<times> bytes \<times> bool"

text \<open>The version a Write-CF entry stands for; \<open>None\<close> is one of the \<open>continue\<close>s.\<close>

definition entry_version :: "kv \<Rightarrow> bytes \<Rightarrow> u64 \<Rightarrow> mem_value \<Rightarrow> versioned_kv option res" where
  "entry_version K user_key commit_ts wval = (case wval of
     MvDelete \<Rightarrow> Inr None
   | MvPut sb \<Rightarrow>
       (case decode_write_value sb of
          None \<Rightarrow> Inr None
        | Some start_ts \<Rightarrow>
            res_bind (kv_get K CfDefault (encode_data_key user_key start_ts)) (\<lambda>vb. Inr (case vb of
              None \<Rightarrow> None
            | Some vb \<Rightarrow>
                (case value_decode vb of
                   Some (VPut v) \<Rightarrow> Some (user_key, commit_ts, v, False)
                 | Some VDelete \<Rightarrow> Some (user_key, commit_ts, [], True)
                 | None \<Rightarrow> None)))))"

partial_function (option) scan_versions_loop :: "kv \<Rightarrow> bytes \<Rightarrow> nat \<Rightarrow> bytes \<Rightarrow> versioned_kv list \<Rightarrow> bytes list
    \<Rightarrow> versioned_kv list res option" where
  "scan_versions_loop K stop limit cursor out seen =
     (case merge_next K CfWrite cursor of
        (Inr (Some (wkey, wval)), Some cursor) \<Rightarrow>
          (case decode_data_key wkey of
             None \<Rightarrow> scan_versions_loop K stop limit cursor out seen
           | Some (user_key, commit_ts) \<Rightarrow>
               if stop \<noteq> [] \<and> stop \<le> user_key then Some (Inr out)
               else if user_key \<in> set seen then scan_versions_loop K stop limit cursor out seen
               else (case entry_version K user_key commit_ts wval of
                       Inl e \<Rightarrow> Some (Inl e)
                     | Inr None \<Rightarrow> scan_versions_loop K stop limit cursor out (user_key # seen)
                     | Inr (Some row) \<Rightarrow>
                         if limit \<noteq> 0 \<and> limit \<le> length (out @ [row]) then Some (Inr (out @ [row]))
                         else scan_versions_loop K stop limit cursor (out @ [row]) (user_key # seen)))
      | (Inl e, _) \<Rightarrow> Some (Inl e)
      | (_, _) \<Rightarrow> Some (Inr out))"

declare scan_versions_loop.simps [code]

definition scan_versions :: "kv \<Rightarrow> bytes \<Rightarrow> bytes \<Rightarrow> nat \<Rightarrow> versioned_kv list res option" where
  "scan_versions K start stop limit = scan_versions_loop K stop limit start [] []"

section \<open>Scans over prefix-free keys\<close>

definition prefix_free :: "cf_store \<Rightarrow> bool" where
  "prefix_free s \<longleftrightarrow> (\<forall>w. s CfWrite w \<noteq> None \<longrightarrow> (\<exists>k ts. w = encode_data_key k ts \<and> isolated s k))"

text \<open>The user keys with a commit record at or after the cursor.\<close>

definition keys_from :: "cf_store \<Rightarrow> bytes \<Rightarrow> bytes set" where
  "keys_from s cur = {k. \<exists>ts. s CfWrite (encode_data_key k ts) \<noteq> None \<and> cur \<le> encode_data_key k ts}"

lemma prefix_free_isolated: "prefix_free s \<Longrightarrow> s CfWrite (encode_data_key k ts) \<noteq> None \<Longrightarrow> isolated s k"
  unfolding prefix_free_def by (metis encode_data_key_inj)

lemma prefix_free_incomparable:
  assumes "prefix_free s" "s CfWrite (encode_data_key k ts) \<noteq> None" "s CfWrite (encode_data_key k' ts') \<noteq> None"
  shows "k' = k \<or> incomparable k k'"
  using prefix_free_isolated [OF assms(1,2)] assms(3) unfolding isolated_def by (metis encode_data_key_inj)

text \<open>The first hit belongs to the least remaining key.\<close>

lemma seek_least_key:
  assumes "prefix_free s" "seek_spec (s CfWrite) cur (Some (encode_data_key k ts, v))" "k' \<in> keys_from s cur"
  shows "k \<le> k'"
proof -
  obtain ts' where k': "s CfWrite (encode_data_key k' ts') \<noteq> None" "cur \<le> encode_data_key k' ts'"
    using assms(3) by (auto simp: keys_from_def)
  have "encode_data_key k ts \<le> encode_data_key k' ts'" "s CfWrite (encode_data_key k ts) \<noteq> None"
    using assms(2) k' by (auto simp: seek_spec_def not_less [symmetric])
  with prefix_free_incomparable [OF assms(1) _ k'(1)] incomparable_append_less [of k' k "encode_ts ts'" "encode_ts ts"]
  show ?thesis
    by (metis encode_data_key_def incomparable_sym leD linorder_le_less_linear order_refl)
qed

lemma keys_from_next:
  assumes "seek_spec (s CfWrite) cur (Some (encode_data_key k ts, v))"
  shows "insert k (keys_from s (encode_data_key k ts @ [0])) = keys_from s cur"
proof -
  have hit: "cur \<le> encode_data_key k ts" "s CfWrite (encode_data_key k ts) = Some v"
    "\<And>w. cur \<le> w \<Longrightarrow> w < encode_data_key k ts \<Longrightarrow> s CfWrite w = None"
    using assms by (auto simp: seek_spec_def)
  have "encode_data_key k' ts' \<noteq> encode_data_key k ts \<Longrightarrow> s CfWrite (encode_data_key k' ts') \<noteq> None \<Longrightarrow>
      cur \<le> encode_data_key k' ts' \<Longrightarrow> encode_data_key k ts < encode_data_key k' ts'" for k' ts'
    using hit(3) by (metis linorder_neqE)
  then show ?thesis
    using hit(1,2) unfolding keys_from_def succ_key_le_iff
    by (auto simp del: encode_data_key_less_iff encode_data_key_le_iff intro: order_trans less_imp_le)
qed

text \<open>The rows a scan is to return from the cursor on.\<close>

definition rows_from :: "kv \<Rightarrow> cf_store \<Rightarrow> bytes \<Rightarrow> u64 \<Rightarrow> bytes \<Rightarrow> bytes set \<Rightarrow> (bytes \<times> bytes) set" where
  "rows_from K s stop t cur seen = {(k, v). k \<in> keys_from s cur - seen \<and> (stop = [] \<or> k < stop) \<and>
     mvcc_get_unresolved K k t = Inr (Some v)}"

definition no_fail :: "'a res \<Rightarrow> bool" where
  "no_fail r \<longleftrightarrow> (case r of Inl (KeyIsLocked _) \<Rightarrow> True | Inl _ \<Rightarrow> False | Inr _ \<Rightarrow> True)"

definition limited :: "nat \<Rightarrow> 'a list \<Rightarrow> 'a list \<Rightarrow> 'a list" where
  "limited limit out ext = out @ (if limit = 0 then ext else take (limit - length out) ext)"

lemma limited_full: "limit \<noteq> 0 \<Longrightarrow> limit \<le> length (out @ [x]) \<Longrightarrow> length out < limit \<Longrightarrow>
    limited limit out (x # ext) = out @ [x]"
proof -
  assume "limit \<noteq> 0" "limit \<le> length (out @ [x])" "length out < limit"
  then have "limit - length out = 1" by simp
  with \<open>limit \<noteq> 0\<close> show ?thesis by (simp add: limited_def)
qed

lemma limited_step: "limit = 0 \<or> length (out @ [x]) < limit \<Longrightarrow>
    limited limit (out @ [x]) ext = limited limit out (x # ext)"
  by (auto simp: limited_def take_Cons' Suc_diff_Suc)

definition scan_from :: "'c eng \<Rightarrow> 'c \<Rightarrow> cf_store \<Rightarrow> bytes \<Rightarrow> u64 \<Rightarrow> nat \<Rightarrow> bytes \<Rightarrow> (bytes \<times> bytes) list \<Rightarrow> bytes list \<Rightarrow> bool" where
  "scan_from E c s stop t limit cur out seen \<longleftrightarrow>
     (\<exists>ext. scan_loop E stop t limit False c cur out seen = Some (c, Inr (limited limit out ext)) \<and>
        sorted_wrt (<) (map fst ext) \<and> set ext = rows_from (eng_kv E c) s stop t cur (set seen))"

lemma rows_from_next:
  assumes "seek_spec (s CfWrite) cur (Some (encode_data_key k ts, v))" "stop = [] \<or> k < stop"
  shows "k \<in> seen \<Longrightarrow> rows_from K s stop t cur seen = rows_from K s stop t (encode_data_key k ts @ [0]) seen"
    and "k \<notin> seen \<Longrightarrow> rows_from K s stop t cur seen =
      (case mvcc_get_unresolved K k t of Inr (Some v) \<Rightarrow> {(k, v)} | _ \<Rightarrow> {}) \<union>
      rows_from K s stop t (encode_data_key k ts @ [0]) (insert k seen)"
  using assms(2) unfolding rows_from_def keys_from_next [of s cur k ts v, OF assms(1), symmetric]
  by (auto split: sum.splits option.splits)

text \<open>One row in front of the rows of the rest.\<close>

lemma rows_from_Cons:
  assumes pf: "prefix_free s" and hit: "seek_spec (s CfWrite) cur (Some (encode_data_key k ts, v))"
    and k: "stop = [] \<or> k < stop" "k \<notin> set seen" "mvcc_get_unresolved K k t = Inr (Some val)"
    and ext: "sorted_wrt (<) (map fst ext)"
      "set ext = rows_from K s stop t (encode_data_key k ts @ [0]) (set (k # seen))"
  shows "sorted_wrt (<) (map fst ((k, val) # ext)) \<and> set ((k, val) # ext) = rows_from K s stop t cur (set seen)"
proof -
  have keys: "insert k (keys_from s (encode_data_key k ts @ [0])) = keys_from s cur"
    by (rule keys_from_next [of s cur k ts v, OF hit])
  have "k < fst row" if "row \<in> set ext" for row
  proof -
    have "fst row \<in> keys_from s cur" "fst row \<noteq> k"
      using that ext(2) keys by (auto simp: rows_from_def)
    then show ?thesis
      using seek_least_key [OF pf hit] by (simp add: order_less_le)
  qed
  then show ?thesis
    using ext rows_from_next(2) [of s cur k ts v, OF hit k(1,2)] k(3) by auto
qed

lemma scan_loop_rows:
  assumes K: "kv_reads (eng_kv E c) s" and fin: "finite (dom (s CfWrite))" and pf: "prefix_free s"
    and ok: "\<forall>k \<in> keys_from s cur. no_fail (mvcc_get_unresolved (eng_kv E c) k t)"
    and lim: "limit = 0 \<or> length out < limit"
  shows "scan_from E c s stop t limit cur out seen"
  using ok lim
proof (induction "card {w \<in> dom (s CfWrite). cur \<le> w}" arbitrary: cur out seen rule: less_induct)
  case (less cur out seen)
  let ?K = "eng_kv E c" and ?loop = "scan_loop E stop t limit False c"
  obtain r where r: "kv_seek ?K CfWrite cur = Inr r" "seek_spec (s CfWrite) cur r"
    using kv_reads.seek_store [OF K] by blast
  note step = scan_loop.simps [of E stop t limit False c cur out seen]
  show ?case
  proof (cases r)
    case None
    then have "keys_from s cur = {}"
      using r(2) by (auto simp: seek_spec_def keys_from_def)
    then show ?thesis
      unfolding scan_from_def by (subst step) (simp add: merge_next_def r(1) None rows_from_def limited_def)
  next
    case (Some e)
    obtain w v where e: "e = (w, v)" by (cases e)
    obtain k ts where w: "w = encode_data_key k ts"
      using pf r(2) by (auto simp: prefix_free_def seek_spec_def Some e)
    note hit = r(2) [unfolded Some e w]
    let ?cur = "encode_data_key k ts @ [0]"
    have keys: "insert k (keys_from s ?cur) = keys_from s cur"
      by (rule keys_from_next [of s cur k ts v, OF hit])
    have mn: "merge_next ?K CfWrite cur = (Inr (Some (encode_data_key k ts, v)), Some ?cur)"
      by (simp add: merge_next_def r(1) Some e w)
    have "{w \<in> dom (s CfWrite). ?cur \<le> w} \<subset> {w \<in> dom (s CfWrite). cur \<le> w}"
      using hit unfolding succ_key_le_iff by (auto simp: seek_spec_def intro: order_trans)
    then have smaller: "card {w \<in> dom (s CfWrite). ?cur \<le> w} < card {w \<in> dom (s CfWrite). cur \<le> w}"
      using fin by (intro psubset_card_mono) auto
    have IH: "limit = 0 \<or> length out' < limit \<Longrightarrow> scan_from E c s stop t limit ?cur out' seen'" for out' seen'
      using less.hyps [OF smaller] less.prems(1) keys by blast
    show ?thesis
    proof (cases "stop \<noteq> [] \<and> stop \<le> k")
      case True
      then have "?loop cur out seen = Some (c, Inr (limited limit out []))"
        by (subst step) (simp add: mn limited_def)
      moreover have "rows_from ?K s stop t cur (set seen) = {}"
        using True seek_least_key [OF pf hit] by (fastforce simp: rows_from_def)
      ultimately show ?thesis unfolding scan_from_def by (intro exI [of _ "[]"]) simp
    next
      case False
      then have stop: "stop = [] \<or> k < stop" by auto
      note rows = rows_from_next [of s cur k ts v, OF hit stop]
      show ?thesis
      proof (cases "k \<in> set seen")
        case True
        then have "?loop cur out seen = ?loop ?cur out seen"
          using False by (subst step) (auto simp: mn)
        then show ?thesis
          using IH [OF less.prems(2), of seen] rows(1) [OF True] by (simp add: scan_from_def)
      next
        case unseen: False
        have nf: "no_fail (mvcc_get_unresolved ?K k t)"
          using less.prems(1) keys by blast
        show ?thesis
        proof (cases "\<exists>val. mvcc_get_unresolved ?K k t = Inr (Some val)")
          case True
          then obtain val where val: "mvcc_get_unresolved ?K k t = Inr (Some val)" by blast
          let ?row = "(k, val)"
          note cons = rows_from_Cons [OF pf hit stop unseen val]
          show ?thesis
          proof (cases "limit \<noteq> 0 \<and> limit \<le> length (out @ [?row])")
            case True
            then have "?loop cur out seen = Some (c, Inr (out @ [?row]))"
              using False unseen val by (subst step) (auto simp: mn)
            moreover obtain ext where "sorted_wrt (<) (map fst ext)"
              "set ext = rows_from ?K s stop t ?cur (set (k # seen))"
              using IH [of "[]" "k # seen"] True by (auto simp: scan_from_def)
            ultimately show ?thesis
              using cons [of ext] limited_full [of limit out ?row ext] True less.prems(2)
              unfolding scan_from_def by metis
          next
            case limit: False
            then have "?loop cur out seen = ?loop ?cur (out @ [?row]) (k # seen)"
              using False unseen val by (subst step) (auto simp: mn)
            moreover have room: "limit = 0 \<or> length (out @ [?row]) < limit"
              using limit by auto
            then obtain ext where
              "?loop ?cur (out @ [?row]) (k # seen) = Some (c, Inr (limited limit (out @ [?row]) ext))"
              "sorted_wrt (<) (map fst ext)" "set ext = rows_from ?K s stop t ?cur (set (k # seen))"
              using IH [of "out @ [?row]" "k # seen"] unfolding scan_from_def by blast
            ultimately show ?thesis
              using cons [of ext] limited_step [OF room, of ext] unfolding scan_from_def by metis
          qed
        next
          case novalue: False
          then have "?loop cur out seen = ?loop ?cur out (k # seen)"
            using False unseen nf
            by (subst step) (auto simp: mn no_fail_def split: sum.splits option.splits error.splits)
          then show ?thesis
            using IH [OF less.prems(2), of "k # seen"] rows(2) [OF unseen] novalue
            by (auto simp: scan_from_def split: sum.splits option.splits)
        qed
      qed
    qed
  qed
qed

lemma le_append_not_prefix:
  "\<not> prefix k a \<or> k = a \<Longrightarrow> a \<le> k @ x \<longleftrightarrow> a \<le> (k :: bytes)"
proof (induction k arbitrary: a)
  case (Cons b k)
  then show ?case by (cases a) auto
qed auto

text \<open>A scan of \<open>[start, stop)\<close> over prefix-free keys.\<close>

lemma scan_rows:
  assumes "kv_reads (eng_kv E c) s" "finite (dom (s CfWrite))" "prefix_free s"
    and "\<forall>k. commits s k \<noteq> {} \<longrightarrow> \<not> prefix k start \<or> k = start"
    and "\<forall>k. commits s k \<noteq> {} \<longrightarrow> no_fail (mvcc_get_unresolved (eng_kv E c) k t)"
  shows "\<exists>rows. scan E c start stop t limit False = Some (c, Inr (if limit = 0 then rows else take limit rows)) \<and>
    sorted_wrt (<) (map fst rows) \<and>
    set rows = {(k, v). start \<le> k \<and> (stop = [] \<or> k < stop) \<and> commits s k \<noteq> {} \<and>
      mvcc_get_unresolved (eng_kv E c) k t = Inr (Some v)}"
proof -
  have keys: "keys_from s start = {k. start \<le> k \<and> commits s k \<noteq> {}}"
    using assms(4) le_append_not_prefix unfolding keys_from_def commits_def encode_data_key_def by blast
  then have "scan_from E c s stop t limit start [] []"
    using assms(5) by (intro scan_loop_rows [OF assms(1-3)]) auto
  then obtain rows where "scan E c start stop t limit False = Some (c, Inr (limited limit [] rows))"
    "sorted_wrt (<) (map fst rows)" "set rows = rows_from (eng_kv E c) s stop t start {}"
    by (auto simp: scan_from_def scan_def)
  then show ?thesis
    by (intro exI [of _ rows]) (auto simp: limited_def rows_from_def keys)
qed

end
