(* ===== verification/Sstable.thy ===== *)
theory Sstable
  imports Memtable Engine_Error
begin

text \<open>
  \<open>engine/src/sstable/\<close> and \<open>write_sst\<close> of \<open>engine/src/db.rs\<close>: the immutable
  on-disk table a frozen memtable is flushed to. Writer and reader work on the bytes of the
  file. The main lemmas are functional correctness of the format: a table written from a
  memtable opens, and \<open>get\<close> and \<open>seek\<close> on it return what the memtable returns.
\<close>

section \<open>Data blocks: \<open>sstable/block.rs\<close>\<close>

definition encode_entry :: "bytes \<Rightarrow> bytes \<Rightarrow> bytes \<Rightarrow> bytes" where
  "encode_entry buf key v = put_length_prefixed (put_length_prefixed buf key) v"

definition next_entry :: "bytes \<Rightarrow> nat \<Rightarrow> ((bytes \<times> bytes) \<times> nat) option" where
  "next_entry block pos = do {
     (k, pos) \<leftarrow> get_length_prefixed block pos;
     (v, pos) \<leftarrow> get_length_prefixed block pos;
     Some ((k, v), pos)
   }"

lemma next_entry_advances:
  "next_entry block pos = Some (e, pos') \<Longrightarrow> pos < pos' \<and> pos' \<le> length block"
  by (auto simp: next_entry_def bind_eq_Some_conv dest!: get_length_prefixed_advances)

function entries_from :: "bytes \<Rightarrow> nat \<Rightarrow> (bytes \<times> bytes) list" where
  "entries_from block pos = (case next_entry block pos of
     None \<Rightarrow> []
   | Some (e, pos') \<Rightarrow> e # entries_from block pos')"
  by pat_completeness auto
termination
  by (relation "measure (\<lambda>(block, pos). length block - pos)") (auto dest!: next_entry_advances)

declare entries_from.simps [simp del]

definition entries :: "bytes \<Rightarrow> (bytes \<times> bytes) list" where
  "entries block = entries_from block 0"

section \<open>Writer: \<open>sstable/writer.rs\<close>\<close>

definition FOOTER_MAGIC :: u64 where "FOOTER_MAGIC = 0x535354425f563031"
definition FOOTER_LEN :: nat where "FOOTER_LEN = 8 + 4 + 8"
definition DEFAULT_BLOCK_SIZE :: nat where "DEFAULT_BLOCK_SIZE = 4 * 1024"

record sst_writer =
  sw_file :: bytes
  sw_offset :: u64
  sw_block :: bytes
  sw_cur_first_key :: "bytes option"
  sw_index :: "(bytes \<times> u64 \<times> u32) list"
  sw_target_block_size :: nat

definition sst_create :: sst_writer where
  "sst_create = \<lparr>sw_file = [], sw_offset = 0, sw_block = [], sw_cur_first_key = None,
     sw_index = [], sw_target_block_size = DEFAULT_BLOCK_SIZE\<rparr>"

text \<open>\<open>None\<close> is the panic of \<open>expect\<close> on a missing first key.\<close>

definition flush_block :: "(bytes \<Rightarrow> u32) \<Rightarrow> sst_writer \<Rightarrow> sst_writer option" where
  "flush_block crc w =
     (if sw_block w = [] then Some w
      else
        let block = sw_block w @ u32_to_be (crc (sw_block w));
            len = (word_of_nat (length block) :: u32)
        in do {
          first \<leftarrow> sw_cur_first_key w;
          Some (w\<lparr>sw_file := sw_file w @ block,
                  sw_cur_first_key := None,
                  sw_index := sw_index w @ [(first, sw_offset w, len)],
                  sw_offset := sw_offset w + ucast len,
                  sw_block := []\<rparr>)
        })"

definition sst_add :: "(bytes \<Rightarrow> u32) \<Rightarrow> sst_writer \<Rightarrow> bytes \<Rightarrow> bytes \<Rightarrow> sst_writer option" where
  "sst_add crc w key v =
     (let w = (if sw_block w = [] then w\<lparr>sw_cur_first_key := Some key\<rparr> else w);
          w = w\<lparr>sw_block := encode_entry (sw_block w) key v\<rparr>
      in if length (sw_block w) \<ge> sw_target_block_size w then flush_block crc w else Some w)"

definition index_image :: "(bytes \<times> u64 \<times> u32) list \<Rightarrow> bytes" where
  "index_image idx =
     concat (map (\<lambda>(first, off, len). put_length_prefixed [] first @ u64_to_be off @ u32_to_be len) idx)"

definition sst_finish :: "(bytes \<Rightarrow> u32) \<Rightarrow> sst_writer \<Rightarrow> bytes option" where
  "sst_finish crc w = do {
     w \<leftarrow> flush_block crc w;
     let body = index_image (sw_index w);
         idx = body @ u32_to_be (crc body);
         footer = u64_to_be (sw_offset w) @ u32_to_be (word_of_nat (length idx)) @ u64_to_be FOOTER_MAGIC
     in Some (sw_file w @ idx @ footer)
   }"

fun sst_add_all :: "(bytes \<Rightarrow> u32) \<Rightarrow> sst_writer \<Rightarrow> (bytes \<times> bytes) list \<Rightarrow> sst_writer option" where
  "sst_add_all crc w [] = Some w"
| "sst_add_all crc w ((k, v) # es) = do {
     w \<leftarrow> sst_add crc w k v;
     sst_add_all crc w es
   }"

text \<open>The storage entries of a memtable in the order \<open>write_sst\<close> feeds them.\<close>

definition sst_entries :: "'m mem_deps \<Rightarrow> 'm memtable \<Rightarrow> (bytes \<times> bytes) list" where
  "sst_entries D m =
     concat (map (\<lambda>cf. map (\<lambda>(k, v). (cf_u8 cf # k, mv_encode v)) (mt_iter_cf D m cf)) cf_ALL)"

definition write_sst :: "'m mem_deps \<Rightarrow> 'm memtable \<Rightarrow> bytes option" where
  "write_sst D m = do {
     w \<leftarrow> sst_add_all (crc32c D) sst_create (sst_entries D m);
     sst_finish (crc32c D) w
   }"

section \<open>Reader: \<open>sstable/reader.rs\<close>\<close>

record index_entry =
  ie_first_key :: bytes
  ie_offset :: u64
  ie_len :: u32

record sst_reader =
  sr_file :: bytes
  sr_index :: "index_entry list"
  sr_file_no :: u64

text \<open>\<open>read_exact_at\<close>: an end past the file is an I/O error (unexpected end of file).\<close>

definition read_exact_at :: "bytes \<Rightarrow> nat \<Rightarrow> nat \<Rightarrow> bytes res" where
  "read_exact_at file off len =
     (if off + len \<le> length file then Inr (slice file off (off + len)) else Inl Io)"

text \<open>\<open>split_at(len - 4)\<close> and the checksum comparison, shared by index and blocks.\<close>

definition split_crc :: "(bytes \<Rightarrow> u32) \<Rightarrow> bytes \<Rightarrow> error \<Rightarrow> error \<Rightarrow> bytes res" where
  "split_crc crc buf too_small mismatch =
     (if length buf < 4 then Inl too_small
      else
        let body = take (length buf - 4) buf;
            crc_b = drop (length buf - 4) buf
        in if crc body \<noteq> u32_of_be crc_b then Inl mismatch else Inr body)"

function parse_index :: "bytes \<Rightarrow> nat \<Rightarrow> index_entry list res" where
  "parse_index body pos =
     (if pos < length body then
        (case get_length_prefixed body pos of
           None \<Rightarrow> Inl (Corruption ''sstable index entry'')
         | Some (first_key, pos) \<Rightarrow>
             if pos + 12 > length body then Inl (Corruption ''sstable index truncated'')
             else
               let offset = u64_of_be (slice body pos (pos + 8));
                   len = u32_of_be (slice body (pos + 8) (pos + 12))
               in res_bind (parse_index body (pos + 12)) (\<lambda>es.
                    Inr (\<lparr>ie_first_key = first_key, ie_offset = offset, ie_len = len\<rparr> # es)))
      else Inr [])"
  by pat_completeness auto
termination
  by (relation "measure (\<lambda>(body, pos). length body - pos)") (auto dest!: get_length_prefixed_advances)

declare parse_index.simps [simp del]

definition sst_open :: "(bytes \<Rightarrow> u32) \<Rightarrow> bytes \<Rightarrow> u64 \<Rightarrow> sst_reader res" where
  "sst_open crc file file_no =
     (if length file < FOOTER_LEN then Inl (Corruption ''sstable smaller than footer'')
      else res_bind (read_exact_at file (length file - FOOTER_LEN) FOOTER_LEN) (\<lambda>footer.
        let index_offset = u64_of_be (slice footer 0 8);
            index_len = u32_of_be (slice footer 8 12);
            magic = u64_of_be (slice footer 12 20)
        in if magic \<noteq> FOOTER_MAGIC then Inl (Corruption ''bad sstable magic'')
           else res_bind (read_exact_at file (unat index_offset) (unat index_len)) (\<lambda>idx_buf.
             res_bind (split_crc crc idx_buf (Corruption ''sstable index too small'')
                 (Corruption ''sstable index crc mismatch'')) (\<lambda>body.
               res_bind (parse_index body 0) (\<lambda>index.
                 Inr \<lparr>sr_file = file, sr_index = index, sr_file_no = file_no\<rparr>)))))"

definition read_block :: "(bytes \<Rightarrow> u32) \<Rightarrow> sst_reader \<Rightarrow> index_entry \<Rightarrow> bytes res" where
  "read_block crc r e =
     res_bind (read_exact_at (sr_file r) (unat (ie_offset e)) (unat (ie_len e))) (\<lambda>buf.
       split_crc crc buf (Corruption ''sstable block too small'') (Corruption ''sstable block crc mismatch''))"

text \<open>\<open>partition_point\<close> on the index, which is sorted by first key.\<close>

definition candidate_block :: "sst_reader \<Rightarrow> bytes \<Rightarrow> nat option" where
  "candidate_block r sk =
     (let pp = length (takeWhile (\<lambda>e. ie_first_key e \<le> sk) (sr_index r))
      in if pp = 0 then None else Some (pp - 1))"

fun get_in_block :: "(bytes \<times> bytes) list \<Rightarrow> bytes \<Rightarrow> mem_value option res" where
  "get_in_block [] sk = Inr None"
| "get_in_block ((ek, ev) # es) sk =
     (if ek < sk then get_in_block es sk
      else if ek = sk then res_bind (ok_or (mv_decode ev) (Corruption ''sstable value'')) (\<lambda>v. Inr (Some v))
      else Inr None)"

definition sst_get :: "(bytes \<Rightarrow> u32) \<Rightarrow> sst_reader \<Rightarrow> cf \<Rightarrow> bytes \<Rightarrow> mem_value option res" where
  "sst_get crc r cf key =
     (let sk = cf_u8 cf # key
      in case candidate_block r sk of
           None \<Rightarrow> Inr None
         | Some bi \<Rightarrow> res_bind (read_block crc r (sr_index r ! bi)) (\<lambda>block.
             get_in_block (entries block) sk))"

text \<open>The outer loop of \<open>seek\<close> over the blocks from the candidate on.\<close>

fun seek_blocks :: "(bytes \<Rightarrow> u32) \<Rightarrow> sst_reader \<Rightarrow> byte \<Rightarrow> bytes \<Rightarrow> index_entry list
    \<Rightarrow> (bytes \<times> mem_value) option res" where
  "seek_blocks crc r cf_byte sk [] = Inr None"
| "seek_blocks crc r cf_byte sk (ie # ies) =
     res_bind (read_block crc r ie) (\<lambda>block.
       case find (\<lambda>(ek, ev). sk \<le> ek) (entries block) of
         None \<Rightarrow> seek_blocks crc r cf_byte sk ies
       | Some (ek, ev) \<Rightarrow>
           if take 1 ek \<noteq> [cf_byte] then Inr None
           else res_bind (ok_or (mv_decode ev) (Corruption ''sstable value'')) (\<lambda>mv.
             Inr (Some (drop 1 ek, mv))))"

definition sst_seek :: "(bytes \<Rightarrow> u32) \<Rightarrow> sst_reader \<Rightarrow> cf \<Rightarrow> bytes \<Rightarrow> (bytes \<times> mem_value) option res" where
  "sst_seek crc r cf from =
     (let sk = cf_u8 cf # from;
          bi = (case candidate_block r sk of None \<Rightarrow> 0 | Some bi \<Rightarrow> bi)
      in seek_blocks crc r (cf_u8 cf) sk (drop bi (sr_index r)))"

section \<open>The image of a table\<close>

text \<open>The file as a function of the way its entries are cut into blocks.\<close>

definition entries_image :: "(bytes \<times> bytes) list \<Rightarrow> bytes" where
  "entries_image es = concat (map (\<lambda>(k, v). encode_entry [] k v) es)"

definition block_image :: "(bytes \<Rightarrow> u32) \<Rightarrow> (bytes \<times> bytes) list \<Rightarrow> bytes" where
  "block_image crc es = entries_image es @ u32_to_be (crc (entries_image es))"

fun block_index :: "(bytes \<Rightarrow> u32) \<Rightarrow> nat \<Rightarrow> (bytes \<times> bytes) list list \<Rightarrow> (bytes \<times> u64 \<times> u32) list" where
  "block_index crc off [] = []"
| "block_index crc off (b # bs) =
     (fst (hd b), word_of_nat off, word_of_nat (length (block_image crc b)))
       # block_index crc (off + length (block_image crc b)) bs"

text \<open>Half of the 32-bit range bounds every length field of the format.\<close>

definition sst_fits :: "(bytes \<times> bytes) list \<Rightarrow> bool" where
  "sst_fits es \<longleftrightarrow> 2 * length (entries_image es) + 4 < 2 ^ 32"

lemma encode_entry_append: "encode_entry buf k v = buf @ encode_entry [] k v"
  by (simp add: encode_entry_def put_length_prefixed_def)

lemma length_encode_entry [simp]: "length (encode_entry buf k v) = length buf + 8 + length k + length v"
  by (simp add: encode_entry_def)

lemma entries_image_simps [simp]:
  "entries_image [] = []"
  "entries_image ((k, v) # es) = encode_entry [] k v @ entries_image es"
  "entries_image (es @ es') = entries_image es @ entries_image es'"
  by (simp_all add: entries_image_def)

lemma entries_image_Nil_iff [simp]: "entries_image es = [] \<longleftrightarrow> es = []"
  by (cases es) (auto simp: encode_entry_def put_length_prefixed_def)

lemma length_entries_image_member:
  "(k, v) \<in> set es \<Longrightarrow> 8 + length k + length v \<le> length (entries_image es)"
  by (induction es) auto

lemma sst_fits_appendD: "sst_fits (es @ es') \<Longrightarrow> sst_fits es \<and> sst_fits es'"
  by (simp add: sst_fits_def)

lemma sst_fits_member: "sst_fits es \<Longrightarrow> (k, v) \<in> set es \<Longrightarrow> fits_u32 k \<and> fits_u32 v"
  using length_entries_image_member [of k v es] by (simp add: sst_fits_def)

lemma next_entry_at:
  assumes "length pre = pos" "fits_u32 k" "fits_u32 v"
  shows "next_entry (pre @ encode_entry [] k v @ post) pos = Some ((k, v), pos + 8 + length k + length v)"
proof -
  let ?k = "put_length_prefixed [] k" and ?v = "put_length_prefixed [] v"
  have enc: "encode_entry [] k v = ?k @ ?v"
    by (simp add: encode_entry_def put_length_prefixed_def)
  have "get_length_prefixed (pre @ encode_entry [] k v @ post) pos = Some (k, pos + 4 + length k)"
    using get_length_prefixed_at [of pre pos k "?v @ post"] assms by (simp add: enc)
  moreover have "get_length_prefixed (pre @ encode_entry [] k v @ post) (pos + 4 + length k)
      = Some (v, pos + 4 + length k + 4 + length v)"
    using get_length_prefixed_at [of "pre @ ?k" "pos + 4 + length k" v post] assms by (simp add: enc)
  ultimately show ?thesis
    by (simp add: next_entry_def)
qed

lemma entries_from_at:
  assumes "length pre = pos" "\<forall>(k, v) \<in> set es. fits_u32 k \<and> fits_u32 v"
  shows "entries_from (pre @ entries_image es) pos = es"
  using assms
proof (induction es arbitrary: pre pos)
  case Nil
  then show ?case
    by (simp add: entries_from.simps next_entry_def get_length_prefixed_def)
next
  case (Cons e es)
  obtain k v where e: "e = (k, v)" by (cases e)
  have "next_entry (pre @ encode_entry [] k v @ entries_image es) pos
      = Some ((k, v), pos + 8 + length k + length v)"
    using Cons.prems by (intro next_entry_at) (simp_all add: e)
  moreover have "entries_from ((pre @ encode_entry [] k v) @ entries_image es) (pos + 8 + length k + length v) = es"
    using Cons.prems by (intro Cons.IH) (simp_all add: e)
  ultimately show ?case
    by (subst entries_from.simps) (simp add: e)
qed

lemma entries_entries_image: "sst_fits es \<Longrightarrow> entries (entries_image es) = es"
  using entries_from_at [of "[]" 0 es] by (force simp: entries_def dest: sst_fits_member)

section \<open>What the writer produces\<close>

definition writer_rep :: "(bytes \<Rightarrow> u32) \<Rightarrow> sst_writer \<Rightarrow> (bytes \<times> bytes) list list
    \<Rightarrow> (bytes \<times> bytes) list \<Rightarrow> bool" where
  "writer_rep crc w bs cur \<longleftrightarrow>
     sw_file w = concat (map (block_image crc) bs) \<and>
     sw_offset w = word_of_nat (length (sw_file w)) \<and>
     sw_block w = entries_image cur \<and>
     (cur \<noteq> [] \<longrightarrow> sw_cur_first_key w = Some (fst (hd cur))) \<and>
     sw_index w = block_index crc 0 bs \<and>
     (\<forall>b \<in> set bs. b \<noteq> [])"

definition sst_image :: "(bytes \<Rightarrow> u32) \<Rightarrow> (bytes \<times> bytes) list list \<Rightarrow> bytes" where
  "sst_image crc bs =
     (let data = concat (map (block_image crc) bs);
          body = index_image (block_index crc 0 bs);
          idx = body @ u32_to_be (crc body)
      in data @ idx @ u64_to_be (word_of_nat (length data))
           @ u32_to_be (word_of_nat (length idx)) @ u64_to_be FOOTER_MAGIC)"

lemma block_index_append:
  "block_index crc off (bs @ bs') = block_index crc off bs
     @ block_index crc (off + length (concat (map (block_image crc) bs))) bs'"
  by (induction bs arbitrary: off) (simp_all add: add.assoc)

lemma length_block_image [simp]: "length (block_image crc b) = length (entries_image b) + 4"
  by (simp add: block_image_def)

lemma ucast_u32_of_nat: "n < 2 ^ 32 \<Longrightarrow> (ucast (word_of_nat n :: u32) :: u64) = word_of_nat n"
  by (rule word_unat_eq_iff [THEN iffD2])
    (simp add: unsigned_ucast_eq unat_of_nat take_bit_eq_mod)

lemma flush_block_rep:
  assumes "writer_rep crc w bs cur" "sst_fits cur"
  shows "\<exists>w'. flush_block crc w = Some w' \<and>
    writer_rep crc w' (if cur = [] then bs else bs @ [cur]) [] \<and>
    sw_target_block_size w' = sw_target_block_size w"
proof (cases "cur = []")
  case True
  then show ?thesis
    using assms by (auto simp: flush_block_def writer_rep_def)
next
  case False
  have "length (block_image crc cur) < 2 ^ 32"
    using assms(2) by (simp add: sst_fits_def)
  from ucast_u32_of_nat [OF this]
  have off: "ucast (word_of_nat (length (entries_image cur) + 4) :: u32)
      = (word_of_nat (length (entries_image cur) + 4) :: u64)"
    by simp
  show ?thesis
    using False assms off
    by (auto simp: flush_block_def writer_rep_def Let_def block_image_def block_index_append add.assoc)
qed

lemma sst_add_rep:
  assumes "writer_rep crc w bs cur" "sst_fits (cur @ [(k, v)])"
  shows "\<exists>w' bs' cur'. sst_add crc w k v = Some w' \<and> writer_rep crc w' bs' cur' \<and>
    concat bs' @ cur' = concat bs @ cur @ [(k, v)] \<and> (cur' = [] \<or> cur' = cur @ [(k, v)])"
proof -
  let ?w = "(if sw_block w = [] then w\<lparr>sw_cur_first_key := Some k\<rparr> else w)
    \<lparr>sw_block := encode_entry (sw_block w) k v\<rparr>"
  have rep: "writer_rep crc ?w bs (cur @ [(k, v)])"
    using assms(1) encode_entry_append [of "sw_block w" k v]
    by (cases "cur = []") (auto simp: writer_rep_def)
  obtain w' where "flush_block crc ?w = Some w'" "writer_rep crc w' (bs @ [cur @ [(k, v)]]) []"
    using flush_block_rep [OF rep assms(2)] by auto
  moreover have "sst_add crc w k v = (if length (sw_block ?w) \<ge> sw_target_block_size ?w
      then flush_block crc ?w else Some ?w)"
    by (simp add: sst_add_def Let_def)
  ultimately show ?thesis
    using rep
    by (cases "length (sw_block ?w) \<ge> sw_target_block_size ?w")
      (simp_all only: if_True if_False, force, blast)
qed

lemma sst_add_all_rep:
  assumes "writer_rep crc w bs cur" "sst_fits (cur @ es)"
  shows "\<exists>w' bs' cur'. sst_add_all crc w es = Some w' \<and> writer_rep crc w' bs' cur' \<and>
    concat bs' @ cur' = concat bs @ cur @ es \<and> sst_fits cur'"
  using assms
proof (induction es arbitrary: w bs cur)
  case Nil
  then show ?case by auto
next
  case (Cons e es)
  obtain k v where e: "e = (k, v)" by (cases e)
  have fits: "sst_fits (cur @ [(k, v)])" "sst_fits es"
    using Cons.prems(2) by (auto simp: sst_fits_def e)
  obtain w' bs' cur' where w': "sst_add crc w k v = Some w'" "writer_rep crc w' bs' cur'"
    "concat bs' @ cur' = concat bs @ cur @ [(k, v)]" "cur' = [] \<or> cur' = cur @ [(k, v)]"
    using sst_add_rep [OF Cons.prems(1) fits(1)] by blast
  have "sst_fits (cur' @ es)"
    using w'(4) fits(2) Cons.prems(2) by (auto simp: e)
  from Cons.IH [OF w'(2) this] obtain w2 bs2 cur2 where
    "sst_add_all crc w' es = Some w2" "writer_rep crc w2 bs2 cur2"
    "concat bs2 @ cur2 = concat bs' @ cur' @ es" "sst_fits cur2"
    by blast
  moreover from this(3) w'(3) have "concat bs2 @ cur2 = concat bs @ cur @ e # es"
    by (simp add: e flip: append_assoc)
  ultimately show ?case
    using w'(1) by (auto simp: e)
qed

lemma sst_finish_rep:
  assumes "writer_rep crc w bs []"
  shows "sst_finish crc w = Some (sst_image crc bs)"
  using assms by (simp add: sst_finish_def flush_block_def writer_rep_def sst_image_def Let_def)

lemma flush_block_idem: "flush_block crc w = Some w' \<Longrightarrow> flush_block crc w' = Some w'"
  by (auto simp: flush_block_def Let_def bind_eq_Some_conv split: if_splits)

lemma sst_finish_image:
  assumes "writer_rep crc w bs cur" "sst_fits cur"
  shows "\<exists>bs'. concat bs' = concat bs @ cur \<and> (\<forall>b \<in> set bs'. b \<noteq> []) \<and>
    sst_finish crc w = Some (sst_image crc bs')"
proof -
  let ?bs = "if cur = [] then bs else bs @ [cur]"
  obtain w' where w': "flush_block crc w = Some w'" "writer_rep crc w' ?bs []"
    using flush_block_rep [OF assms] by blast
  have "sst_finish crc w = sst_finish crc w'"
    by (simp add: sst_finish_def w'(1) flush_block_idem [OF w'(1)])
  also have "\<dots> = Some (sst_image crc ?bs)"
    by (rule sst_finish_rep [OF w'(2)])
  finally have "sst_finish crc w = Some (sst_image crc ?bs)" .
  moreover have "concat ?bs = concat bs @ cur" and "\<forall>b \<in> set ?bs. b \<noteq> []"
    using assms(1) by (simp_all add: writer_rep_def)
  ultimately show ?thesis by blast
qed

text \<open>The writer never panics, and its file is the image of some cut of the entries into
  non-empty blocks.\<close>

lemma write_sst_image:
  assumes "sst_fits (sst_entries D m)"
  shows "\<exists>bs. write_sst D m = Some (sst_image (crc32c D) bs) \<and>
    concat bs = sst_entries D m \<and> (\<forall>b \<in> set bs. b \<noteq> [])"
proof -
  have "writer_rep (crc32c D) sst_create [] []"
    by (simp add: writer_rep_def sst_create_def)
  from sst_add_all_rep [OF this, of "sst_entries D m"] assms
  obtain w bs cur where w: "sst_add_all (crc32c D) sst_create (sst_entries D m) = Some w"
    "writer_rep (crc32c D) w bs cur" "concat bs @ cur = sst_entries D m" "sst_fits cur"
    by auto
  from sst_finish_image [OF w(2,4)] w(3) obtain bs' where
    "concat bs' = sst_entries D m" "\<forall>b \<in> set bs'. b \<noteq> []"
    "sst_finish (crc32c D) w = Some (sst_image (crc32c D) bs')"
    by metis
  moreover from this(3) have "write_sst D m = Some (sst_image (crc32c D) bs')"
    by (simp add: write_sst_def w(1))
  ultimately show ?thesis by blast
qed

section \<open>What the reader sees\<close>

fun mk_ie :: "bytes \<times> u64 \<times> u32 \<Rightarrow> index_entry" where
  "mk_ie (first, off, len) = \<lparr>ie_first_key = first, ie_offset = off, ie_len = len\<rparr>"

lemma index_image_simps [simp]:
  "index_image [] = []"
  "index_image ((first, off, len) # idx) =
     put_length_prefixed [] first @ u64_to_be off @ u32_to_be len @ index_image idx"
  by (simp_all add: index_image_def)

lemma parse_index_at:
  assumes "length pre = pos" "\<forall>(first, off, len) \<in> set idx. fits_u32 first"
  shows "parse_index (pre @ index_image idx) pos = Inr (map mk_ie idx)"
  using assms
proof (induction idx arbitrary: pre pos)
  case Nil
  then show ?case by (simp add: parse_index.simps)
next
  case (Cons e idx)
  obtain first off len where e: "e = (first, off, len)" by (cases e)
  let ?f = "put_length_prefixed [] first" and ?o = "u64_to_be off" and ?l = "u32_to_be len"
  let ?body = "pre @ index_image (e # idx)" and ?pos = "pos + 4 + length first"
  have body: "?body = pre @ ?f @ ?o @ ?l @ index_image idx"
    by (simp add: e)
  have "get_length_prefixed ?body pos = Some (first, ?pos)"
    using get_length_prefixed_at [of pre pos first "?o @ ?l @ index_image idx"] Cons.prems
    by (simp add: e)
  moreover have "slice ?body ?pos (?pos + 8) = ?o"
    using slice_mid [of "pre @ ?f" ?pos ?o "?pos + 8" "?l @ index_image idx"] Cons.prems
    by (simp add: body)
  moreover have "slice ?body (?pos + 8) (?pos + 12) = ?l"
    using slice_mid [of "pre @ ?f @ ?o" "?pos + 8" ?l "?pos + 12" "index_image idx"] Cons.prems
    by (simp add: body)
  moreover have "parse_index ((pre @ ?f @ ?o @ ?l) @ index_image idx) (?pos + 12)
      = Inr (map mk_ie idx)"
    using Cons.prems by (intro Cons.IH) (simp_all add: e)
  moreover have "pos < length ?body" "?pos + 12 \<le> length ?body"
    using Cons.prems(1) by (simp_all add: body)
  ultimately show ?case
    by (subst parse_index.simps) (simp add: e Let_def)
qed

text \<open>Sizes: every length field holds the length it was given.\<close>

lemma length_data: "length (concat (map (block_image crc) bs)) = length (entries_image (concat bs)) + 4 * length bs"
  by (induction bs) simp_all

lemma length_blocks_le: "\<forall>b \<in> set bs. b \<noteq> [] \<Longrightarrow> 8 * length bs \<le> length (entries_image (concat bs))"
proof (induction bs)
  case (Cons b bs)
  then obtain k v b' where "b = (k, v) # b'"
    by (cases b) auto
  with Cons show ?case by simp
qed simp

lemma block_index_first:
  "(first, off, len) \<in> set (block_index crc n bs) \<Longrightarrow> \<exists>b \<in> set bs. first = fst (hd b)"
  by (induction bs arbitrary: n) auto

lemma length_index_image:
  "\<forall>b \<in> set bs. b \<noteq> [] \<Longrightarrow>
     length (index_image (block_index crc off bs)) \<le> 2 * length (entries_image (concat bs))"
proof (induction bs arbitrary: off)
  case (Cons b bs)
  obtain k v b' where b: "b = (k, v) # b'"
    using Cons.prems by (cases b) auto
  have "length (index_image (block_index crc (off + length (block_image crc b)) bs))
      \<le> 2 * length (entries_image (concat bs))"
    using Cons.prems by (intro Cons.IH) simp
  then show ?case by (simp add: b)
qed simp

lemma sst_fits_blocks:
  "sst_fits (concat bs) \<Longrightarrow> b \<in> set bs \<Longrightarrow> sst_fits b"
  by (induction bs) (auto simp: sst_fits_def)

lemma sst_fits_first:
  assumes "sst_fits (concat bs)" "\<forall>b \<in> set bs. b \<noteq> []" "(first, off, len) \<in> set (block_index crc n bs)"
  shows "fits_u32 first"
proof -
  obtain b where b: "b \<in> set bs" "first = fst (hd b)"
    using block_index_first assms(3) by blast
  then have "(first, snd (hd b)) \<in> set b"
    using assms(2) by (metis list.set_sel(1) prod.collapse)
  then show ?thesis
    using sst_fits_member sst_fits_blocks [OF assms(1) b(1)] by blast
qed

definition block_at :: "(bytes \<Rightarrow> u32) \<Rightarrow> sst_reader \<Rightarrow> index_entry \<Rightarrow> (bytes \<times> bytes) list \<Rightarrow> bool" where
  "block_at crc r ie b \<longleftrightarrow> b \<noteq> [] \<and> ie_first_key ie = fst (hd b) \<and>
     res_bind (read_block crc r ie) (\<lambda>d. Inr (entries d)) = Inr b"

lemma split_crc_append [simp]:
  "length (c :: bytes) = 4 \<Longrightarrow> split_crc crc (body @ c) e e' = (if crc body = u32_of_be c then Inr body else Inl e')"
  by (simp add: split_crc_def)

lemma split_crc_block [simp]: "split_crc crc (block_image crc b) e e' = Inr (entries_image b)"
  by (simp add: block_image_def)

lemma block_at_blocks:
  assumes "sr_file r = pre @ concat (map (block_image crc) bs) @ post"
    and "length (sr_file r) < 2 ^ 64" and "\<forall>b \<in> set bs. b \<noteq> [] \<and> sst_fits b"
  shows "list_all2 (block_at crc r) (map mk_ie (block_index crc (length pre) bs)) bs"
  using assms
proof (induction bs arbitrary: pre)
  case (Cons b bs)
  have fits: "length (block_image crc b) < 2 ^ 32"
    using Cons.prems(3) by (simp add: sst_fits_def)
  let ?ie = "mk_ie (fst (hd b), word_of_nat (length pre), word_of_nat (length (block_image crc b)))"
  have len: "unat (ie_len ?ie) = length (block_image crc b)"
    using unat_u32_of_nat [OF fits] by simp
  have off: "unat (ie_offset ?ie) = length pre"
    using Cons.prems(1,2) by (simp add: unat_u64_of_nat)
  have "slice (sr_file r) (length pre) (length pre + length (block_image crc b)) = block_image crc b"
    unfolding Cons.prems(1) list.map concat.simps append_assoc by (rule slice_mid) simp_all
  then have "read_block crc r ?ie = Inr (entries_image b)"
    unfolding read_block_def read_exact_at_def len off using Cons.prems(1) by simp
  then have "block_at crc r ?ie b"
    using Cons.prems(3) by (simp add: block_at_def entries_entries_image)
  moreover have "list_all2 (block_at crc r) (map mk_ie (block_index crc (length (pre @ block_image crc b)) bs)) bs"
    using Cons.prems by (intro Cons.IH) simp_all
  ultimately show ?case by simp
qed simp

lemma sst_open_image:
  assumes "sst_fits (concat bs)" "\<forall>b \<in> set bs. b \<noteq> []"
  shows "\<exists>r. sst_open crc (sst_image crc bs) n = Inr r \<and> sr_file_no r = n \<and>
    list_all2 (block_at crc r) (sr_index r) bs"
proof -
  let ?data = "concat (map (block_image crc) bs)" and ?body = "index_image (block_index crc 0 bs)"
  let ?idx = "?body @ u32_to_be (crc ?body)"
  let ?off = "u64_to_be (word_of_nat (length ?data))" and ?len = "u32_to_be (word_of_nat (length ?idx))"
  let ?m = "u64_to_be FOOTER_MAGIC"
  let ?file = "sst_image crc bs"
  let ?r = "\<lparr>sr_file = ?file, sr_index = map mk_ie (block_index crc 0 bs), sr_file_no = n\<rparr>"
  have img: "?file = ?data @ ?idx @ ?off @ ?len @ ?m"
    by (simp add: sst_image_def Let_def)
  have idx: "length ?idx < 2 ^ 32"
    using assms length_index_image [OF assms(2), of crc 0] by (simp add: sst_fits_def)
  have data: "length ?data + length ?idx + FOOTER_LEN < 2 ^ 64"
    using assms(1) idx length_blocks_le [OF assms(2)]
    by (simp add: length_data sst_fits_def FOOTER_LEN_def)
  have flen: "length ?file = length ?data + length ?idx + FOOTER_LEN"
    by (simp add: img FOOTER_LEN_def)
  have "slice ?file (length ?file - FOOTER_LEN) (length ?file) = ?off @ ?len @ ?m"
    using slice_end [of "?data @ ?idx" "length ?file - FOOTER_LEN" "?off @ ?len @ ?m" "length ?file"]
    by (simp add: img FOOTER_LEN_def)
  then have footer: "read_exact_at ?file (length ?file - FOOTER_LEN) FOOTER_LEN = Inr (?off @ ?len @ ?m)"
    by (simp add: read_exact_at_def flen)
  have fo: "slice (?off @ ?len @ ?m) 0 8 = ?off" "slice (?off @ ?len @ ?m) 8 12 = ?len"
    "slice (?off @ ?len @ ?m) 12 20 = ?m"
    using slice_mid [of ?off 8 ?len 12 ?m] slice_end [of "?off @ ?len" 12 ?m 20] by simp_all
  have "slice ?file (length ?data) (length ?data + length ?idx) = ?idx"
    unfolding img by (rule slice_mid) simp_all
  then have index: "read_exact_at ?file (length ?data) (length ?idx) = Inr ?idx"
    using flen by (simp add: read_exact_at_def)
  have uoff: "unat (word_of_nat (length ?data) :: u64) = length ?data"
    using data by (intro unat_u64_of_nat) simp
  have ulen: "unat (word_of_nat (length ?idx) :: u32) = length ?idx"
    by (rule unat_u32_of_nat [OF idx])
  have parse: "parse_index ?body 0 = Inr (map mk_ie (block_index crc 0 bs))"
    using parse_index_at [of "[]" 0 "block_index crc 0 bs"] sst_fits_first [OF assms] by fastforce
  have "sst_open crc ?file n = Inr ?r"
    unfolding sst_open_def footer res_bind_simps fo u64_of_be_to_be u32_of_be_to_be Let_def
      uoff ulen index
    using flen parse by simp
  moreover have "list_all2 (block_at crc ?r) (sr_index ?r) bs"
    using block_at_blocks [of ?r "[]" crc bs "?idx @ ?off @ ?len @ ?m"] data flen assms
    by (auto simp: img dest: sst_fits_blocks)
  ultimately show ?thesis by auto
qed

section \<open>Lookups and seeks in a table\<close>

text \<open>Around the candidate block: everything in earlier blocks is below the cursor, everything
  in later blocks above it.\<close>

lemma blocks_split:
  assumes "strict_keys (concat bs)" "\<forall>b \<in> set bs. b \<noteq> []"
    "n = length (takeWhile (\<lambda>b. fst (hd b) \<le> sk) bs)"
  shows "e \<in> set (concat (take (n - 1) bs)) \<Longrightarrow> fst e < sk"
    and "e \<in> set (concat (drop n bs)) \<Longrightarrow> sk < fst e"
proof -
  have srt: "sorted_wrt (\<lambda>x y. fst x < fst y) (concat bs)"
    using assms(1) by (simp add: sorted_wrt_map)
  have lt: "fst x < fst y" if "x \<in> set (concat (take i bs))" "y \<in> set (concat (drop i bs))" for x y i
    using srt that by (metis append_take_drop_id concat_append sorted_wrt_append)
  have hd_in: "hd (bs ! i) \<in> set (concat (drop i bs))" if "i < length bs" for i
    using that assms(2) by (simp add: Cons_nth_drop_Suc [symmetric] nth_mem)
  show "fst e < sk" if e: "e \<in> set (concat (take (n - 1) bs))"
  proof (cases n)
    case (Suc m)
    have "m < length (takeWhile (\<lambda>b. fst (hd b) \<le> sk) bs)"
      using assms(3) Suc by simp
    then have "fst (hd (bs ! m)) \<le> sk" "m < length bs"
      by (metis nth_mem set_takeWhileD takeWhile_nth,
          metis length_takeWhile_le order_less_le_trans)
    then show ?thesis using lt [of e m "hd (bs ! m)"] hd_in [of m] e Suc by fastforce
  qed (use e in simp)
  show "sk < fst e" if e: "e \<in> set (concat (drop n bs))"
  proof -
    have n: "n < length bs"
      using e by (cases "n < length bs") auto
    then have gt: "sk < fst (hd (bs ! n))"
      using nth_length_takeWhile [of "\<lambda>b. fst (hd b) \<le> sk" bs] assms(3) by auto
    have ne: "bs ! n \<noteq> []"
      using n assms(2) by simp
    have "sorted_wrt (\<lambda>x y. fst x < fst y) (concat (drop n bs))"
      using srt by (metis append_take_drop_id concat_append sorted_wrt_append)
    moreover have "concat (drop n bs) = hd (bs ! n) # tl (bs ! n) @ concat (drop (Suc n) bs)"
      using ne n by (simp add: Cons_nth_drop_Suc [symmetric])
    ultimately show ?thesis using e gt by (auto simp del: set_concat dest: less_trans)
  qed
qed

lemma length_takeWhile_index:
  assumes "list_all2 (block_at crc r) ies bs"
  shows "length (takeWhile (\<lambda>e. ie_first_key e \<le> sk) ies) =
     length (takeWhile (\<lambda>b. fst (hd b) \<le> sk) bs)"
  using assms by (induction rule: list_all2_induct) (simp_all add: block_at_def)

lemma map_of_eq_None_keys: "(\<And>e. e \<in> set xs \<Longrightarrow> fst e \<noteq> k) \<Longrightarrow> map_of xs k = None"
  by (force simp: map_of_eq_None_iff)

lemma al_seek_append: "al_seek (xs @ ys) k = (case al_seek xs k of None \<Rightarrow> al_seek ys k | Some e \<Rightarrow> Some e)"
  by (induction xs) (auto simp: al_seek_def)

lemma al_seek_below: "(\<And>e. e \<in> set xs \<Longrightarrow> fst e < k) \<Longrightarrow> al_seek xs k = None"
  by (force simp: al_seek_def find_None_iff)

text \<open>What a stored entry decodes to.\<close>

definition decode_hit :: "bytes option \<Rightarrow> mem_value option res" where
  "decode_hit r = (case r of
     None \<Rightarrow> Inr None
   | Some ev \<Rightarrow> res_bind (ok_or (mv_decode ev) (Corruption ''sstable value'')) (\<lambda>v. Inr (Some v)))"

definition decode_seek :: "byte \<Rightarrow> (bytes \<times> bytes) option \<Rightarrow> (bytes \<times> mem_value) option res" where
  "decode_seek cf_byte r = (case r of
     None \<Rightarrow> Inr None
   | Some (ek, ev) \<Rightarrow>
       if take 1 ek \<noteq> [cf_byte] then Inr None
       else res_bind (ok_or (mv_decode ev) (Corruption ''sstable value'')) (\<lambda>mv.
         Inr (Some (drop 1 ek, mv))))"

lemma decode_hit_simps [simp]:
  "decode_hit None = Inr None"
  "decode_hit (Some ev) = res_bind (ok_or (mv_decode ev) (Corruption ''sstable value'')) (\<lambda>v. Inr (Some v))"
  by (simp_all add: decode_hit_def)

lemma get_in_block_map_of:
  "strict_keys es \<Longrightarrow> get_in_block es sk = decode_hit (map_of es sk)"
proof (induction es)
  case (Cons e es)
  obtain k v where e: "e = (k, v)" by (cases e)
  have "map_of es sk = None" if "sk \<le> k"
    by (rule map_of_strict_keys_Cons [of k v es]) (use Cons.prems that e in simp_all)
  with Cons show ?case
    by (cases k sk rule: linorder_cases) (auto simp: e dest: less_asym)
qed simp

lemma seek_blocks_al_seek:
  assumes "list_all2 (block_at crc r) ies bs"
  shows "seek_blocks crc r cf_byte sk ies = decode_seek cf_byte (al_seek (concat bs) sk)"
  using assms
proof (induction rule: list_all2_induct)
  case (Cons ie ies b bs)
  obtain d where d: "read_block crc r ie = Inr d" "entries d = b"
    using Cons.hyps(1) by (cases "read_block crc r ie") (auto simp: block_at_def)
  have find: "find (\<lambda>(ek, ev). sk \<le> ek) b = al_seek b sk"
    by (simp add: al_seek_def case_prod_unfold)
  show ?case
    using Cons.IH by (simp add: d find al_seek_append decode_seek_def split: option.split)
qed (simp add: decode_seek_def al_seek_def)

lemma strict_keys_append:
  "strict_keys (xs @ ys) \<Longrightarrow> strict_keys xs" "strict_keys (xs @ ys) \<Longrightarrow> strict_keys ys"
  by (simp_all add: sorted_wrt_append)

lemma sst_get_map_of:
  assumes idx: "list_all2 (block_at crc r) (sr_index r) bs" and srt: "strict_keys (concat bs)"
  shows "sst_get crc r cf key = decode_hit (map_of (concat bs) (cf_u8 cf # key))"
proof -
  let ?sk = "cf_u8 cf # key"
  let ?n = "length (takeWhile (\<lambda>b. fst (hd b) \<le> ?sk) bs)"
  have ne: "\<forall>b \<in> set bs. b \<noteq> []"
    using idx by (auto simp: list_all2_conv_all_nth in_set_conv_nth block_at_def)
  have below: "fst e \<noteq> ?sk" if "e \<in> set (concat (take (?n - 1) bs))" for e
    using blocks_split(1) [OF srt ne refl that] by simp
  have above: "fst e \<noteq> ?sk" if "e \<in> set (concat (drop ?n bs))" for e
    using blocks_split(2) [OF srt ne refl that] by simp
  show ?thesis
  proof (cases ?n)
    case 0
    then have "map_of (concat bs) ?sk = None"
      using above by (intro map_of_eq_None_keys) simp
    then show ?thesis
      using 0 by (simp add: sst_get_def candidate_block_def length_takeWhile_index [OF idx] Let_def)
  next
    case (Suc m)
    have m: "m < length bs"
      using length_takeWhile_le [of "\<lambda>b. fst (hd b) \<le> ?sk" bs] Suc by simp
    have cut: "concat bs = concat (take m bs) @ bs ! m @ concat (drop (Suc m) bs)"
      using m by (metis id_take_nth_drop concat.simps(2) concat_append)
    have "block_at crc r (sr_index r ! m) (bs ! m)"
      using idx m by (simp add: list_all2_conv_all_nth)
    then obtain d where "read_block crc r (sr_index r ! m) = Inr d" "entries d = bs ! m"
      by (auto simp: block_at_def res_bind_eq_Inr)
    then have blk: "sst_get crc r cf key = get_in_block (bs ! m) ?sk"
      using Suc unfolding sst_get_def candidate_block_def length_takeWhile_index [OF idx] Let_def by simp
    have "map_of (concat (take m bs)) ?sk = None"
      using below unfolding Suc diff_Suc_1 by (rule map_of_eq_None_keys)
    moreover have "map_of (concat (drop (Suc m) bs)) ?sk = None"
      using above unfolding Suc by (rule map_of_eq_None_keys)
    ultimately have "map_of (concat bs) ?sk = map_of (bs ! m) ?sk"
      unfolding cut by (simp add: map_add_def split: option.split)
    moreover have "strict_keys (bs ! m)"
      using srt strict_keys_append unfolding cut by blast
    ultimately show ?thesis
      using blk by (simp add: get_in_block_map_of)
  qed
qed

lemma sst_seek_al_seek:
  assumes idx: "list_all2 (block_at crc r) (sr_index r) bs" and srt: "strict_keys (concat bs)"
  shows "sst_seek crc r cf from = decode_seek (cf_u8 cf) (al_seek (concat bs) (cf_u8 cf # from))"
proof -
  let ?sk = "cf_u8 cf # from"
  let ?m = "length (takeWhile (\<lambda>b. fst (hd b) \<le> ?sk) bs) - 1"
  have ne: "\<forall>b \<in> set bs. b \<noteq> []"
    using idx by (auto simp: list_all2_conv_all_nth in_set_conv_nth block_at_def)
  have "al_seek (concat (take ?m bs)) ?sk = None"
    using blocks_split(1) [OF srt ne refl] by (rule al_seek_below)
  then have skip: "al_seek (concat bs) ?sk = al_seek (concat (drop ?m bs)) ?sk"
    using al_seek_append [of "concat (take ?m bs)" "concat (drop ?m bs)" ?sk]
    by (metis append_take_drop_id concat_append option.case(1))
  have "(case candidate_block r ?sk of None \<Rightarrow> 0 | Some bi \<Rightarrow> bi) = ?m"
    unfolding candidate_block_def length_takeWhile_index [OF idx] Let_def by simp
  moreover have "list_all2 (block_at crc r) (drop ?m (sr_index r)) (drop ?m bs)"
    using idx by (rule list_all2_dropI)
  ultimately show ?thesis
    unfolding sst_seek_def Let_def skip by (simp only: seek_blocks_al_seek)
qed

section \<open>A table holds what its memtable held\<close>

text \<open>A table serves a store: every point lookup and every seek answers as the store does.\<close>

definition sst_serves :: "(bytes \<Rightarrow> u32) \<Rightarrow> sst_reader \<Rightarrow> cf_store \<Rightarrow> bool" where
  "sst_serves crc r s \<longleftrightarrow>
     (\<forall>cf key. sst_get crc r cf key = Inr (s cf key)) \<and>
     (\<forall>cf from. \<exists>res. sst_seek crc r cf from = Inr res \<and> seek_spec (s cf) from res)"

definition cf_entries :: "cf \<Rightarrow> (bytes \<times> mem_value) list \<Rightarrow> (bytes \<times> bytes) list" where
  "cf_entries cf xs = map (\<lambda>(k, v). (cf_u8 cf # k, mv_encode v)) xs"

lemma strict_keys_cf_entries [simp]: "strict_keys (cf_entries cf xs) \<longleftrightarrow> strict_keys xs"
  by (simp add: cf_entries_def sorted_wrt_map case_prod_unfold)

lemma map_of_cf_entries:
  "map_of (cf_entries cf xs) (c # k) = (if c = cf_u8 cf then map_option mv_encode (map_of xs k) else None)"
  by (induction xs) (auto simp: cf_entries_def)

lemma cf_entries_key: "e \<in> set (cf_entries cf xs) \<Longrightarrow> \<exists>k v. e = (cf_u8 cf # k, mv_encode v)"
  by (auto simp: cf_entries_def)

lemma sst_entries_cf:
  "sst_entries D m = cf_entries CfDefault (mt_iter_cf D m CfDefault) @
     cf_entries CfWrite (mt_iter_cf D m CfWrite) @ cf_entries CfLock (mt_iter_cf D m CfLock)"
  by (simp add: sst_entries_def cf_ALL_def cf_entries_def)

lemma strict_keys_sst_entries:
  assumes "mt_inv D m"
  shows "strict_keys (sst_entries D m)"
proof -
  have lt: "x < y" if "x \<in> fst ` set (cf_entries a xs)" "y \<in> fst ` set (cf_entries b ys)"
    "cf_u8 a < cf_u8 b" for x y a b xs ys
    using that by (auto dest!: cf_entries_key)
  show ?thesis
    using assms
    by (auto simp: sst_entries_cf mt_inv_def sorted_wrt_append intro!: lt simp flip: set_map)
qed

lemma sst_entries_value: "e \<in> set (sst_entries D m) \<Longrightarrow> \<exists>cf k v. e = (cf_u8 cf # k, mv_encode v)"
  by (auto simp: sst_entries_cf dest!: cf_entries_key)

context mem_skip_map
begin

lemma map_of_sst_entries:
  "map_of (sst_entries D m) (cf_u8 cf # k) = map_option mv_encode (mt_store D m cf k)"
  by (cases cf) (auto simp: sst_entries_cf map_of_cf_entries mt_store_iter map_add_def split: option.split)

lemma decode_seek_sst_entries:
  assumes "mt_inv D m"
  shows "\<exists>res. decode_seek (cf_u8 cf) (al_seek (sst_entries D m) (cf_u8 cf # from)) = Inr res \<and>
    seek_spec (mt_store D m cf) from res"
proof -
  let ?r = "al_seek (sst_entries D m) (cf_u8 cf # from)"
  have spec: "seek_spec (map_of (sst_entries D m)) (cf_u8 cf # from) ?r"
    using strict_keys_sst_entries [OF assms] by (rule seek_spec_al_seek)
  show ?thesis
  proof (cases ?r)
    case None
    then have "mt_store D m cf k = None" if "from \<le> k" for k
      using spec map_of_sst_entries [of m cf k] that by (simp add: seek_spec_def)
    then show ?thesis by (simp add: None decode_seek_def seek_spec_def)
  next
    case (Some e)
    then obtain cf' k v where e: "e = (cf_u8 cf' # k, mv_encode v)"
      using sst_entries_value spec by (fastforce simp: seek_spec_def dest: map_of_SomeD)
    have hit: "mt_store D m cf' k = Some v" "cf_u8 cf # from \<le> cf_u8 cf' # k"
      using spec map_of_sst_entries [of m cf' k] by (auto simp: seek_spec_def Some e mv_encode_inj)
    have gap: "mt_store D m cf k' = None" if "from \<le> k'" "cf_u8 cf # k' < cf_u8 cf' # k" for k'
      using spec map_of_sst_entries [of m cf k'] that by (simp add: seek_spec_def Some e)
    show ?thesis
    proof (cases "cf' = cf")
      case True
      then show ?thesis using hit gap by (auto simp: Some e decode_seek_def seek_spec_def)
    next
      case False
      then have "cf_u8 cf < cf_u8 cf'"
        using hit(2) by (cases cf; cases cf') simp_all
      then show ?thesis using False gap by (auto simp: Some e decode_seek_def seek_spec_def)
    qed
  qed
qed

text \<open>Opening the file that \<open>write_sst\<close> writes gives a reader that serves the memtable.\<close>

lemma sst_serves_write_sst:
  assumes "mt_inv D m" "sst_fits (sst_entries D m)"
  shows "\<exists>file r. write_sst D m = Some file \<and> sst_open (crc32c D) file n = Inr r \<and>
    sr_file_no r = n \<and> sst_serves (crc32c D) r (mt_store D m)"
proof -
  obtain bs where bs: "write_sst D m = Some (sst_image (crc32c D) bs)"
    "concat bs = sst_entries D m" "\<forall>b \<in> set bs. b \<noteq> []"
    using write_sst_image [OF assms(2)] by blast
  obtain r where r: "sst_open (crc32c D) (sst_image (crc32c D) bs) n = Inr r" "sr_file_no r = n"
    "list_all2 (block_at (crc32c D) r) (sr_index r) bs"
    using sst_open_image [of bs] bs assms(2) by metis
  have "strict_keys (concat bs)"
    using strict_keys_sst_entries [OF assms(1)] bs(2) by simp
  note rd = sst_get_map_of [OF r(3) this] sst_seek_al_seek [OF r(3) this]
  have "sst_get (crc32c D) r cf key = Inr (mt_store D m cf key)" for cf key
    by (cases "mt_store D m cf key") (simp_all add: rd bs(2) map_of_sst_entries ok_or_def)
  then have "sst_serves (crc32c D) r (mt_store D m)"
    using decode_seek_sst_entries [OF assms(1)] by (simp add: sst_serves_def rd bs(2))
  with bs(1) r show ?thesis by blast
qed

end

end
