(* ===== verification/Wal.thy ===== *)
theory Wal
  imports Encoding
begin

text \<open>
  \<open>engine/src/wal.rs\<close>: the framing of write-ahead-log records and their replay. A segment
  file is its bytes; the checksum \<open>crc\<close> is a parameter. The lemmas show that replay yields
  exactly the intact records and that cutting a segment short (a torn tail) loses only records
  at its end.
\<close>

definition HEADER_LEN :: nat where "HEADER_LEN = 8"
definition SEQ_LEN :: nat where "SEQ_LEN = 8"

record wal_writer =
  ww_file :: bytes
  ww_written :: nat

definition wal_create :: wal_writer where
  "wal_create = \<lparr>ww_file = [], ww_written = 0\<rparr>"

definition wal_open_append :: "bytes option \<Rightarrow> wal_writer" where
  "wal_open_append file = (let f = (case file of None \<Rightarrow> [] | Some bs \<Rightarrow> bs)
     in \<lparr>ww_file = f, ww_written = length f\<rparr>)"

definition wal_frame :: "(bytes \<Rightarrow> u32) \<Rightarrow> u64 \<Rightarrow> bytes \<Rightarrow> bytes" where
  "wal_frame crc seq payload =
     (let body = u64_to_be seq @ payload
      in u32_to_be (word_of_nat (SEQ_LEN + length payload)) @ u32_to_be (crc body) @ body)"

definition wal_append :: "(bytes \<Rightarrow> u32) \<Rightarrow> wal_writer \<Rightarrow> u64 \<Rightarrow> bytes \<Rightarrow> wal_writer" where
  "wal_append crc w seq payload =
     (let frame = wal_frame crc seq payload
      in w\<lparr>ww_file := ww_file w @ frame, ww_written := ww_written w + length frame\<rparr>)"

definition next_record :: "(bytes \<Rightarrow> u32) \<Rightarrow> bytes \<Rightarrow> nat \<Rightarrow> ((u64 \<times> bytes) \<times> nat) option" where
  "next_record crc buf pos =
     (if pos + HEADER_LEN > length buf then None
      else
        let len = unat (u32_of_be (slice buf pos (pos + 4)));
            c = u32_of_be (slice buf (pos + 4) (pos + 8));
            body_start = pos + HEADER_LEN;
            body_end = body_start + len
        in if body_end > length buf then None
           else
             let body = slice buf body_start body_end
             in if crc body \<noteq> c then None
                else if length body < SEQ_LEN then None
                else Some ((u64_of_be (slice body 0 SEQ_LEN), drop SEQ_LEN body), body_end))"

lemma next_record_advances:
  "next_record crc buf pos = Some (r, pos') \<Longrightarrow> pos < pos' \<and> pos' \<le> length buf"
  by (auto simp: next_record_def Let_def HEADER_LEN_def split: if_splits)

text \<open>\<open>while let Some(r) = reader.next_record()\<close>, with the reader's final position
  (\<open>valid_len\<close>).\<close>

function wal_records :: "(bytes \<Rightarrow> u32) \<Rightarrow> bytes \<Rightarrow> nat \<Rightarrow> (u64 \<times> bytes) list \<times> nat" where
  "wal_records crc buf pos = (case next_record crc buf pos of
     None \<Rightarrow> ([], pos)
   | Some (r, pos') \<Rightarrow> (case wal_records crc buf pos' of (rs, n) \<Rightarrow> (r # rs, n)))"
  by pat_completeness auto
termination
  by (relation "measure (\<lambda>(crc, buf, pos). length buf - pos)") (auto dest!: next_record_advances)

declare wal_records.simps [simp del]

section \<open>Replay\<close>

definition payload_fits :: "bytes \<Rightarrow> bool" where
  "payload_fits payload \<longleftrightarrow> SEQ_LEN + length payload < 2 ^ 32"

definition wal_image :: "(bytes \<Rightarrow> u32) \<Rightarrow> (u64 \<times> bytes) list \<Rightarrow> bytes" where
  "wal_image crc rs = concat (map (\<lambda>(seq, payload). wal_frame crc seq payload) rs)"

lemma wal_image_simps [simp]:
  "wal_image crc [] = []"
  "wal_image crc ((seq, payload) # rs) = wal_frame crc seq payload @ wal_image crc rs"
  "wal_image crc (rs @ rs') = wal_image crc rs @ wal_image crc rs'"
  by (simp_all add: wal_image_def)

lemma length_wal_frame [simp]: "length (wal_frame crc seq payload) = 16 + length payload"
  by (simp add: wal_frame_def Let_def)

lemma next_record_frame:
  assumes "length pre = pos" and "payload_fits payload"
  shows "next_record crc (pre @ wal_frame crc seq payload @ post) pos
    = Some ((seq, payload), pos + length (wal_frame crc seq payload))"
proof -
  let ?body = "u64_to_be seq @ payload"
  let ?l = "u32_to_be (word_of_nat (SEQ_LEN + length payload))" and ?c = "u32_to_be (crc ?body)"
  let ?buf = "pre @ wal_frame crc seq payload @ post"
  have buf: "?buf = pre @ ?l @ ?c @ ?body @ post"
    by (simp add: wal_frame_def Let_def)
  have "slice ?buf pos (pos + 4) = ?l"
    using slice_mid [of pre pos ?l "pos + 4" "?c @ ?body @ post"] assms(1) by (simp add: buf)
  moreover have "slice ?buf (pos + 4) (pos + 8) = ?c"
    using slice_mid [of "pre @ ?l" "pos + 4" ?c "pos + 8" "?body @ post"] assms(1) by (simp add: buf)
  moreover have "slice ?buf (pos + 8) (pos + 8 + length ?body) = ?body"
    using slice_mid [of "pre @ ?l @ ?c" "pos + 8" ?body "pos + 8 + length ?body" post] assms(1)
    by (simp add: buf)
  moreover have "unat (word_of_nat (SEQ_LEN + length payload) :: u32) = length ?body"
    using assms(2) unat_u32_of_nat [of "SEQ_LEN + length payload"]
    by (simp add: payload_fits_def SEQ_LEN_def)
  ultimately show ?thesis
    using assms(1) by (simp add: next_record_def Let_def HEADER_LEN_def SEQ_LEN_def)
qed

text \<open>A frame cut short is not a record, whatever the checksum.\<close>

lemma next_record_torn:
  assumes "length pre = pos" and "payload_fits payload" and "n < length (wal_frame crc seq payload)"
  shows "next_record crc (pre @ take n (wal_frame crc seq payload)) pos = None"
proof (cases "n < HEADER_LEN")
  case True
  then show ?thesis
    using assms by (simp add: next_record_def)
next
  case False
  let ?l = "u32_to_be (word_of_nat (SEQ_LEN + length payload))"
  let ?t = "take n (wal_frame crc seq payload)"
  have "take 4 ?t = ?l"
    using False by (simp add: wal_frame_def Let_def HEADER_LEN_def min_def)
  then have "slice (pre @ ?t) pos (pos + 4) = ?l"
    using assms(1) by (simp add: slice_def)
  moreover have "unat (word_of_nat (SEQ_LEN + length payload) :: u32) = 8 + length payload"
    using assms(2) unat_u32_of_nat [of "SEQ_LEN + length payload"]
    by (simp add: payload_fits_def SEQ_LEN_def)
  ultimately show ?thesis
    using assms by (simp add: next_record_def HEADER_LEN_def)
qed

lemma wal_records_at:
  assumes "length pre = pos" and "\<forall>r \<in> set rs. payload_fits (snd r)"
    and "next_record crc (pre @ wal_image crc rs @ post) (pos + length (wal_image crc rs)) = None"
  shows "wal_records crc (pre @ wal_image crc rs @ post) pos
    = (rs, pos + length (wal_image crc rs))"
  using assms
proof (induction rs arbitrary: pre pos)
  case Nil
  then show ?case by (simp add: wal_records.simps)
next
  case (Cons r rs)
  obtain seq payload where r: "r = (seq, payload)" by (cases r)
  let ?f = "wal_frame crc seq payload"
  let ?buf = "pre @ wal_image crc (r # rs) @ post"
  have nx: "next_record crc ?buf pos = Some ((seq, payload), pos + length ?f)"
    using next_record_frame [of pre pos payload crc seq "wal_image crc rs @ post"] Cons.prems(1,2)
    by (simp add: r)
  have "wal_records crc ((pre @ ?f) @ wal_image crc rs @ post) (pos + length ?f)
      = (rs, pos + length ?f + length (wal_image crc rs))"
    using Cons.prems by (intro Cons.IH) (simp_all add: r add.assoc)
  with nx show ?case
    by (subst wal_records.simps) (simp add: r)
qed

text \<open>A segment holding whole frames followed by a torn one replays the whole frames.\<close>

lemma wal_records_torn:
  assumes "\<forall>r \<in> set rs. payload_fits (snd r)" and "payload_fits payload"
    and "n < length (wal_frame crc seq payload)"
  shows "wal_records crc (wal_image crc rs @ take n (wal_frame crc seq payload)) 0
    = (rs, length (wal_image crc rs))"
  using wal_records_at [of "[]" 0 rs crc "take n (wal_frame crc seq payload)"]
    next_record_torn [of "wal_image crc rs" _ payload n crc seq] assms
  by simp

lemma wal_records_image:
  assumes "\<forall>r \<in> set rs. payload_fits (snd r)"
  shows "wal_records crc (wal_image crc rs) 0 = (rs, length (wal_image crc rs))"
proof -
  have "next_record crc (wal_image crc rs) (length (wal_image crc rs)) = None"
    by (simp add: next_record_def HEADER_LEN_def)
  then show ?thesis
    using wal_records_at [of "[]" 0 rs crc "[]"] assms by simp
qed

text \<open>Cutting a segment at any byte keeps exactly the records whose frames lie before the cut.\<close>

fun intact_prefix :: "(bytes \<Rightarrow> u32) \<Rightarrow> nat \<Rightarrow> (u64 \<times> bytes) list \<Rightarrow> (u64 \<times> bytes) list" where
  "intact_prefix crc n [] = []"
| "intact_prefix crc n ((seq, payload) # rs) =
     (let l = length (wal_frame crc seq payload)
      in if n < l then [] else (seq, payload) # intact_prefix crc (n - l) rs)"

lemma wal_image_take:
  "\<exists>k. intact_prefix crc n rs = take k rs \<and> k \<le> length rs \<and>
     take n (wal_image crc rs) = wal_image crc (take k rs) @
       (if k < length rs then take (n - length (wal_image crc (take k rs)))
          (wal_frame crc (fst (rs ! k)) (snd (rs ! k))) else []) \<and>
     (k < length rs \<longrightarrow> n - length (wal_image crc (take k rs))
        < length (wal_frame crc (fst (rs ! k)) (snd (rs ! k))))"
proof (induction rs arbitrary: n)
  case Nil
  then show ?case by simp
next
  case (Cons r rs)
  obtain seq payload where r: "r = (seq, payload)" by (cases r)
  let ?l = "length (wal_frame crc seq payload)"
  show ?case
  proof (cases "n < ?l")
    case True
    then show ?thesis
      by (intro exI [of _ 0]) (simp add: r Let_def)
  next
    case False
    from Cons.IH [of "n - ?l"] obtain k where k:
      "intact_prefix crc (n - ?l) rs = take k rs" "k \<le> length rs"
      "take (n - ?l) (wal_image crc rs) = wal_image crc (take k rs) @
        (if k < length rs then take (n - ?l - length (wal_image crc (take k rs)))
          (wal_frame crc (fst (rs ! k)) (snd (rs ! k))) else [])"
      "k < length rs \<longrightarrow> n - ?l - length (wal_image crc (take k rs))
        < length (wal_frame crc (fst (rs ! k)) (snd (rs ! k)))"
      by blast
    with False show ?thesis
      by (intro exI [of _ "Suc k"]) (auto simp: r Let_def)
  qed
qed

lemma wal_records_cut_take:
  assumes "\<forall>r \<in> set rs. payload_fits (snd r)"
  shows "\<exists>k. intact_prefix crc n rs = take k rs \<and>
    wal_records crc (take n (wal_image crc rs)) 0 = (take k rs, length (wal_image crc (take k rs))) \<and>
    take (length (wal_image crc (take k rs))) (take n (wal_image crc rs)) = wal_image crc (take k rs) \<and>
    (\<forall>j \<le> length rs. length (wal_image crc (take j rs)) \<le> n \<longrightarrow> j \<le> k)"
proof -
  obtain k where k: "intact_prefix crc n rs = take k rs" "k \<le> length rs"
    "take n (wal_image crc rs) = wal_image crc (take k rs) @
       (if k < length rs then take (n - length (wal_image crc (take k rs)))
          (wal_frame crc (fst (rs ! k)) (snd (rs ! k))) else [])"
    "k < length rs \<longrightarrow> n - length (wal_image crc (take k rs))
        < length (wal_frame crc (fst (rs ! k)) (snd (rs ! k)))"
    using wal_image_take by blast
  have fits: "\<forall>r \<in> set (take k rs). payload_fits (snd r)"
    using assms by (meson in_set_takeD)
  have "wal_records crc (take n (wal_image crc rs)) 0 = (take k rs, length (wal_image crc (take k rs)))"
  proof (cases "k < length rs")
    case True
    then show ?thesis
      using k(3,4) fits assms
        wal_records_torn [of "take k rs" "snd (rs ! k)" "n - length (wal_image crc (take k rs))" crc "fst (rs ! k)"]
      by simp
  qed (use k fits in \<open>simp add: wal_records_image\<close>)
  moreover have "j \<le> k" if j: "j \<le> length rs" "length (wal_image crc (take j rs)) \<le> n" for j
  proof (rule ccontr)
    assume "\<not> j \<le> k"
    then have split: "take j rs = take k rs @ [(fst (rs ! k), snd (rs ! k))] @ drop (Suc k) (take j rs)"
      using id_take_nth_drop [of k "take j rs"] j(1) by (simp add: min_def)
    have "wal_image crc (take j rs) = wal_image crc (take k rs) @
        wal_frame crc (fst (rs ! k)) (snd (rs ! k)) @ wal_image crc (drop (Suc k) (take j rs))"
      by (subst split) (simp add: wal_image_def split_def)
    then show False using k(4) j \<open>\<not> j \<le> k\<close> by simp
  qed
  ultimately show ?thesis using k(1,3) by (intro exI [of _ k]) simp
qed

lemma wal_records_cut:
  assumes "\<forall>r \<in> set rs. payload_fits (snd r)"
  shows "fst (wal_records crc (take n (wal_image crc rs)) 0) = intact_prefix crc n rs"
  using wal_records_cut_take [OF assms, of crc n] by force

end
