(* ===== verification/Manifest.thy ===== *)
theory Manifest
  imports Engine_Error Encoding
begin

text \<open>
  \<open>engine/src/manifest.rs\<close>: the durable record of the live tables and of the flushed
  watermark. The file is replaced atomically (write, fsync, rename), so it is its latest image
  or absent. The lemmas show that loading what was stored gives the manifest back.
\<close>

definition MANIFEST_MAGIC :: u64 where "MANIFEST_MAGIC = 0x4d414e49463031"

record manifest =
  mf_last_flushed_seq :: u64
  mf_sstables :: "u64 list"

definition manifest_default :: manifest where
  "manifest_default = \<lparr>mf_last_flushed_seq = 0, mf_sstables = []\<rparr>"

definition manifest_body :: "manifest \<Rightarrow> bytes" where
  "manifest_body m = u64_to_be MANIFEST_MAGIC @ u64_to_be (mf_last_flushed_seq m) @
     u32_to_be (word_of_nat (length (mf_sstables m))) @ concat (map u64_to_be (mf_sstables m))"

definition manifest_encode :: "(bytes \<Rightarrow> u32) \<Rightarrow> manifest \<Rightarrow> bytes" where
  "manifest_encode crc m = (let buf = manifest_body m in buf @ u32_to_be (crc buf))"

text \<open>The loop over \<open>0..count\<close> at cursor \<open>pos\<close>.\<close>

fun decode_sstables :: "bytes \<Rightarrow> nat \<Rightarrow> nat \<Rightarrow> u64 list res" where
  "decode_sstables body 0 pos = Inr []"
| "decode_sstables body (Suc count) pos =
     (if pos + 8 > length body then Inl (Corruption ''manifest truncated'')
      else res_bind (decode_sstables body count (pos + 8)) (\<lambda>ns.
        Inr (u64_of_be (slice body pos (pos + 8)) # ns)))"

definition manifest_decode :: "(bytes \<Rightarrow> u32) \<Rightarrow> bytes \<Rightarrow> manifest res" where
  "manifest_decode crc data =
     (if length data < 8 + 8 + 4 + 4 then Inl (Corruption ''manifest too small'')
      else
        let body = take (length data - 4) data;
            crc_b = drop (length data - 4) data
        in if crc body \<noteq> u32_of_be crc_b then Inl (Corruption ''manifest crc mismatch'')
           else if u64_of_be (slice body 0 8) \<noteq> MANIFEST_MAGIC then Inl (Corruption ''manifest bad magic'')
           else
             let last_flushed_seq = u64_of_be (slice body 8 16);
                 count = unat (u32_of_be (slice body 16 20))
             in res_bind (decode_sstables body count 20) (\<lambda>sstables.
                  Inr \<lparr>mf_last_flushed_seq = last_flushed_seq, mf_sstables = sstables\<rparr>))"

text \<open>\<open>load\<close> on the file's contents, \<open>None\<close> when there is no file.\<close>

definition manifest_load :: "(bytes \<Rightarrow> u32) \<Rightarrow> bytes option \<Rightarrow> manifest res" where
  "manifest_load crc file = (case file of
     None \<Rightarrow> Inr manifest_default
   | Some data \<Rightarrow> manifest_decode crc data)"

section \<open>Round trip\<close>

lemma decode_sstables_at:
  assumes "length pre = pos"
  shows "decode_sstables (pre @ concat (map u64_to_be ns)) (length ns) pos = Inr ns"
  using assms
proof (induction ns arbitrary: pre pos)
  case (Cons n ns)
  have "slice (pre @ u64_to_be n @ concat (map u64_to_be ns)) pos (pos + 8) = u64_to_be n"
    using Cons.prems by (intro slice_mid) simp_all
  moreover have "decode_sstables ((pre @ u64_to_be n) @ concat (map u64_to_be ns)) (length ns) (pos + 8)
      = Inr ns"
    using Cons.prems by (intro Cons.IH) simp
  ultimately show ?case
    using Cons.prems by simp
qed simp

lemma manifest_roundtrip [codec_simps]:
  assumes "length (mf_sstables m) < 2 ^ 32"
  shows "manifest_decode crc (manifest_encode crc m) = Inr m"
proof -
  let ?mg = "u64_to_be MANIFEST_MAGIC" and ?lf = "u64_to_be (mf_last_flushed_seq m)"
  let ?ct = "u32_to_be (word_of_nat (length (mf_sstables m)))"
  let ?ns = "concat (map u64_to_be (mf_sstables m))"
  let ?body = "manifest_body m"
  have body: "?body = ?mg @ ?lf @ ?ct @ ?ns"
    by (simp add: manifest_body_def)
  have "slice ?body 0 8 = ?mg" "slice ?body 8 16 = ?lf" "slice ?body 16 20 = ?ct"
    using slice_mid [of "[]" 0 ?mg 8 "?lf @ ?ct @ ?ns"] slice_mid [of ?mg 8 ?lf 16 "?ct @ ?ns"]
      slice_mid [of "?mg @ ?lf" 16 ?ct 20 ?ns]
    by (simp_all add: body)
  moreover have "decode_sstables ?body (length (mf_sstables m)) 20 = Inr (mf_sstables m)"
    using decode_sstables_at [of "?mg @ ?lf @ ?ct" 20 "mf_sstables m"] by (simp add: body)
  moreover have "20 \<le> length ?body"
    by (simp add: body)
  ultimately show ?thesis
    using unat_u32_of_nat [OF assms]
    by (simp add: manifest_decode_def manifest_encode_def Let_def)
qed

end
