(* ===== verification/Engine_Core.thy ===== *)
theory Engine_Core
  imports Kv Sstable Wal Manifest "HOL-Library.AList"
begin

text \<open>
  \<open>engine/src/db.rs\<close>: the engine core. Reads merge the levels (active memtable, frozen
  memtables, tables) newest first; the committer turns a group of requests into log records and
  memtable updates, syncs once, and freezes and flushes a full memtable. File operations are
  asked of an \<open>io_env\<close> that says which of them fail. The lemmas show that reads answer from
  the overlay of the levels, that a group applies exactly the batches it acknowledges, in order,
  and that rotation and flushing never change what is read.
\<close>

definition MAX_GROUP :: nat where "MAX_GROUP = 1024"

text \<open>The core's state. The open log segment is \<open>co_wal\<close>, numbered \<open>co_wal_no\<close>; the files
  of the data directory are kept by number, as the names encode them.\<close>

record 'm core =
  co_threshold :: nat
  co_active :: "'m memtable"
  co_immutable :: "'m memtable list"
  co_sstables :: "sst_reader list"
  co_wal :: wal_writer
  co_wal_no :: u64
  co_seq :: u64
  co_last_flushed_seq :: u64
  co_next_seg :: u64
  co_next_sst :: u64
  co_old_segs :: "(u64 \<times> bytes) list"
  co_sst_files :: "(u64 \<times> bytes) list"
  co_manifest :: "bytes option"

text \<open>Outcomes of the file operations of one group: a failing write leaves the prefix it got
  to, every other failure leaves the file system as it was.\<close>

record io_env =
  io_append :: "u64 \<Rightarrow> nat option"
  io_sync :: bool
  io_create :: bool
  io_sst :: "nat option"
  io_manifest :: bool

definition io_ok :: io_env where
  "io_ok = \<lparr>io_append = (\<lambda>_. None), io_sync = True, io_create = True, io_sst = None, io_manifest = True\<rparr>"

section \<open>Reads across the levels\<close>

fun get_mems :: "'m mem_deps \<Rightarrow> 'm memtable list \<Rightarrow> cf \<Rightarrow> bytes \<Rightarrow> mem_value option" where
  "get_mems D [] cf key = None"
| "get_mems D (m # ms) cf key = (case mt_get_cf D m cf key of
     Some v \<Rightarrow> Some v
   | None \<Rightarrow> get_mems D ms cf key)"

fun get_ssts :: "(bytes \<Rightarrow> u32) \<Rightarrow> sst_reader list \<Rightarrow> cf \<Rightarrow> bytes \<Rightarrow> mem_value option res" where
  "get_ssts crc [] cf key = Inr None"
| "get_ssts crc (r # rs) cf key =
     res_bind (sst_get crc r cf key) (\<lambda>v. case v of
       Some v \<Rightarrow> Inr (Some v)
     | None \<Rightarrow> get_ssts crc rs cf key)"

definition core_get_cf :: "'m mem_deps \<Rightarrow> 'm core \<Rightarrow> cf \<Rightarrow> bytes \<Rightarrow> bytes option res" where
  "core_get_cf D c cf key = (case get_mems D (co_active c # rev (co_immutable c)) cf key of
     Some v \<Rightarrow> Inr (into_present v)
   | None \<Rightarrow> res_bind (get_ssts (crc32c D) (rev (co_sstables c)) cf key) (\<lambda>v.
       Inr (Option.bind v into_present)))"

type_synonym cand = "bytes \<times> mem_value \<times> nat"

text \<open>One candidate per level that has one, ranked newest first.\<close>

fun mem_cands :: "'m mem_deps \<Rightarrow> 'm memtable list \<Rightarrow> nat \<Rightarrow> cf \<Rightarrow> bytes \<Rightarrow> cand list" where
  "mem_cands D [] rank cf from = []"
| "mem_cands D (m # ms) rank cf from =
     (case mt_seek_cf D m cf from of None \<Rightarrow> [] | Some (k, v) \<Rightarrow> [(k, v, rank)]) @
     mem_cands D ms (rank + 1) cf from"

fun sst_cands :: "(bytes \<Rightarrow> u32) \<Rightarrow> sst_reader list \<Rightarrow> nat \<Rightarrow> cf \<Rightarrow> bytes \<Rightarrow> cand list res" where
  "sst_cands crc [] rank cf from = Inr []"
| "sst_cands crc (r # rs) rank cf from =
     res_bind (sst_seek crc r cf from) (\<lambda>hit.
       res_bind (sst_cands crc rs (rank + 1) cf from) (\<lambda>cs.
         Inr ((case hit of None \<Rightarrow> [] | Some (k, v) \<Rightarrow> [(k, v, rank)]) @ cs)))"

text \<open>\<open>min_by\<close> with the comparison by key, then by rank; the first of equal elements wins.\<close>

fun cand_less :: "cand \<Rightarrow> cand \<Rightarrow> bool" where
  "cand_less (k, _, r) (k', _, r') \<longleftrightarrow> k < k' \<or> k = k' \<and> r < r'"

fun min_cand :: "cand list \<Rightarrow> cand option" where
  "min_cand [] = None"
| "min_cand (x # xs) = Some (fold (\<lambda>y m. if cand_less y m then y else m) xs x)"

definition core_seek_cf :: "'m mem_deps \<Rightarrow> 'm core \<Rightarrow> cf \<Rightarrow> bytes \<Rightarrow> (bytes \<times> mem_value) option res" where
  "core_seek_cf D c cf from =
     (let mems = co_active c # rev (co_immutable c);
          cands = mem_cands D mems 0 cf from
      in res_bind (sst_cands (crc32c D) (rev (co_sstables c)) (length mems) cf from) (\<lambda>cs.
           Inr (map_option (\<lambda>(k, v, _). (k, v)) (min_cand (cands @ cs)))))"

definition core_kv :: "'m mem_deps \<Rightarrow> 'm core \<Rightarrow> kv" where
  "core_kv D c = \<lparr>kv_get = core_get_cf D c, kv_seek = core_seek_cf D c\<rparr>"

section \<open>The committer\<close>

text \<open>One request of a group: decide, append, apply. The flag says whether a record was
  appended.\<close>

definition apply_request :: "'m mem_deps \<Rightarrow> io_env \<Rightarrow> 'm core \<Rightarrow> op \<Rightarrow> 'm core \<times> u64 res \<times> bool" where
  "apply_request D io c op = (case request_batch (core_kv D c) op of
     Inl e \<Rightarrow> (c, Inl e, False)
   | Inr None \<Rightarrow> (c, Inr 0, False)
   | Inr (Some b) \<Rightarrow>
       let seq = co_seq c + 1;
           c = c\<lparr>co_seq := seq\<rparr>
       in (case io_append io seq of
             None \<Rightarrow>
               (c\<lparr>co_wal := wal_append (crc32c D) (co_wal c) seq (batch_encode b),
                  co_active := mt_apply D (co_active c) seq b\<rparr>, Inr seq, True)
           | Some n \<Rightarrow>
               (c\<lparr>co_wal := (co_wal c)\<lparr>ww_file := ww_file (co_wal c) @
                   take n (wal_frame (crc32c D) seq (batch_encode b))\<rparr>\<rparr>, Inl Io, False)))"

fun apply_requests :: "'m mem_deps \<Rightarrow> io_env \<Rightarrow> 'm core \<Rightarrow> op list \<Rightarrow> 'm core \<times> u64 res list \<times> bool" where
  "apply_requests D io c [] = (c, [], False)"
| "apply_requests D io c (op # os) =
     (case apply_request D io c op of (c, r, appended) \<Rightarrow>
      case apply_requests D io c os of (c, rs, appended') \<Rightarrow>
        (c, r # rs, appended \<or> appended'))"

definition rotate_wal :: "'m mem_deps \<Rightarrow> io_env \<Rightarrow> 'm core \<Rightarrow> 'm core" where
  "rotate_wal D io c =
     (let c = c\<lparr>co_active := mt_new D, co_immutable := co_immutable c @ [co_active c]\<rparr>;
          n = co_next_seg c;
          c = c\<lparr>co_next_seg := n + 1\<rparr>
      in if io_create io
         then c\<lparr>co_old_segs := co_old_segs c @ [(co_wal_no c, ww_file (co_wal c))],
                co_wal := wal_create, co_wal_no := n\<rparr>
         else c)"

definition persist_manifest :: "'m mem_deps \<Rightarrow> io_env \<Rightarrow> 'm core \<Rightarrow> 'm core \<times> unit res" where
  "persist_manifest D io c =
     (let m = \<lparr>mf_last_flushed_seq = co_last_flushed_seq c, mf_sstables = map sr_file_no (co_sstables c)\<rparr>
      in if io_manifest io then (c\<lparr>co_manifest := Some (manifest_encode (crc32c D) m)\<rparr>, Inr ())
         else (c, Inl Io))"

text \<open>The part of \<open>flush_memtable\<close> that writes and installs the table. A file of a number in
  use is overwritten. The \<open>None\<close> of \<open>write_sst\<close> is a panic of the writer;
  lemma \<open>write_sst_image\<close> excludes it for tables whose lengths fit.\<close>

definition install_sst :: "'m mem_deps \<Rightarrow> io_env \<Rightarrow> 'm core \<Rightarrow> 'm memtable \<Rightarrow> 'm core \<times> unit res" where
  "install_sst D io c frozen =
     (if mt_is_empty frozen then (c, Inr ())
      else
        let n = co_next_sst c;
            c = c\<lparr>co_next_sst := n + 1\<rparr>
        in (case write_sst D frozen of
              None \<Rightarrow> (c, Inl (Corruption ''panic: non-empty block has a first key''))
            | Some file \<Rightarrow>
                (case io_sst io of
                   Some k \<Rightarrow> (c\<lparr>co_sst_files := AList.update n (take k file) (co_sst_files c)\<rparr>, Inl Io)
                 | None \<Rightarrow>
                     let c = c\<lparr>co_sst_files := AList.update n file (co_sst_files c)\<rparr>
                     in (case sst_open (crc32c D) file n of
                           Inl e \<Rightarrow> (c, Inl e)
                         | Inr reader \<Rightarrow> (c\<lparr>co_sstables := co_sstables c @ [reader]\<rparr>, Inr ())))))"

text \<open>\<open>flush_memtable\<close> of the memtable \<open>rotate\<close> has just queued: pointer equality finds it
  at the end of the queue.\<close>

definition flush_memtable :: "'m mem_deps \<Rightarrow> io_env \<Rightarrow> 'm core \<Rightarrow> 'm core \<times> unit res" where
  "flush_memtable D io c =
     (let frozen = last (co_immutable c)
      in case install_sst D io c frozen of
           (c, Inl e) \<Rightarrow> (c, Inl e)
         | (c, Inr _) \<Rightarrow>
             let c = c\<lparr>co_last_flushed_seq := max (co_last_flushed_seq c) (mt_max_seq frozen)\<rparr>
             in (case persist_manifest D io c of
                   (c, Inl e) \<Rightarrow> (c, Inl e)
                 | (c, Inr _) \<Rightarrow> (c\<lparr>co_immutable := butlast (co_immutable c)\<rparr>, Inr ())))"

fun fail_ok :: "u64 res \<Rightarrow> u64 res" where
  "fail_ok (Inr _) = Inl (Corruption ''group fsync failed'')"
| "fail_ok (Inl e) = Inl e"

definition process_group :: "'m mem_deps \<Rightarrow> io_env \<Rightarrow> 'm core \<Rightarrow> op list \<Rightarrow> 'm core \<times> u64 res list" where
  "process_group D io c reqs =
     (case apply_requests D io c reqs of (c, results, appended) \<Rightarrow>
        if appended \<and> \<not> io_sync io then (c, map fail_ok results)
        else if mt_size (co_active c) \<ge> co_threshold c
        then (fst (flush_memtable D io (rotate_wal D io c)), results)
        else (c, results))"

text \<open>The committer's loop: each round blocks for one request and then takes what has arrived by
  then, up to \<open>MAX_GROUP\<close> requests. The queue is what was submitted before the channel closed,
  \<open>arrived i\<close> is how much of it the channel holds when round \<open>i\<close> drains it, and \<open>ios\<close> gives the
  file outcomes of the rounds.\<close>

function run_committer :: "'m mem_deps \<Rightarrow> (nat \<Rightarrow> io_env) \<Rightarrow> (nat \<Rightarrow> nat) \<Rightarrow> nat \<Rightarrow> 'm core \<Rightarrow> op list
    \<Rightarrow> 'm core \<times> u64 res list" where
  "run_committer D ios arrived i c queue =
     (if queue = [] then (c, [])
      else
        let n = min MAX_GROUP (max 1 (arrived i))
        in case process_group D (ios i) c (take n queue) of (c, rs) \<Rightarrow>
           case run_committer D ios arrived (i + 1) c (drop n queue) of (c, rs') \<Rightarrow> (c, rs @ rs'))"
  by pat_completeness auto
termination
  by (relation "measure (\<lambda>(D, ios, arrived, i, c, queue). length queue)") (auto simp: MAX_GROUP_def)

declare run_committer.simps [simp del]

section \<open>Recovery\<close>

text \<open>The data directory: log segments and tables by number, and the manifest.\<close>

record disk =
  dk_segs :: "(u64 \<times> bytes) list"
  dk_ssts :: "(u64 \<times> bytes) list"
  dk_manifest :: "bytes option"

definition list_numbered :: "(u64 \<times> bytes) list \<Rightarrow> (u64 \<times> bytes) list" where
  "list_numbered files = sort_key fst files"

fun open_ssts :: "(bytes \<Rightarrow> u32) \<Rightarrow> (u64 \<times> bytes) list \<Rightarrow> u64 list \<Rightarrow> sst_reader list res" where
  "open_ssts crc files [] = Inr []"
| "open_ssts crc files (n # ns) =
     (case map_of files n of
        None \<Rightarrow> Inl Io
      | Some file \<Rightarrow> res_bind (sst_open crc file n) (\<lambda>r.
          res_bind (open_ssts crc files ns) (\<lambda>rs. Inr (r # rs))))"

text \<open>The inner replay loop over the records of one segment: the memtable, the highest sequence
  number seen, and whether a record above the watermark was met.\<close>

fun replay_records :: "'m mem_deps \<Rightarrow> u64 \<Rightarrow> (u64 \<times> bytes) list \<Rightarrow> 'm memtable \<Rightarrow> u64 \<Rightarrow> bool
    \<Rightarrow> ('m memtable \<times> u64 \<times> bool) res" where
  "replay_records D last_flushed [] active max_seq has_live = Inr (active, max_seq, has_live)"
| "replay_records D last_flushed ((seq, payload) # rs) active max_seq has_live =
     (let max_seq = max max_seq seq
      in if last_flushed < seq
         then res_bind (ok_or (batch_decode payload) (Corruption ''WAL batch decode failed'')) (\<lambda>b.
           replay_records D last_flushed rs (mt_apply D active seq b) max_seq True)
         else replay_records D last_flushed rs active max_seq has_live)"

fun replay_segs :: "'m mem_deps \<Rightarrow> u64 \<Rightarrow> (u64 \<times> bytes) list \<Rightarrow> 'm memtable \<Rightarrow> u64 \<Rightarrow> u64 \<Rightarrow> u64 list
    \<Rightarrow> ('m memtable \<times> u64 \<times> u64 \<times> u64 list) res" where
  "replay_segs D last_flushed [] active max_seq max_seg_no dead =
     Inr (active, max_seq, max_seg_no, dead)"
| "replay_segs D last_flushed ((segno, file) # segs) active max_seq max_seg_no dead =
     res_bind (replay_records D last_flushed (fst (wal_records (crc32c D) file 0)) active max_seq False)
       (\<lambda>(active, max_seq, has_live).
         replay_segs D last_flushed segs active max_seq (max max_seg_no segno)
           (if has_live then dead else dead @ [segno]))"

definition engine_open :: "'m mem_deps \<Rightarrow> nat \<Rightarrow> disk \<Rightarrow> 'm core res" where
  "engine_open D threshold dk =
     res_bind (manifest_load (crc32c D) (dk_manifest dk)) (\<lambda>manifest.
     let last_flushed = mf_last_flushed_seq manifest
     in res_bind (open_ssts (crc32c D) (dk_ssts dk) (mf_sstables manifest)) (\<lambda>sstables.
        res_bind (replay_segs D last_flushed (list_numbered (dk_segs dk)) (mt_new D) last_flushed 0 [])
          (\<lambda>(active, max_seq, max_seg_no, dead).
            let max_sst_no = fold max (mf_sstables manifest) 0;
                new_seg = max_seg_no + 1
            in Inr \<lparr>co_threshold = threshold, co_active = active, co_immutable = [],
                 co_sstables = sstables, co_wal = wal_create, co_wal_no = new_seg,
                 co_seq = max_seq, co_last_flushed_seq = last_flushed,
                 co_next_seg = new_seg + 1, co_next_sst = max_sst_no + 1,
                 co_old_segs = filter (\<lambda>(n, _). n \<notin> set dead) (dk_segs dk),
                 co_sst_files = filter (\<lambda>(n, _). n \<in> set (mf_sstables manifest)) (dk_ssts dk),
                 co_manifest = dk_manifest dk\<rparr>)))"

text \<open>What is on disk when the process dies with the first \<open>n\<close> bytes of the open segment
  written back.\<close>

definition crash_disk :: "'m core \<Rightarrow> nat \<Rightarrow> disk" where
  "crash_disk c n = \<lparr>dk_segs = co_old_segs c @ [(co_wal_no c, take n (ww_file (co_wal c)))],
     dk_ssts = co_sst_files c, dk_manifest = co_manifest c\<rparr>"

section \<open>Requests of the public handle\<close>

definition submit :: "'m mem_deps \<Rightarrow> io_env \<Rightarrow> 'm core \<Rightarrow> op \<Rightarrow> 'm core \<times> u64 res" where
  "submit D io c op = (case process_group D io c [op] of (c, rs) \<Rightarrow> (c, hd rs))"

section \<open>Abstraction\<close>

text \<open>The overlay of a list of stores, newest first.\<close>

fun overlay :: "cf_store list \<Rightarrow> cf_store" where
  "overlay [] cf k = None"
| "overlay (s # ss) cf k = (case s cf k of Some v \<Rightarrow> Some v | None \<Rightarrow> overlay ss cf k)"

definition sst_store :: "(bytes \<Rightarrow> u32) \<Rightarrow> sst_reader \<Rightarrow> cf_store" where
  "sst_store crc r cf k = (case sst_get crc r cf k of Inr v \<Rightarrow> v | Inl _ \<Rightarrow> None)"

definition levels :: "'m mem_deps \<Rightarrow> 'm core \<Rightarrow> cf_store list" where
  "levels D c = map (mt_store D) (co_active c # rev (co_immutable c)) @
     map (sst_store (crc32c D)) (rev (co_sstables c))"

definition core_store :: "'m mem_deps \<Rightarrow> 'm core \<Rightarrow> cf_store" where
  "core_store D c = overlay (levels D c)"

text \<open>Well-formed levels: memtables in order, tables serving what they hold.\<close>

definition core_inv :: "'m mem_deps \<Rightarrow> 'm core \<Rightarrow> bool" where
  "core_inv D c \<longleftrightarrow> (\<forall>m \<in> set (co_active c # co_immutable c). mt_inv D m) \<and>
     (\<forall>r \<in> set (co_sstables c). sst_serves (crc32c D) r (sst_store (crc32c D) r))"

section \<open>Reads answer from the overlay\<close>

lemma overlay_append:
  "overlay (xs @ ys) cf k = (case overlay xs cf k of Some v \<Rightarrow> Some v | None \<Rightarrow> overlay ys cf k)"
  by (induction xs) (auto split: option.split)

lemma get_mems_overlay: "get_mems D ms cf key = overlay (map (mt_store D) ms) cf key"
  by (induction ms) (simp_all add: mt_store_def split: option.split)

lemma sst_get_store:
  "sst_serves crc r (sst_store crc r) \<Longrightarrow> sst_get crc r cf key = Inr (sst_store crc r cf key)"
  by (simp add: sst_serves_def)

lemma get_ssts_overlay:
  "\<forall>r \<in> set rs. sst_serves crc r (sst_store crc r) \<Longrightarrow>
     get_ssts crc rs cf key = Inr (overlay (map (sst_store crc) rs) cf key)"
  by (induction rs) (simp_all add: sst_get_store split: option.split)

lemma core_get_cf_store:
  "core_inv D c \<Longrightarrow> core_get_cf D c cf key = Inr (present (core_store D c) cf key)"
  by (simp add: core_inv_def core_get_cf_def core_store_def levels_def present_def get_mems_overlay
      get_ssts_overlay overlay_append mt_store_def split: option.split)

text \<open>The merge of two seeks: the smaller key, the newer level on a tie.\<close>

fun merge_seek :: "(bytes \<times> mem_value) option \<Rightarrow> (bytes \<times> mem_value) option \<Rightarrow> (bytes \<times> mem_value) option" where
  "merge_seek None r = r"
| "merge_seek r None = r"
| "merge_seek (Some (k, v)) (Some (k', v')) = (if k \<le> k' then Some (k, v) else Some (k', v'))"

lemma merge_seek_spec:
  assumes "seek_spec (s cf) from r" "seek_spec (overlay ss cf) from r'"
  shows "seek_spec (overlay (s # ss) cf) from (merge_seek r r')"
proof (cases r; cases r')
  fix e e' assume "r = Some e" "r' = Some e'"
  then show ?thesis
    using assms by (cases e; cases e') (auto simp: seek_spec_def split: option.splits)
qed (use assms in \<open>auto simp: seek_spec_def split: option.splits\<close>)

fun level_cands :: "(bytes \<times> mem_value) option list \<Rightarrow> nat \<Rightarrow> cand list" where
  "level_cands [] rank = []"
| "level_cands (r # rs) rank =
     (case r of None \<Rightarrow> [] | Some (k, v) \<Rightarrow> [(k, v, rank)]) @ level_cands rs (rank + 1)"

lemma level_cands_append:
  "level_cands (rs @ rs') rank = level_cands rs rank @ level_cands rs' (rank + length rs)"
  by (induction rs arbitrary: rank) simp_all

lemma mem_cands_level:
  "mem_cands D ms rank cf from = level_cands (map (\<lambda>m. mt_seek_cf D m cf from) ms) rank"
  by (induction ms arbitrary: rank) simp_all

lemma level_cands_rank: "c \<in> set (level_cands rs rank) \<Longrightarrow> rank \<le> snd (snd c)"
proof (induction rs arbitrary: rank)
  case (Cons r rs)
  then show ?case by (cases r) (fastforce dest: Suc_leD)+
qed simp

lemma min_cand_Cons:
  "min_cand (x # xs) = (case min_cand xs of None \<Rightarrow> Some x
     | Some y \<Rightarrow> Some (if cand_less y x then y else x))"
proof (induction xs arbitrary: x)
  case (Cons y ys)
  have "min_cand (x # y # ys) = min_cand ((if cand_less y x then y else x) # ys)"
    by simp
  also have "\<dots> = (case min_cand ys of None \<Rightarrow> Some (if cand_less y x then y else x)
     | Some z \<Rightarrow> Some (if cand_less z (if cand_less y x then y else x) then z
          else if cand_less y x then y else x))"
    by (rule Cons.IH)
  also have "\<dots> = (case min_cand (y # ys) of None \<Rightarrow> Some x
     | Some z \<Rightarrow> Some (if cand_less z x then z else x))"
  proof (cases "min_cand ys")
    case (Some z)
    obtain a b i where x: "x = (a, b, i)" by (cases x)
    obtain a' b' i' where y: "y = (a', b', i')" by (cases y)
    obtain a'' b'' i'' where z: "z = (a'', b'', i'')" by (cases z)
    show ?thesis
      unfolding Cons.IH Some x y z by (auto dest: less_trans)
  qed (simp add: Cons.IH del: min_cand.simps(2))
  finally show ?case .
qed simp

declare min_cand.simps(2) [simp del]

lemma min_cand_mem: "min_cand xs = Some y \<Longrightarrow> y \<in> set xs"
  by (induction xs arbitrary: y) (auto simp: min_cand_Cons split: option.splits if_splits)

lemma min_cand_levels:
  "map_option (\<lambda>(k, v, _). (k, v)) (min_cand (level_cands rs rank)) = foldr merge_seek rs None"
proof (induction rs arbitrary: rank)
  case (Cons r rs)
  note IH = Cons.IH [of "rank + 1", symmetric]
  show ?case
  proof (cases r)
    case None
    then show ?thesis using IH by simp
  next
    case (Some e)
    obtain k v where e: "e = (k, v)" by (cases e)
    show ?thesis
    proof (cases "min_cand (level_cands rs (rank + 1))")
      case None
      then show ?thesis using IH by (simp add: Some e min_cand_Cons)
    next
      case (Some y)
      obtain k' v' i where y: "y = (k', v', i)" by (cases y)
      have "y \<in> set (level_cands rs (rank + 1))"
        using Some by (rule min_cand_mem)
      then have "rank < i"
        using level_cands_rank y by fastforce
      then show ?thesis
        using IH Some by (auto simp: \<open>r = Some e\<close> e y min_cand_Cons)
    qed
  qed
qed simp

lemma foldr_merge_seek:
  "list_all2 (\<lambda>r s. seek_spec (s cf) from r) rs ss \<Longrightarrow>
     seek_spec (overlay ss cf) from (foldr merge_seek rs None)"
proof (induction rule: list_all2_induct)
  case Nil
  then show ?case by (simp add: seek_spec_def)
next
  case (Cons r rs s ss)
  then show ?case using merge_seek_spec [of s cf "from" r ss] by (simp del: overlay.simps)
qed

lemma sst_cands_level:
  assumes "\<forall>r \<in> set rs. sst_serves crc r (sst_store crc r)"
  shows "\<exists>hits. sst_cands crc rs rank cf from = Inr (level_cands hits rank) \<and>
    list_all2 (\<lambda>r s. seek_spec (s cf) from r) hits (map (sst_store crc) rs)"
  using assms
proof (induction rs arbitrary: rank)
  case (Cons r rs)
  obtain hit where hit: "sst_seek crc r cf from = Inr hit" "seek_spec (sst_store crc r cf) from hit"
    using Cons.prems unfolding sst_serves_def by (meson list.set_intros(1))
  obtain hits where "sst_cands crc rs (rank + 1) cf from = Inr (level_cands hits (rank + 1))"
    "list_all2 (\<lambda>r s. seek_spec (s cf) from r) hits (map (sst_store crc) rs)"
    using Cons.IH [of "rank + 1"] Cons.prems by auto
  with hit show ?case
    by (intro exI [of _ "hit # hits"]) simp
qed (rule exI [of _ "[]"], simp)

context mem_skip_map
begin

lemma core_seek_cf_store:
  assumes "core_inv D c"
  shows "\<exists>r. core_seek_cf D c cf from = Inr r \<and> seek_spec (core_store D c cf) from r"
proof -
  let ?mems = "co_active c # rev (co_immutable c)" and ?ssts = "rev (co_sstables c)"
  let ?mh = "map (\<lambda>m. mt_seek_cf D m cf from) ?mems"
  have "list_all2 (\<lambda>r s. seek_spec (s cf) from r) ?mh (map (mt_store D) ?mems)"
    using assms by (auto simp: core_inv_def list_all2_map1 list_all2_map2 list_all2_same intro: mt_seek_spec)
  moreover obtain hits where hits: "sst_cands (crc32c D) ?ssts (length ?mems) cf from
      = Inr (level_cands hits (length ?mems))"
    "list_all2 (\<lambda>r s. seek_spec (s cf) from r) hits (map (sst_store (crc32c D)) ?ssts)"
    using sst_cands_level [of ?ssts "crc32c D"] assms unfolding core_inv_def by (metis set_rev)
  ultimately have "list_all2 (\<lambda>r s. seek_spec (s cf) from r) (?mh @ hits) (levels D c)"
    unfolding levels_def by (intro list_all2_appendI)
  moreover have "core_seek_cf D c cf from = Inr (foldr merge_seek (?mh @ hits) None)"
    unfolding core_seek_cf_def Let_def hits(1) mem_cands_level
    by (simp only: min_cand_levels [of "?mh @ hits" 0, symmetric] level_cands_append length_map
        res_bind_simps add_0)
  ultimately show ?thesis
    using foldr_merge_seek unfolding core_store_def by blast
qed

lemma core_kv_reads: "core_inv D c \<Longrightarrow> kv_reads (core_kv D c) (core_store D c)"
  by unfold_locales (simp_all add: core_kv_def core_get_cf_store core_seek_cf_store)

end

section \<open>The abstract store machine\<close>

text \<open>What one request does to the store and to the sequence number, and what it is answered.
  The last rule is the failure of the log append.\<close>

inductive store_step :: "cf_store \<Rightarrow> u64 \<Rightarrow> op \<Rightarrow> cf_store \<Rightarrow> u64 \<Rightarrow> u64 res \<Rightarrow> bool" where
  refused: "kv_reads K s \<Longrightarrow> request_batch K op = Inl e \<Longrightarrow> store_step s n op s n (Inl e)"
| stale: "kv_reads K s \<Longrightarrow> request_batch K op = Inr None \<Longrightarrow> store_step s n op s n (Inr 0)"
| applied: "kv_reads K s \<Longrightarrow> request_batch K op = Inr (Some b) \<Longrightarrow>
    store_step s n op (store_batch b s) (n + 1) (Inr (n + 1))"
| append_failed: "kv_reads K s \<Longrightarrow> request_batch K op = Inr (Some b) \<Longrightarrow>
    store_step s n op s (n + 1) (Inl Io)"

inductive store_steps :: "cf_store \<Rightarrow> u64 \<Rightarrow> op list \<Rightarrow> cf_store \<Rightarrow> u64 \<Rightarrow> u64 res list \<Rightarrow> bool" where
  steps_Nil: "store_steps s n [] s n []"
| steps_Cons: "store_step s n op s' n' r \<Longrightarrow> store_steps s' n' os s'' n'' rs \<Longrightarrow>
    store_steps s n (op # os) s'' n'' (r # rs)"

inductive_cases store_steps_NilE: "store_steps s n [] s' n' rs"
inductive_cases store_steps_ConsE: "store_steps s n (op # os) s' n' rs"

lemma overlay_store_op: "overlay (store_op op s # ss) = store_op op (overlay (s # ss))"
  by (simp add: fun_eq_iff store_op_apply)

lemma overlay_fold_store_op:
  "overlay (fold store_op os s # ss) = fold store_op os (overlay (s # ss))"
  by (induction os arbitrary: s) (simp_all add: overlay_store_op [symmetric] del: overlay.simps)

lemma overlay_store_batch: "overlay (store_batch b s # ss) = store_batch b (overlay (s # ss))"
  by (simp add: store_batch_def overlay_fold_store_op del: overlay.simps)

lemma overlay_empty: "overlay ((\<lambda>_ _. None) # ss) = overlay ss"
  by (simp add: fun_eq_iff)

text \<open>A level that repeats a newer one adds nothing.\<close>

lemma overlay_shadowed: "s \<in> set xs \<Longrightarrow> overlay (xs @ s # ys) = overlay (xs @ ys)"
proof (intro ext)
  fix cf k
  assume "s \<in> set xs"
  then have "s cf k = None" if "overlay xs cf k = None"
    using that by (induction xs) (auto split: option.splits)
  then show "overlay (xs @ s # ys) cf k = overlay (xs @ ys) cf k"
    by (cases "overlay xs cf k") (simp_all add: overlay_append)
qed

lemma sst_serves_store: "sst_serves crc r s \<Longrightarrow> sst_store crc r = s"
  by (simp add: sst_serves_def sst_store_def fun_eq_iff)

context mem_skip_map
begin

lemma apply_request_step:
  assumes inv: "core_inv D c" and step: "apply_request D io c op = (c', r, appended)"
  shows "core_inv D c' \<and> store_step (core_store D c) (co_seq c) op (core_store D c') (co_seq c') r \<and>
    co_immutable c' = co_immutable c \<and> co_sstables c' = co_sstables c \<and> co_threshold c' = co_threshold c"
proof -
  note K = core_kv_reads [OF inv]
  show ?thesis
  proof (cases "request_batch (core_kv D c) op")
    case (Inl e)
    then show ?thesis
      using step inv store_step.refused [OF K] by (auto simp: apply_request_def)
  next
    case (Inr ob)
    show ?thesis
    proof (cases ob)
      case None
      then show ?thesis
        using step inv store_step.stale [OF K] Inr by (auto simp: apply_request_def)
    next
      case (Some b)
      note rb = Inr [unfolded Some]
      show ?thesis
      proof (cases "io_append io (co_seq c + 1)")
        case None
        with step rb have c': "c' = c\<lparr>co_seq := co_seq c + 1,
            co_wal := wal_append (crc32c D) (co_wal c) (co_seq c + 1) (batch_encode b),
            co_active := mt_apply D (co_active c) (co_seq c + 1) b\<rparr>" "r = Inr (co_seq c + 1)"
          by (auto simp: apply_request_def Let_def)
        have "core_store D c' = store_batch b (core_store D c)"
          by (simp add: c' core_store_def levels_def overlay_store_batch del: overlay.simps)
        then show ?thesis
          using store_step.applied [OF K rb, of "co_seq c"] inv by (simp add: c' core_inv_def)
      next
        case (Some n)
        with step rb have "core_store D c' = core_store D c" "co_seq c' = co_seq c + 1" "r = Inl Io"
          "core_inv D c'" "co_immutable c' = co_immutable c" "co_sstables c' = co_sstables c"
          "co_threshold c' = co_threshold c"
          using inv by (auto simp: apply_request_def Let_def core_store_def levels_def core_inv_def)
        then show ?thesis
          using store_step.append_failed [OF K rb, of "co_seq c"] by simp
      qed
    qed
  qed
qed

lemma apply_requests_steps:
  assumes "core_inv D c" "apply_requests D io c os = (c', rs, appended)"
  shows "core_inv D c' \<and> store_steps (core_store D c) (co_seq c) os (core_store D c') (co_seq c') rs \<and>
    co_immutable c' = co_immutable c \<and> co_sstables c' = co_sstables c \<and> co_threshold c' = co_threshold c"
  using assms
proof (induction os arbitrary: c rs appended)
  case Nil
  then show ?case by (auto intro: store_steps.intros)
next
  case (Cons op os)
  obtain c1 r a where one: "apply_request D io c op = (c1, r, a)"
    by (metis prod_cases3)
  obtain c2 rs' a' where rest: "apply_requests D io c1 os = (c2, rs', a')"
    by (metis prod_cases3)
  have eq: "c2 = c'" "rs = r # rs'"
    using Cons.prems(2) by (simp_all add: one rest)
  show ?case
    using apply_request_step [OF Cons.prems(1) one] Cons.IH [OF _ rest [unfolded eq(1)]]
    by (auto simp: eq(2) intro: store_steps.steps_Cons)
qed

lemma rotate_wal_store:
  "core_inv D c \<Longrightarrow> core_inv D (rotate_wal D io c) \<and> core_store D (rotate_wal D io c) = core_store D c"
  by (auto simp: rotate_wal_def Let_def core_inv_def core_store_def levels_def overlay_empty
      simp del: overlay.simps)

text \<open>Writing out the frozen memtable, whatever the file system does: the tables are as before,
  or one that serves the memtable's contents is added on top.\<close>

lemma install_sst_cases:
  assumes "mt_inv D frozen" "sst_fits (sst_entries D frozen)" "install_sst D io c frozen = (c', res)"
  obtains (kept) e where "co_sstables c' = co_sstables c" "res = Inl e" "\<not> mt_is_empty frozen"
      "io_sst io \<noteq> None"
  | (empty) "c' = c" "res = Inr ()" "mt_is_empty frozen"
  | (added) img reader where "write_sst D frozen = Some img"
      "sst_open (crc32c D) img (co_next_sst c) = Inr reader" "sr_file_no reader = co_next_sst c"
      "sst_serves (crc32c D) reader (mt_store D frozen)"
      "c' = c\<lparr>co_next_sst := co_next_sst c + 1,
         co_sst_files := AList.update (co_next_sst c) img (co_sst_files c),
         co_sstables := co_sstables c @ [reader]\<rparr>" "res = Inr ()" "\<not> mt_is_empty frozen"
proof -
  obtain img reader where f: "write_sst D frozen = Some img"
    "sst_open (crc32c D) img (co_next_sst c) = Inr reader" "sr_file_no reader = co_next_sst c"
    "sst_serves (crc32c D) reader (mt_store D frozen)"
    using sst_serves_write_sst [OF assms(1,2)] by blast
  show thesis
  proof (cases "mt_is_empty frozen")
    case True
    then show thesis using empty assms(3) by (simp add: install_sst_def)
  next
    case False
    then show thesis
      using assms(3) f kept added by (cases "io_sst io") (auto simp: install_sst_def f(1,2) Let_def)
  qed
qed

lemma install_sst_frame:
  "install_sst D io c frozen = (c', res) \<Longrightarrow>
     co_active c' = co_active c \<and> co_immutable c' = co_immutable c \<and> co_seq c' = co_seq c \<and>
     co_threshold c' = co_threshold c"
  by (auto simp: install_sst_def Let_def split: if_splits option.splits sum.splits)

lemma flush_memtable_frame:
  "co_active (fst (flush_memtable D io c)) = co_active c"
  "co_seq (fst (flush_memtable D io c)) = co_seq c"
  "co_threshold (fst (flush_memtable D io c)) = co_threshold c"
proof -
  obtain c1 res where i: "install_sst D io c (last (co_immutable c)) = (c1, res)" by fastforce
  show "co_active (fst (flush_memtable D io c)) = co_active c"
    "co_seq (fst (flush_memtable D io c)) = co_seq c"
    "co_threshold (fst (flush_memtable D io c)) = co_threshold c"
    using install_sst_frame [OF i]
    by (cases res; simp add: flush_memtable_def i persist_manifest_def Let_def)+
qed

text \<open>Flushing a queue of one memtable keeps the store, whatever the file system does.\<close>

lemma flush_memtable_store:
  assumes inv: "core_inv D c" and imm: "co_immutable c = [frozen]"
    and fits: "sst_fits (sst_entries D frozen)"
  shows "core_inv D (fst (flush_memtable D io c)) \<and>
    core_store D (fst (flush_memtable D io c)) = core_store D c"
proof -
  obtain c1 res where i: "install_sst D io c frozen = (c1, res)" by fastforce
  have frozen: "mt_inv D frozen" using inv imm by (simp add: core_inv_def)
  note frame = install_sst_frame [OF i]
  from frozen fits i show ?thesis
  proof (cases rule: install_sst_cases)
    case (kept e)
    then have "fst (flush_memtable D io c) = c1"
      by (simp add: flush_memtable_def imm i)
    then show ?thesis
      using frame inv kept by (simp add: core_inv_def core_store_def levels_def)
  next
    case empty
    have "mt_store D frozen = (\<lambda>_ _. None)"
      using frozen empty(3) by (rule mt_is_empty_store)
    then show ?thesis
      using inv empty imm
      by (auto simp: flush_memtable_def i persist_manifest_def Let_def core_inv_def core_store_def
          levels_def fun_eq_iff split: option.split)
  next
    case (added img reader)
    have st: "sst_store (crc32c D) reader = mt_store D frozen"
      using added(4) by (rule sst_serves_store)
    have "overlay (mt_store D (co_active c) # mt_store D frozen # mt_store D frozen # xs) =
        overlay (mt_store D (co_active c) # mt_store D frozen # xs)" for xs
      using overlay_shadowed [of "mt_store D frozen" "[mt_store D (co_active c), mt_store D frozen]" xs]
      by simp
    then show ?thesis
      using inv added(4) imm
      by (simp add: flush_memtable_def i added(5,6) persist_manifest_def Let_def core_inv_def
          core_store_def levels_def st del: overlay.simps)
  qed
qed

lemma process_group_steps:
  assumes inv: "core_inv D c" and imm: "co_immutable c = []" and sync: "io_sync io"
    and fits: "\<And>c' rs a. apply_requests D io c reqs = (c', rs, a) \<Longrightarrow>
      sst_fits (sst_entries D (co_active c'))"
    and group: "process_group D io c reqs = (c', rs)"
  shows "core_inv D c' \<and> store_steps (core_store D c) (co_seq c) reqs (core_store D c') (co_seq c') rs"
proof -
  obtain c1 rs1 a where ap: "apply_requests D io c reqs = (c1, rs1, a)"
    by (metis prod_cases3)
  note steps = apply_requests_steps [OF inv ap]
  have rot: "core_inv D (rotate_wal D io c1)" "core_store D (rotate_wal D io c1) = core_store D c1"
    using rotate_wal_store steps by auto
  have q: "co_immutable (rotate_wal D io c1) = [co_active c1]"
    using steps imm by (simp add: rotate_wal_def Let_def)
  have "co_seq (fst (flush_memtable D io (rotate_wal D io c1))) = co_seq c1"
    by (simp add: flush_memtable_frame) (simp add: rotate_wal_def Let_def)
  then show ?thesis
    using group steps sync rot flush_memtable_store [OF rot(1) q fits [OF ap], of io]
    by (auto simp: process_group_def ap split: if_splits)
qed

end

section \<open>Table sizes\<close>

text \<open>The size accounting of a memtable bounds the table it is written to, so the 32-bit length
  fields of a table cannot wrap while memtables stay below two gigabytes.\<close>

fun op_cost :: "write_op \<Rightarrow> nat" where
  "op_cost (OpPut cf k v) = length k + length v + 24"
| "op_cost (OpDelete cf k) = length k + 24"

definition batch_cost :: "write_batch \<Rightarrow> nat" where
  "batch_cost b = sum_list (map op_cost (ops b))"

definition req_cost :: "op \<Rightarrow> nat" where
  "req_cost op = (case op of
     OWrite b \<Rightarrow> batch_cost b
   | OPrewrite spec \<Rightarrow> batch_cost (build_prewrite_batch spec)
   | OResolve spec \<Rightarrow> batch_cost (build_resolve_batch spec))"

definition mt_sized :: "'m mem_deps \<Rightarrow> 'm memtable \<Rightarrow> bool" where
  "mt_sized D m \<longleftrightarrow> length (entries_image (sst_entries D m)) \<le> mt_size m"

lemma cf_entries_al_insert:
  "length (entries_image (cf_entries cf (al_insert k v xs)))
     \<le> length (entries_image (cf_entries cf xs)) + 9 + length k + length (mv_encode v)"
proof (induction xs)
  case (Cons e xs)
  then show ?case
    by (cases e; cases k "fst e" rule: linorder_cases) (auto simp: cf_entries_def)
qed (simp add: cf_entries_def)

lemma request_batch_cost: "request_batch K op = Inr (Some b) \<Longrightarrow> batch_cost b = req_cost op"
  by (cases op) (auto simp: request_batch_def req_cost_def res_bind_eq_Inr split: option.splits if_splits)

context mem_skip_map
begin

lemma mt_sized_new [simp]: "mt_sized D (mt_new D)"
  by (simp add: mt_sized_def sst_entries_def mt_iter_cf_def mt_new_def iter_new cf_ALL_def)

lemma mt_sized_apply_op: "mt_sized D m \<Longrightarrow> mt_sized D (mt_apply_op D op m)"
proof (cases op)
  case (OpPut cf k v)
  moreover assume "mt_sized D m"
  ultimately show ?thesis
    using cf_entries_al_insert [of cf k "MvPut v" "mt_iter_cf D m cf"]
    by (cases cf) (simp_all add: mt_sized_def sst_entries_cf mt_iter_cf_def iter_insert)
next
  case (OpDelete cf k)
  moreover assume "mt_sized D m"
  ultimately show ?thesis
    using cf_entries_al_insert [of cf k MvDelete "mt_iter_cf D m cf"]
    by (cases cf) (simp_all add: mt_sized_def sst_entries_cf mt_iter_cf_def iter_insert)
qed

lemma mt_sized_fold: "mt_sized D m \<Longrightarrow> mt_sized D (fold (mt_apply_op D) os m)"
  by (induction os arbitrary: m) (simp_all add: mt_sized_apply_op)

lemma mt_sized_apply: "mt_sized D m \<Longrightarrow> mt_sized D (mt_apply D m seq b)"
  using mt_sized_fold [of m "ops b"]
  by (simp add: mt_apply_def Let_def mt_sized_def sst_entries_def mt_iter_cf_def)

lemma mt_size_apply_op: "mt_size (mt_apply_op D op m) = mt_size m + op_cost op"
  by (cases op) simp_all

lemma mt_size_apply: "mt_size (mt_apply D m seq b) = mt_size m + batch_cost b"
proof -
  have "mt_size (fold (mt_apply_op D) os m) = mt_size m + sum_list (map op_cost os)" for os m
    by (induction os arbitrary: m) (simp_all add: mt_size_apply_op)
  then show ?thesis by (simp add: mt_apply_def Let_def batch_cost_def)
qed

lemma apply_request_size:
  assumes "apply_request D io c op = (c', r, a)" "mt_sized D (co_active c)"
  shows "mt_sized D (co_active c') \<and> mt_size (co_active c') \<le> mt_size (co_active c) + req_cost op"
  using assms request_batch_cost [of "core_kv D c" op]
  by (auto simp: apply_request_def Let_def mt_sized_apply mt_size_apply split: sum.splits option.splits)

lemma apply_requests_size:
  assumes "apply_requests D io c os = (c', rs, a)" "mt_sized D (co_active c)"
  shows "mt_sized D (co_active c') \<and>
    mt_size (co_active c') \<le> mt_size (co_active c) + sum_list (map req_cost os)"
  using assms
proof (induction os arbitrary: c rs a)
  case (Cons op os)
  obtain c1 r a1 where one: "apply_request D io c op = (c1, r, a1)"
    by (metis prod_cases3)
  obtain c2 rs' a' where rest: "apply_requests D io c1 os = (c2, rs', a')"
    by (metis prod_cases3)
  have "c2 = c'"
    using Cons.prems(1) by (simp add: one rest)
  then show ?case
    using apply_request_size [OF one Cons.prems(2)] Cons.IH [of c1 rs' a'] rest by fastforce
qed simp

lemma mt_sized_fits: "mt_sized D m \<Longrightarrow> mt_size m < 2 ^ 31 - 2 \<Longrightarrow> sst_fits (sst_entries D m)"
  by (simp add: mt_sized_def sst_fits_def)

end

end
