(* ===== verification/Recovery.thy ===== *)
theory Recovery
  imports Engine_Core
begin

text \<open>
  Durability of \<open>engine/src/db.rs\<close>: what a data directory has to hold for \<open>Engine::open\<close> to
  rebuild a history of batches, that the committer keeps its directory that way at every point
  where the process can die, and so that reopening after a crash yields every acknowledged batch,
  in order, followed by some of the batches that were in flight.
\<close>

type_synonym hist = "(u64 \<times> write_batch) list"

definition hist_store :: "hist \<Rightarrow> cf_store" where
  "hist_store H = fold (\<lambda>(n, b). store_batch b) H (\<lambda>_ _. None)"

definition log_recs :: "hist \<Rightarrow> (u64 \<times> bytes) list" where
  "log_recs H = map (\<lambda>(n, b). (n, batch_encode b)) H"

abbreviation entry_fits :: "u64 \<times> write_batch \<Rightarrow> bool" where
  "entry_fits e \<equiv> batch_fits (snd e) \<and> payload_fits (batch_encode (snd e))"

definition hist_ok :: "hist \<Rightarrow> bool" where
  "hist_ok H \<longleftrightarrow> sorted_wrt (<) (map fst H) \<and> (\<forall>e \<in> set H. entry_fits e)"

text \<open>The entries at or below the flushed watermark, and those above it.\<close>

definition flushed :: "u64 \<Rightarrow> (u64 \<times> 'a) list \<Rightarrow> (u64 \<times> 'a) list" where
  "flushed lf H = filter (\<lambda>e. fst e \<le> lf) H"

definition unflushed :: "u64 \<Rightarrow> (u64 \<times> 'a) list \<Rightarrow> (u64 \<times> 'a) list" where
  "unflushed lf H = filter (\<lambda>e. lf < fst e) H"

definition mem_of :: "'m mem_deps \<Rightarrow> hist \<Rightarrow> 'm memtable \<Rightarrow> 'm memtable" where
  "mem_of D G m = fold (\<lambda>(n, b) m. mt_apply D m n b) G m"

definition seg_records :: "'m mem_deps \<Rightarrow> (u64 \<times> bytes) list \<Rightarrow> (u64 \<times> bytes) list" where
  "seg_records D segs = concat (map (\<lambda>s. fst (wal_records (crc32c D) (snd s) 0)) segs)"

text \<open>A directory that holds the history \<open>H\<close>: the manifest's tables hold the flushed part, the
  log segments, in order of their numbers, the rest.\<close>

definition disk_holds :: "'m mem_deps \<Rightarrow> disk \<Rightarrow> manifest \<Rightarrow> sst_reader list \<Rightarrow> hist \<Rightarrow> bool" where
  "disk_holds D dk mf ssts H \<longleftrightarrow>
     manifest_load (crc32c D) (dk_manifest dk) = Inr mf \<and>
     open_ssts (crc32c D) (dk_ssts dk) (mf_sstables mf) = Inr ssts \<and>
     (\<forall>r \<in> set ssts. sst_serves (crc32c D) r (sst_store (crc32c D) r)) \<and>
     overlay (map (sst_store (crc32c D)) (rev ssts)) = hist_store (flushed (mf_last_flushed_seq mf) H) \<and>
     hist_ok H \<and>
     sorted_wrt (<) (map fst (dk_segs dk)) \<and>
     unflushed (mf_last_flushed_seq mf) (seg_records D (dk_segs dk)) =
       log_recs (unflushed (mf_last_flushed_seq mf) H)"

lemma hist_store_append: "hist_store (H @ G) = fold (\<lambda>(n, b). store_batch b) G (hist_store H)"
  by (simp add: hist_store_def)

lemma flushed_unflushed:
  "sorted_wrt (<) (map fst H) \<Longrightarrow> flushed lf H @ unflushed lf H = H"
proof (induction H)
  case (Cons e H)
  show ?case
  proof (cases "fst e \<le> lf")
    case True
    then show ?thesis using Cons by (simp add: flushed_def unflushed_def)
  next
    case False
    then have "\<forall>e' \<in> set H. \<not> fst e' \<le> lf"
      using Cons.prems by auto
    then show ?thesis using False Cons by (auto simp: flushed_def unflushed_def filter_empty_conv)
  qed
qed (simp add: flushed_def unflushed_def)

lemma unflushed_append [simp]: "unflushed lf (xs @ ys) = unflushed lf xs @ unflushed lf ys"
  by (simp add: unflushed_def)

lemma unflushed_Cons [simp]: "unflushed lf (x # xs) = (if lf < fst x then x # unflushed lf xs else unflushed lf xs)"
  "unflushed lf [] = []"
  by (simp_all add: unflushed_def)

lemma log_recs_simps [simp]:
  "log_recs [] = []" "log_recs (e # H) = (fst e, batch_encode (snd e)) # log_recs H"
  "log_recs (H @ G) = log_recs H @ log_recs G"
  by (simp_all add: log_recs_def case_prod_unfold)

lemma mem_of_simps [simp]:
  "mem_of D [] m = m" "mem_of D (e # G) m = mem_of D G (mt_apply D m (fst e) (snd e))"
  "mem_of D (G @ G') m = mem_of D G' (mem_of D G m)"
  by (simp_all add: mem_of_def case_prod_unfold)

lemma replay_records_log:
  assumes "unflushed lf rs = log_recs G" "\<forall>e \<in> set G. entry_fits e"
  shows "replay_records D lf rs active mx live =
    Inr (mem_of D G active, fold max (map fst rs) mx, live \<or> G \<noteq> [])"
  using assms
proof (induction rs arbitrary: G active mx live)
  case (Cons r rs)
  obtain seq payload where r: "r = (seq, payload)" by (cases r)
  show ?case
  proof (cases "lf < seq")
    case True
    then obtain e G' where G: "G = e # G'" "seq = fst e" "payload = batch_encode (snd e)"
      "unflushed lf rs = log_recs G'"
      using Cons.prems(1) by (cases G) (auto simp: r)
    have "batch_decode payload = Some (snd e)"
      using Cons.prems(2) G by (simp add: batch_decode_encode)
    then show ?thesis
      using True Cons.IH [OF G(4)] Cons.prems(2) by (simp add: r G(1,2) Let_def ok_or_def max.commute)
  next
    case False
    then show ?thesis
      using Cons.IH [of G] Cons.prems by (simp add: r Let_def max.commute)
  qed
qed (simp add: log_recs_def)

definition dead_segs :: "'m mem_deps \<Rightarrow> u64 \<Rightarrow> (u64 \<times> bytes) list \<Rightarrow> u64 list" where
  "dead_segs D lf segs = map fst (filter (\<lambda>s. unflushed lf (seg_records D [s]) = []) segs)"

lemma seg_records_simps [simp]:
  "seg_records D [] = []"
  "seg_records D (s # segs) = fst (wal_records (crc32c D) (snd s) 0) @ seg_records D segs"
  "seg_records D (segs @ segs') = seg_records D segs @ seg_records D segs'"
  by (simp_all add: seg_records_def)

lemma replay_segs_log:
  assumes "unflushed lf (seg_records D segs) = log_recs G" "\<forall>e \<in> set G. entry_fits e"
  shows "replay_segs D lf segs active mx mg dead =
    Inr (mem_of D G active, fold max (map fst (seg_records D segs)) mx, fold max (map fst segs) mg,
      dead @ dead_segs D lf segs)"
  using assms
proof (induction segs arbitrary: G active mx mg dead)
  case Nil
  then show ?case by (simp add: log_recs_def dead_segs_def)
next
  case (Cons s segs)
  obtain no img where s: "s = (no, img)" by (cases s)
  let ?rs = "fst (wal_records (crc32c D) img 0)"
  have "log_recs G = unflushed lf ?rs @ unflushed lf (seg_records D segs)"
    using Cons.prems(1) by (simp add: s)
  then obtain G1 G2 where G: "G = G1 @ G2" "unflushed lf ?rs = log_recs G1"
    "unflushed lf (seg_records D segs) = log_recs G2"
    unfolding log_recs_def map_eq_append_conv by metis
  have "G1 = [] \<longleftrightarrow> unflushed lf ?rs = []"
    by (simp add: G(2) log_recs_def)
  then show ?case
    using replay_records_log [OF G(2), of D] Cons.IH [OF G(3)] Cons.prems(2)
    by (simp add: s G(1) dead_segs_def max.commute)
qed

section \<open>Opening a directory\<close>

lemma unat_u64_Suc: "unat (n :: u64) + 1 < 2 ^ 64 \<Longrightarrow> unat (n + 1) = unat n + 1"
  by (simp add: unat_word_ariths)

lemma fold_max_bound: "x \<in> insert a (set xs) \<Longrightarrow> x \<le> fold max xs (a :: 'a :: linorder)"
  using Max_ge [of "set (a # xs)" x] unfolding Max.set_eq_fold by simp

lemma fold_max_in: "fold max xs (a :: 'a :: linorder) \<in> insert a (set xs)"
  using Max_in [of "set (a # xs)"] unfolding Max.set_eq_fold by simp

text \<open>One more than the largest number in use is a fresh number, unless the counter is full.\<close>

definition below :: "nat \<Rightarrow> u64 list \<Rightarrow> bool" where
  "below k ns \<longleftrightarrow> (\<forall>n \<in> set ns. unat n + k < 2 ^ 64)"

lemma fresh_number:
  assumes "below 2 ns" "n \<in> set ns"
  shows "n < fold max ns 0 + 1"
proof -
  let ?m = "fold max ns (0 :: u64)"
  have "unat ?m + 2 < 2 ^ 64"
    using fold_max_in [of ns 0] assms(1) by (auto simp: below_def)
  moreover have "n \<le> ?m"
    using assms(2) by (intro fold_max_bound) simp
  ultimately show ?thesis
    by (simp add: word_less_nat_alt word_le_nat_alt unat_u64_Suc)
qed

lemma fresh_number_Suc:
  assumes "below 2 ns"
  shows "fold max ns 0 + 1 < fold max ns 0 + (2 :: u64)"
proof -
  let ?m = "fold max ns (0 :: u64)"
  have b: "unat ?m + 2 < 2 ^ 64"
    using fold_max_in [of ns 0] assms(1) by (auto simp: below_def)
  then have "unat (?m + 1 + 1) = unat (?m + 1) + 1"
    by (intro unat_u64_Suc) (simp add: unat_u64_Suc)
  then show ?thesis
    by (simp add: word_less_nat_alt add.assoc)
qed

lemma sst_open_file_no: "sst_open crc img n = Inr r \<Longrightarrow> sr_file_no r = n"
  by (auto simp: sst_open_def Let_def res_bind_eq_Inr split: if_splits)

lemma open_ssts_numbers: "open_ssts crc files ns = Inr rs \<Longrightarrow> map sr_file_no rs = ns"
  by (induction ns arbitrary: rs) (auto simp: res_bind_eq_Inr sst_open_file_no split: option.splits)

lemma open_ssts_cong:
  "(\<And>n. n \<in> set ns \<Longrightarrow> map_of files n = map_of files' n) \<Longrightarrow>
     open_ssts crc files ns = open_ssts crc files' ns"
  by (induction ns) (auto split: option.split)

lemma open_ssts_snoc:
  "open_ssts crc files ns = Inr rs \<Longrightarrow> map_of files n = Some img \<Longrightarrow> sst_open crc img n = Inr r \<Longrightarrow>
     open_ssts crc files (ns @ [n]) = Inr (rs @ [r])"
  by (induction ns arbitrary: rs) (auto simp: res_bind_eq_Inr split: option.splits)

lemma map_of_filter_key: "n \<in> A \<Longrightarrow> map_of (filter (\<lambda>(k, _). k \<in> A) xs) n = map_of xs n"
  by (induction xs) auto

lemma kept_segs:
  assumes "sorted_wrt (<) (map fst segs)"
  shows "unflushed lf (seg_records D (filter (\<lambda>(n, _). n \<notin> set (dead_segs D lf segs)) segs)) =
    unflushed lf (seg_records D segs)"
proof -
  have "unflushed lf (seg_records D (filter (\<lambda>(n, _). n \<notin> set dead) segs)) =
      unflushed lf (seg_records D segs)"
    if "\<And>s. s \<in> set segs \<Longrightarrow> fst s \<in> set dead \<Longrightarrow> unflushed lf (seg_records D [s]) = []" for dead
    using that by (induction segs) (auto simp: case_prod_unfold)
  moreover have "unflushed lf (seg_records D [s]) = []"
    if s: "s \<in> set segs" "fst s \<in> set (dead_segs D lf segs)" for s
  proof -
    obtain s' where "s' \<in> set segs" "fst s' = fst s" "unflushed lf (seg_records D [s']) = []"
      using s(2) by (auto simp: dead_segs_def)
    moreover have "distinct (map fst segs)"
      using assms by (rule strict_keys_distinct)
    ultimately have "s' = s"
      using s(1) by (metis eq_key_imp_eq_value prod.collapse)
    then show ?thesis using \<open>unflushed lf (seg_records D [s']) = []\<close> by simp
  qed
  ultimately show ?thesis by blast
qed

text \<open>The running engine: its directory holds the history, the open segment holds the tail of it,
  the active memtable what is not flushed yet, and the counters are ahead of everything in
  use.\<close>

definition live :: "'m mem_deps \<Rightarrow> 'm core \<Rightarrow> hist \<Rightarrow> bool" where
  "live D c H \<longleftrightarrow>
     co_immutable c = [] \<and>
     disk_holds D (crash_disk c (length (ww_file (co_wal c))))
       \<lparr>mf_last_flushed_seq = co_last_flushed_seq c, mf_sstables = map sr_file_no (co_sstables c)\<rparr>
       (co_sstables c) H \<and>
     co_active c = mem_of D (unflushed (co_last_flushed_seq c) H) (mt_new D) \<and>
     (\<exists>H0 G. H = H0 @ G \<and> ww_file (co_wal c) = wal_image (crc32c D) (log_recs G) \<and>
        (\<forall>e \<in> set G. co_last_flushed_seq c < fst e)) \<and>
     (\<forall>e \<in> set H. fst e \<le> co_seq c) \<and> co_last_flushed_seq c \<le> co_seq c \<and>
     co_wal_no c < co_next_seg c \<and>
     (\<forall>r \<in> set (co_sstables c). sr_file_no r < co_next_sst c)"

definition opened_core :: "'m mem_deps \<Rightarrow> nat \<Rightarrow> disk \<Rightarrow> manifest \<Rightarrow> sst_reader list \<Rightarrow> hist \<Rightarrow> 'm core" where
  "opened_core D t dk mf ssts H =
     \<lparr>co_threshold = t, co_active = mem_of D (unflushed (mf_last_flushed_seq mf) H) (mt_new D),
      co_immutable = [], co_sstables = ssts, co_wal = wal_create,
      co_wal_no = fold max (map fst (dk_segs dk)) 0 + 1,
      co_seq = fold max (map fst (seg_records D (dk_segs dk))) (mf_last_flushed_seq mf),
      co_last_flushed_seq = mf_last_flushed_seq mf,
      co_next_seg = fold max (map fst (dk_segs dk)) 0 + 1 + 1,
      co_next_sst = fold max (mf_sstables mf) 0 + 1,
      co_old_segs =
        filter (\<lambda>(n, _). n \<notin> set (dead_segs D (mf_last_flushed_seq mf) (dk_segs dk))) (dk_segs dk),
      co_sst_files = filter (\<lambda>(n, _). n \<in> set (mf_sstables mf)) (dk_ssts dk),
      co_manifest = dk_manifest dk\<rparr>"

context mem_skip_map
begin

lemma mt_store_mem_of: "mt_store D (mem_of D G m) = fold (\<lambda>(n, b). store_batch b) G (mt_store D m)"
  by (induction G arbitrary: m) (simp_all add: case_prod_unfold)

lemma mt_inv_mem_of: "mt_inv D m \<Longrightarrow> mt_inv D (mem_of D G m)"
  by (induction G arbitrary: m) simp_all

lemma overlay_fold_batches:
  "overlay (fold (\<lambda>(n, b). store_batch b) G s # ss) = fold (\<lambda>(n, b). store_batch b) G (overlay (s # ss))"
  by (induction G arbitrary: s)
    (simp_all add: case_prod_unfold overlay_store_batch [symmetric] del: overlay.simps)

lemma live_core_inv: "live D c H \<Longrightarrow> core_inv D c"
  by (simp add: live_def core_inv_def disk_holds_def mt_inv_mem_of)

lemma live_store:
  assumes "live D c H"
  shows "core_store D c = hist_store H"
proof -
  let ?lf = "co_last_flushed_seq c"
  have "overlay (map (sst_store (crc32c D)) (rev (co_sstables c))) = hist_store (flushed ?lf H)"
    and srt: "sorted_wrt (<) (map fst H)"
    using assms by (simp_all add: live_def disk_holds_def hist_ok_def)
  then have "core_store D c = hist_store (flushed ?lf H @ unflushed ?lf H)"
    using assms
    by (simp add: live_def core_store_def levels_def mt_store_mem_of overlay_fold_batches
        overlay_empty hist_store_append del: overlay.simps)
  then show ?thesis by (simp add: flushed_unflushed [OF srt])
qed

text \<open>The core that \<open>Engine::open\<close> builds from a directory holding \<open>H\<close>.\<close>

lemma engine_open_eq:
  assumes "disk_holds D dk mf ssts H"
  shows "engine_open D t dk = Inr (opened_core D t dk mf ssts H)"
proof -
  let ?lf = "mf_last_flushed_seq mf"
  note h = assms [unfolded disk_holds_def hist_ok_def]
  have "list_numbered (dk_segs dk) = dk_segs dk"
    using h unfolding list_numbered_def
    by (intro sort_key_id_if_sorted) (simp add: strict_sorted_imp_sorted)
  moreover have "\<forall>e \<in> set (unflushed ?lf H). entry_fits e"
    using h by (simp add: unflushed_def)
  ultimately show ?thesis
    using h replay_segs_log [of ?lf D "dk_segs dk" "unflushed ?lf H" "mt_new D" ?lf 0 "[]"]
    by (simp add: engine_open_def opened_core_def Let_def)
qed

lemma opened_core_holds:
  assumes "disk_holds D dk mf ssts H" "below 2 (map fst (dk_segs dk))"
  shows "disk_holds D (crash_disk (opened_core D t dk mf ssts H) 0) mf ssts H"
proof -
  let ?lf = "mf_last_flushed_seq mf" and ?c = "opened_core D t dk mf ssts H"
  let ?kept = "filter (\<lambda>(n, _). n \<notin> set (dead_segs D ?lf (dk_segs dk))) (dk_segs dk)"
  let ?new = "fold max (map fst (dk_segs dk)) 0 + 1"
  note h = assms(1) [unfolded disk_holds_def hist_ok_def]
  have "open_ssts (crc32c D) (co_sst_files ?c) (mf_sstables mf) = Inr ssts"
    using h open_ssts_cong [of "mf_sstables mf" "co_sst_files ?c" "dk_ssts dk"]
    by (simp add: opened_core_def map_of_filter_key)
  moreover have "sorted_wrt (<) (map fst ?kept)"
    using h by (simp add: sorted_wrt_map sorted_wrt_filter)
  then have "sorted_wrt (<) (map fst (?kept @ [(?new, [])]))"
    using fresh_number [OF assms(2)] by (auto simp: sorted_wrt_append)
  moreover have "unflushed ?lf (seg_records D ?kept) = log_recs (unflushed ?lf H)"
    using h kept_segs [of "dk_segs dk" ?lf D] by simp
  moreover have "wal_records (crc32c D) [] 0 = ([], 0)"
    using wal_records_image [of "[]"] by simp
  ultimately show ?thesis
    using h by (simp add: disk_holds_def crash_disk_def opened_core_def hist_ok_def)
qed

lemma opened_core_seq:
  assumes "disk_holds D dk mf ssts H" "e \<in> set H"
  shows "fst e \<le> co_seq (opened_core D t dk mf ssts H)"
proof (cases "fst e \<le> mf_last_flushed_seq mf")
  case True
  then show ?thesis
    unfolding opened_core_def core.simps by (rule order_trans) (simp add: fold_max_bound)
next
  case False
  then have "(fst e, batch_encode (snd e)) \<in> set (log_recs (unflushed (mf_last_flushed_seq mf) H))"
    using assms(2) by (force simp: log_recs_def unflushed_def)
  also have "log_recs (unflushed (mf_last_flushed_seq mf) H) =
      unflushed (mf_last_flushed_seq mf) (seg_records D (dk_segs dk))"
    using assms(1) by (simp add: disk_holds_def)
  finally have "fst e \<in> set (map fst (seg_records D (dk_segs dk)))"
    by (force simp: unflushed_def)
  then show ?thesis
    using fold_max_bound [of "fst e"] by (simp add: opened_core_def)
qed

lemma opened_core_live:
  assumes "disk_holds D dk mf ssts H"
    and room: "below 2 (map fst (dk_segs dk))" "below 2 (mf_sstables mf)"
  shows "live D (opened_core D t dk mf ssts H) H"
proof -
  let ?c = "opened_core D t dk mf ssts H"
  have nos: "map sr_file_no ssts = mf_sstables mf"
    using assms(1) open_ssts_numbers by (auto simp: disk_holds_def)
  then have mf: "\<lparr>mf_last_flushed_seq = co_last_flushed_seq ?c, mf_sstables = map sr_file_no (co_sstables ?c)\<rparr> = mf"
    by (simp add: opened_core_def)
  have "sr_file_no r < co_next_sst ?c" if "r \<in> set ssts" for r
  proof -
    have "sr_file_no r \<in> set (mf_sstables mf)"
      using that by (simp flip: nos)
    then show ?thesis
      using fresh_number [OF room(2)] by (simp add: opened_core_def)
  qed
  moreover have "co_last_flushed_seq ?c \<le> co_seq ?c"
    by (simp add: opened_core_def fold_max_bound)
  moreover have "co_wal_no ?c < co_next_seg ?c"
    using fresh_number_Suc [OF room(1)] by (simp add: opened_core_def add.commute)
  moreover have "ww_file (co_wal ?c) = wal_image (crc32c D) (log_recs [])" "co_sstables ?c = ssts"
    "co_active ?c = mem_of D (unflushed (co_last_flushed_seq ?c) H) (mt_new D)" "co_immutable ?c = []"
    by (simp_all add: opened_core_def wal_create_def)
  moreover have "disk_holds D (crash_disk ?c (length (ww_file (co_wal ?c)))) mf ssts H"
    using opened_core_holds [OF assms(1) room(1)] by (simp add: opened_core_def wal_create_def)
  ultimately show ?thesis
    using opened_core_seq [OF assms(1)] unfolding live_def mf
    by (intro conjI exI [of _ H] exI [of _ "[]"]) auto
qed

end

section \<open>The log tail\<close>

lemma flushed_newer: "\<forall>e \<in> set G. lf < fst e \<Longrightarrow> flushed lf (H @ G) = flushed lf H"
  by (auto simp: flushed_def filter_empty_conv)

lemma unflushed_newer: "\<forall>e \<in> set G. lf < fst e \<Longrightarrow> unflushed lf G = G"
  by (auto simp: unflushed_def filter_id_conv)

lemma log_recs_newer: "\<forall>e \<in> set G. lf < fst e \<Longrightarrow> unflushed lf (log_recs G) = log_recs G"
  by (auto simp: unflushed_def log_recs_def filter_id_conv)

text \<open>Exchanging the records of the last segment exchanges the tail of the history.\<close>

lemma disk_holds_tail:
  assumes holds: "disk_holds D \<lparr>dk_segs = old @ [(no, f)], dk_ssts = S, dk_manifest = M\<rparr> mf ssts (H @ G)"
    and recs: "fst (wal_records (crc32c D) f 0) = log_recs G" "fst (wal_records (crc32c D) f' 0) = log_recs G'"
    and newer: "\<forall>e \<in> set G. mf_last_flushed_seq mf < fst e" "\<forall>e \<in> set G'. mf_last_flushed_seq mf < fst e"
    and ok: "hist_ok (H @ G')"
  shows "disk_holds D \<lparr>dk_segs = old @ [(no, f')], dk_ssts = S, dk_manifest = M\<rparr> mf ssts (H @ G')"
  using holds ok newer
  by (simp add: disk_holds_def recs flushed_newer unflushed_newer log_recs_newer)

lemma log_recs_payloads: "\<forall>e \<in> set G. entry_fits e \<Longrightarrow> \<forall>r \<in> set (log_recs G). payload_fits (snd r)"
  by (auto simp: log_recs_def)

lemma wal_records_log:
  "\<forall>e \<in> set G. entry_fits e \<Longrightarrow> fst (wal_records crc (wal_image crc (log_recs G)) 0) = log_recs G"
  by (simp add: wal_records_image log_recs_payloads)

lemma intact_prefix_append:
  "length (wal_image crc rs) \<le> n \<Longrightarrow>
     intact_prefix crc n (rs @ rs') = rs @ intact_prefix crc (n - length (wal_image crc rs)) rs'"
proof (induction rs arbitrary: n)
  case (Cons r rs)
  obtain seq payload where r: "r = (seq, payload)" by (cases r)
  have "length (wal_image crc rs) \<le> n - length (wal_frame crc seq payload)"
    using Cons.prems by (simp add: r)
  from Cons.IH [OF this] Cons.prems show ?case
    by (simp add: r Let_def)
qed simp

text \<open>A log cut at any byte past its first part replays that part and some of the rest.\<close>

lemma wal_records_log_cut:
  assumes "\<forall>e \<in> set (G @ G'). entry_fits e" "length (wal_image crc (log_recs G)) \<le> n"
  shows "\<exists>k. fst (wal_records crc (take n (wal_image crc (log_recs (G @ G')))) 0) = log_recs (G @ take k G')"
proof -
  obtain k where k: "intact_prefix crc (n - length (wal_image crc (log_recs G))) (log_recs G')
      = take k (log_recs G')"
    using wal_image_take [of crc _ "log_recs G'"] by blast
  then have "intact_prefix crc n (log_recs (G @ G')) = log_recs (G @ take k G')"
    using intact_prefix_append [OF assms(2), of "log_recs G'"] by (simp add: log_recs_def take_map)
  then show ?thesis
    using wal_records_cut [OF log_recs_payloads [OF assms(1)]] by auto
qed

lemma hist_ok_append:
  "hist_ok (H @ G) \<longleftrightarrow> hist_ok H \<and> hist_ok G \<and> (\<forall>e \<in> set H. \<forall>e' \<in> set G. fst e < fst e')"
  by (auto simp: hist_ok_def sorted_wrt_append)

lemma hist_ok_take: "hist_ok G \<Longrightarrow> hist_ok (take k G)"
  by (auto simp: hist_ok_def take_map [symmetric] sorted_wrt_take dest: in_set_takeD)

abbreviation core_manifest :: "'m core \<Rightarrow> manifest" where
  "core_manifest c \<equiv>
     \<lparr>mf_last_flushed_seq = co_last_flushed_seq c, mf_sstables = map sr_file_no (co_sstables c)\<rparr>"

text \<open>A crash with the records \<open>E\<close> appended to the log of a live core and any part of them
  lost.\<close>

lemma live_crash:
  assumes live: "live D c H"
    and frame: "co_old_segs c' = co_old_segs c" "co_wal_no c' = co_wal_no c"
      "co_sst_files c' = co_sst_files c" "co_manifest c' = co_manifest c"
    and log: "ww_file (co_wal c') = ww_file (co_wal c) @ wal_image (crc32c D) (log_recs E)"
    and ok: "hist_ok (H @ E)" and newer: "\<forall>e \<in> set E. co_last_flushed_seq c < fst e"
    and cut: "length (ww_file (co_wal c)) \<le> n"
  shows "\<exists>k. disk_holds D (crash_disk c' n) (core_manifest c) (co_sstables c) (H @ take k E)"
proof -
  obtain H0 G where H: "H = H0 @ G" "ww_file (co_wal c) = wal_image (crc32c D) (log_recs G)"
    "\<forall>e \<in> set G. co_last_flushed_seq c < fst e"
    using live by (auto simp: live_def)
  have holds: "disk_holds D \<lparr>dk_segs = co_old_segs c @ [(co_wal_no c, ww_file (co_wal c))],
      dk_ssts = co_sst_files c, dk_manifest = co_manifest c\<rparr> (core_manifest c) (co_sstables c) (H0 @ G)"
    using live H(1) by (simp add: live_def crash_disk_def)
  have fits: "\<forall>e \<in> set (G @ E). entry_fits e" "\<forall>e \<in> set G. entry_fits e"
    using ok by (auto simp: H(1) hist_ok_def)
  obtain k where k: "fst (wal_records (crc32c D) (take n (wal_image (crc32c D) (log_recs (G @ E)))) 0)
      = log_recs (G @ take k E)"
    using wal_records_log_cut [OF fits(1)] cut H(2) by metis
  have "hist_ok (H @ take k E)"
    using ok hist_ok_take [of E k] by (auto simp: hist_ok_append dest: in_set_takeD)
  moreover have "fst (wal_records (crc32c D) (ww_file (co_wal c)) 0) = log_recs G"
    using wal_records_log [OF fits(2)] by (simp add: H(2))
  moreover have "fst (wal_records (crc32c D) (take n (ww_file (co_wal c'))) 0) = log_recs (G @ take k E)"
    using k by (simp add: log H(2))
  moreover have "\<forall>e \<in> set (G @ take k E). co_last_flushed_seq c < fst e"
    using newer H(3) by (auto dest: in_set_takeD)
  ultimately have "disk_holds D \<lparr>dk_segs = co_old_segs c @ [(co_wal_no c, take n (ww_file (co_wal c')))],
      dk_ssts = co_sst_files c, dk_manifest = co_manifest c\<rparr> (core_manifest c) (co_sstables c) (H0 @ G @ take k E)"
    using H(3) by (intro disk_holds_tail [OF holds]) (simp_all add: H(1))
  then show ?thesis
    unfolding crash_disk_def frame H(1) append_assoc by blast
qed

text \<open>The records of a group that are appended, in order.\<close>

definition new_entries :: "'m mem_deps \<Rightarrow> 'm core \<Rightarrow> op \<Rightarrow> hist" where
  "new_entries D c op = (case request_batch (core_kv D c) op of
     Inr (Some b) \<Rightarrow> [(co_seq c + 1, b)]
   | _ \<Rightarrow> [])"

fun group_entries :: "'m mem_deps \<Rightarrow> 'm core \<Rightarrow> op list \<Rightarrow> hist" where
  "group_entries D c [] = []"
| "group_entries D c (op # os) = new_entries D c op @ group_entries D (fst (apply_request D io_ok c op)) os"

text \<open>Everything on disk but the open log segment, and the counters that number files.\<close>

definition same_files :: "'m core \<Rightarrow> 'm core \<Rightarrow> bool" where
  "same_files c' c \<longleftrightarrow> co_old_segs c' = co_old_segs c \<and> co_wal_no c' = co_wal_no c \<and>
     co_sst_files c' = co_sst_files c \<and> co_manifest c' = co_manifest c \<and>
     co_last_flushed_seq c' = co_last_flushed_seq c \<and> co_sstables c' = co_sstables c \<and>
     co_next_seg c' = co_next_seg c \<and> co_next_sst c' = co_next_sst c"

definition req_fits :: "op \<Rightarrow> bool" where
  "req_fits op = (case op of
     OWrite b \<Rightarrow> entry_fits (0, b)
   | OPrewrite spec \<Rightarrow> entry_fits (0, build_prewrite_batch spec)
   | OResolve spec \<Rightarrow> entry_fits (0, build_resolve_batch spec))"

lemma request_batch_fits:
  "request_batch K op = Inr (Some b) \<Longrightarrow> req_fits op \<Longrightarrow> batch_fits b \<and> payload_fits (batch_encode b)"
  by (cases op) (auto simp: request_batch_def req_fits_def res_bind_eq_Inr split: option.splits if_splits)

lemma live_hist_ok: "live D c H \<Longrightarrow> hist_ok H"
  by (simp add: live_def disk_holds_def)

lemma u64_Suc_newer: "unat (n :: u64) + 1 < 2 ^ 64 \<Longrightarrow> m \<le> n \<Longrightarrow> m < n + 1"
  by (simp add: word_less_nat_alt word_le_nat_alt unat_u64_Suc)

lemma live_extend:
  assumes live: "live D c H" and room: "unat (co_seq c) + 1 < 2 ^ 64" and e: "fst e = co_seq c + 1" "entry_fits e"
    and log: "ww_file w = ww_file (co_wal c) @ wal_frame (crc32c D) (fst e) (batch_encode (snd e))"
  shows "live D (c\<lparr>co_seq := co_seq c + 1, co_wal := w,
    co_active := mt_apply D (co_active c) (fst e) (snd e)\<rparr>) (H @ [e])"
proof -
  let ?lf = "co_last_flushed_seq c"
  obtain H0 G where H: "H = H0 @ G" "ww_file (co_wal c) = wal_image (crc32c D) (log_recs G)"
    "\<forall>e \<in> set G. ?lf < fst e"
    using live by (auto simp: live_def)
  have holds: "disk_holds D \<lparr>dk_segs = co_old_segs c @ [(co_wal_no c, ww_file (co_wal c))],
      dk_ssts = co_sst_files c, dk_manifest = co_manifest c\<rparr> (core_manifest c) (co_sstables c) (H0 @ G)"
    using live H(1) by (simp add: live_def crash_disk_def)
  have newer: "?lf < fst e" "\<forall>e' \<in> set H. fst e' < fst e"
    using live u64_Suc_newer [OF room] by (auto simp: live_def e(1))
  have ok: "hist_ok (H @ [e])"
    using live_hist_ok [OF live] newer e(2) by (auto simp: hist_ok_def sorted_wrt_append)
  have log': "ww_file w = wal_image (crc32c D) (log_recs (G @ [e]))"
    by (simp add: log H(2))
  have fits: "\<forall>e \<in> set (G @ [e]). entry_fits e" "\<forall>e \<in> set G. entry_fits e"
    using ok by (auto simp: H(1) hist_ok_def)
  have "disk_holds D \<lparr>dk_segs = co_old_segs c @ [(co_wal_no c, ww_file w)],
      dk_ssts = co_sst_files c, dk_manifest = co_manifest c\<rparr> (core_manifest c) (co_sstables c) (H0 @ G @ [e])"
  proof (rule disk_holds_tail [OF holds])
    show "fst (wal_records (crc32c D) (ww_file (co_wal c)) 0) = log_recs G"
      unfolding H(2) by (rule wal_records_log [OF fits(2)])
    show "fst (wal_records (crc32c D) (ww_file w) 0) = log_recs (G @ [e])"
      unfolding log' by (rule wal_records_log [OF fits(1)])
  qed (use H newer ok in auto)
  moreover have "unflushed ?lf (H @ [e]) = unflushed ?lf H @ [e]"
    using newer(1) by simp
  moreover have "\<exists>H0 G. H @ [e] = H0 @ G \<and> ww_file w = wal_image (crc32c D) (log_recs G) \<and>
      (\<forall>e \<in> set G. ?lf < fst e)"
    using H newer(1) log' by (intro exI [of _ H0] exI [of _ "G @ [e]"]) auto
  moreover have "\<forall>e' \<in> set (H @ [e]). fst e' \<le> co_seq c + 1" "?lf \<le> co_seq c + 1"
    using newer by (auto simp: e(1))
  ultimately show ?thesis
    using live unfolding live_def by (simp add: crash_disk_def H(1))
qed

lemma apply_request_live:
  assumes live: "live D c H" and room: "unat (co_seq c) + 1 < 2 ^ 64" and fits: "req_fits op"
    and step: "apply_request D io_ok c op = (c', r, a)"
  shows "live D c' (H @ new_entries D c op) \<and>
    ww_file (co_wal c') = ww_file (co_wal c) @ wal_image (crc32c D) (log_recs (new_entries D c op)) \<and>
    unat (co_seq c') \<le> unat (co_seq c) + 1 \<and> same_files c' c"
proof -
  consider "new_entries D c op = []" "c' = c" | b where "request_batch (core_kv D c) op = Inr (Some b)"
    using step by (auto simp: apply_request_def new_entries_def split: sum.splits option.splits)
  then show ?thesis
  proof cases
    case 1
    then show ?thesis using live by (simp add: same_files_def)
  next
    case 2
    let ?e = "(co_seq c + 1, b)"
    let ?w = "wal_append (crc32c D) (co_wal c) (co_seq c + 1) (batch_encode b)"
    have c': "c' = c\<lparr>co_seq := co_seq c + 1, co_wal := ?w, co_active := mt_apply D (co_active c) (fst ?e) (snd ?e)\<rparr>"
      and E: "new_entries D c op = [?e]"
      using step 2 by (simp_all add: apply_request_def new_entries_def Let_def io_ok_def)
    have "live D c' (H @ [?e])"
      unfolding c' using live room request_batch_fits [OF 2 fits]
      by (intro live_extend) (simp_all add: wal_append_def Let_def)
    then show ?thesis
      using room by (simp add: c' E wal_append_def Let_def unat_u64_Suc same_files_def)
  qed
qed

lemma apply_requests_live:
  assumes "live D c H" "unat (co_seq c) + length os < 2 ^ 64" "\<forall>op \<in> set os. req_fits op"
    and "apply_requests D io_ok c os = (c', rs, a)"
  shows "live D c' (H @ group_entries D c os) \<and>
    ww_file (co_wal c') = ww_file (co_wal c) @ wal_image (crc32c D) (log_recs (group_entries D c os)) \<and>
    same_files c' c"
  using assms
proof (induction os arbitrary: c H rs a)
  case Nil
  then show ?case by (simp add: same_files_def)
next
  case (Cons op os)
  obtain c1 r a1 where one: "apply_request D io_ok c op = (c1, r, a1)"
    by (metis prod_cases3)
  obtain rs' a' where rest: "apply_requests D io_ok c1 os = (c', rs', a')"
    using Cons.prems(4) one by (auto split: prod.splits)
  have step: "live D c1 (H @ new_entries D c op) \<and>
    ww_file (co_wal c1) = ww_file (co_wal c) @ wal_image (crc32c D) (log_recs (new_entries D c op)) \<and>
    unat (co_seq c1) \<le> unat (co_seq c) + 1 \<and> same_files c1 c"
    using Cons.prems by (intro apply_request_live [OF _ _ _ one]) auto
  then have "live D c' ((H @ new_entries D c op) @ group_entries D c1 os) \<and>
    ww_file (co_wal c') = ww_file (co_wal c1) @ wal_image (crc32c D) (log_recs (group_entries D c1 os)) \<and>
    same_files c' c1"
    using Cons.prems by (intro Cons.IH [OF _ _ _ rest]) auto
  with step show ?case
    by (simp add: one same_files_def)
qed

section \<open>Rotation and flush\<close>

text \<open>Room for the counters: sequence numbers for \<open>k\<close> more records, file numbers for one more
  segment and table.\<close>

definition has_room :: "'m core \<Rightarrow> nat \<Rightarrow> bool" where
  "has_room c k \<longleftrightarrow> unat (co_seq c) + k < 2 ^ 64 \<and> unat (co_next_seg c) + 2 < 2 ^ 64 \<and>
     unat (co_next_sst c) + 2 < 2 ^ 64 \<and> length (co_sstables c) + 1 < 2 ^ 32"

lemma io_ok_simps [simp]:
  "io_append io_ok n = None" "io_sync io_ok" "io_create io_ok" "io_sst io_ok = None" "io_manifest io_ok"
  by (simp_all add: io_ok_def)

lemma disk_holds_files:
  assumes "disk_holds D dk mf ssts H" "\<And>n. n \<in> set (mf_sstables mf) \<Longrightarrow> map_of S n = map_of (dk_ssts dk) n"
  shows "disk_holds D (dk\<lparr>dk_ssts := S\<rparr>) mf ssts H"
  using assms(1) open_ssts_cong [OF assms(2)] by (simp add: disk_holds_def)

lemma rotate_holds:
  assumes live: "live D c H"
  shows "disk_holds D (crash_disk (rotate_wal D io_ok c) n) (core_manifest c) (co_sstables c) H"
proof -
  let ?segs = "co_old_segs c @ [(co_wal_no c, ww_file (co_wal c))]"
  have holds: "disk_holds D \<lparr>dk_segs = ?segs, dk_ssts = co_sst_files c, dk_manifest = co_manifest c\<rparr>
      (core_manifest c) (co_sstables c) H" and no: "co_wal_no c < co_next_seg c"
    using live by (simp_all add: live_def crash_disk_def)
  have "sorted_wrt (<) (map fst (?segs @ [(co_next_seg c, [])]))"
    using holds no by (auto simp: disk_holds_def sorted_wrt_append dest: less_trans)
  moreover have "wal_records (crc32c D) [] 0 = ([], 0)"
    using wal_records_image [of "[]"] by simp
  ultimately show ?thesis
    using holds by (simp add: disk_holds_def crash_disk_def rotate_wal_def io_ok_def wal_create_def Let_def)
qed

text \<open>A crash anywhere between the rotation and the new manifest: a table the manifest does not
  name, whole or torn, changes nothing.\<close>

lemma install_holds:
  assumes live: "live D c H"
  shows "disk_holds D (crash_disk (fst (install_sst D io (rotate_wal D io_ok c) frozen)) n)
    (core_manifest c) (co_sstables c) H"
proof -
  let ?c = "rotate_wal D io_ok c"
  let ?c' = "fst (install_sst D io ?c frozen)"
  have "co_sst_files ?c' = co_sst_files c \<or>
      (\<exists>img. co_sst_files ?c' = AList.update (co_next_sst c) img (co_sst_files c))"
    by (auto simp: install_sst_def Let_def rotate_wal_def io_ok_def split: option.split sum.split)
  moreover have "k \<noteq> co_next_sst c" if "k \<in> set (mf_sstables (core_manifest c))" for k
    using live that by (auto simp: live_def)
  ultimately have "map_of (co_sst_files ?c') k = map_of (co_sst_files c) k"
    if "k \<in> set (mf_sstables (core_manifest c))" for k
    using that by (metis fun_upd_other update_conv')
  then have "disk_holds D ((crash_disk ?c n)\<lparr>dk_ssts := co_sst_files ?c'\<rparr>) (core_manifest c) (co_sstables c) H"
    by (intro disk_holds_files [OF rotate_holds [OF live]])
      (simp add: crash_disk_def rotate_wal_def io_ok_def Let_def)
  moreover have "crash_disk ?c' n = (crash_disk ?c n)\<lparr>dk_ssts := co_sst_files ?c'\<rparr>"
    by (auto simp: install_sst_def crash_disk_def Let_def split: option.split sum.split)
  ultimately show ?thesis by simp
qed

text \<open>A manifest whose watermark covers the whole history and whose tables hold it.\<close>

lemma disk_holds_checkpoint:
  assumes holds: "disk_holds D dk mf ssts H"
    and lf: "mf_last_flushed_seq mf \<le> mf_last_flushed_seq mf'" "\<forall>e \<in> set H. fst e \<le> mf_last_flushed_seq mf'"
    and ssts: "open_ssts (crc32c D) S (mf_sstables mf') = Inr ssts'"
      "\<forall>r \<in> set ssts'. sst_serves (crc32c D) r (sst_store (crc32c D) r)"
      "overlay (map (sst_store (crc32c D)) (rev ssts')) = hist_store H"
    and load: "manifest_load (crc32c D) M = Inr mf'"
  shows "disk_holds D \<lparr>dk_segs = dk_segs dk, dk_ssts = S, dk_manifest = M\<rparr> mf' ssts' H"
proof -
  let ?lf = "mf_last_flushed_seq mf" and ?lf' = "mf_last_flushed_seq mf'"
  have "flushed ?lf' H = H" "unflushed ?lf' H = []"
    using lf(2) by (auto simp: flushed_def unflushed_def filter_id_conv filter_empty_conv not_less)
  moreover have "fst r \<le> ?lf'" if "r \<in> set (seg_records D (dk_segs dk))" for r
  proof (cases "fst r \<le> ?lf")
    case False
    then have "r \<in> set (unflushed ?lf (seg_records D (dk_segs dk)))"
      using that by (simp add: unflushed_def)
    then have "r \<in> set (log_recs (unflushed ?lf H))"
      using holds by (simp add: disk_holds_def)
    then show ?thesis using lf(2) by (auto simp: log_recs_def unflushed_def)
  qed (use lf(1) in simp)
  then have "unflushed ?lf' (seg_records D (dk_segs dk)) = []"
    by (auto simp: unflushed_def filter_empty_conv not_less)
  ultimately show ?thesis
    using holds ssts load by (simp add: disk_holds_def)
qed

context mem_skip_map
begin

lemma mt_max_seq_mem_of: "mt_max_seq (mem_of D G m) = fold max (map fst G) (mt_max_seq m)"
  by (induction G arbitrary: m) (simp_all add: max.commute)

lemma live_watermark:
  assumes "live D c H" "lf' = max (co_last_flushed_seq c) (mt_max_seq (co_active c))"
  shows "co_last_flushed_seq c \<le> lf'" "lf' \<le> co_seq c" "\<forall>e \<in> set H. fst e \<le> lf'"
proof -
  let ?G = "unflushed (co_last_flushed_seq c) H"
  have ms: "mt_max_seq (co_active c) = fold max (map fst ?G) 0"
    using assms(1) by (simp add: live_def mt_max_seq_mem_of)
  show "co_last_flushed_seq c \<le> lf'" by (simp add: assms(2))
  have "mt_max_seq (co_active c) \<in> insert 0 (set (map fst ?G))"
    unfolding ms by (rule fold_max_in)
  then have "mt_max_seq (co_active c) \<le> co_seq c"
    using assms(1) by (auto simp: live_def unflushed_def)
  then show "lf' \<le> co_seq c" using assms by (simp add: live_def)
  show "\<forall>e \<in> set H. fst e \<le> lf'"
  proof
    fix e assume e: "e \<in> set H"
    show "fst e \<le> lf'"
    proof (cases "fst e \<le> co_last_flushed_seq c")
      case False
      then have "fst e \<le> fold max (map fst ?G) 0"
        using e by (intro fold_max_bound) (auto simp: unflushed_def)
      then show ?thesis by (simp add: assms(2) ms le_max_iff_disj)
    qed (simp add: assms(2) le_max_iff_disj)
  qed
qed

text \<open>The successful end of a flush: tables \<open>ssts\<close> that hold the history, the memtables
  gone.\<close>

lemma live_checkpoint:
  assumes live: "live D c H" and room: "has_room c 0"
    and lf': "lf' = max (co_last_flushed_seq c) (mt_max_seq (co_active c))"
    and ssts: "open_ssts (crc32c D) S (map sr_file_no ssts) = Inr ssts" "length ssts < 2 ^ 32"
      "\<forall>r \<in> set ssts. sst_serves (crc32c D) r (sst_store (crc32c D) r) \<and> sr_file_no r < next_sst"
      "overlay (map (sst_store (crc32c D)) (rev ssts)) = hist_store H"
  shows "live D ((rotate_wal D io_ok c)\<lparr>co_next_sst := next_sst, co_sst_files := S, co_sstables := ssts,
    co_last_flushed_seq := lf', co_manifest := Some (manifest_encode (crc32c D)
      \<lparr>mf_last_flushed_seq = lf', mf_sstables = map sr_file_no ssts\<rparr>), co_immutable := []\<rparr>) H"
proof -
  let ?c = "rotate_wal D io_ok c"
  let ?mf = "\<lparr>mf_last_flushed_seq = lf', mf_sstables = map sr_file_no ssts\<rparr>"
  let ?M = "Some (manifest_encode (crc32c D) ?mf)"
  note wm = live_watermark [OF live lf']
  have cr: "co_active ?c = mt_new D" "co_wal ?c = wal_create" "co_next_seg ?c = co_next_seg c + 1"
    "co_seq ?c = co_seq c" "co_wal_no ?c = co_next_seg c"
    by (simp_all add: rotate_wal_def io_ok_def Let_def)
  have "manifest_load (crc32c D) ?M = Inr ?mf"
    using ssts(2) by (simp add: manifest_load_def manifest_roundtrip)
  then have "disk_holds D \<lparr>dk_segs = dk_segs (crash_disk ?c 0), dk_ssts = S, dk_manifest = ?M\<rparr> ?mf ssts H"
    using wm ssts by (intro disk_holds_checkpoint [OF rotate_holds [OF live]]) auto
  moreover have "unflushed lf' H = []"
    using wm(3) by (auto simp: unflushed_def filter_empty_conv not_less)
  moreover have "co_next_seg c < co_next_seg c + 1"
    using room by (intro u64_Suc_newer) (simp_all add: has_room_def)
  moreover have "\<exists>H0 G. H = H0 @ G \<and> ([] :: bytes) = wal_image (crc32c D) (log_recs G) \<and> (\<forall>e \<in> set G. lf' < fst e)"
    by (intro exI [of _ H] exI [of _ "[]"]) simp
  moreover have "\<forall>e \<in> set H. fst e \<le> co_seq c"
    using live by (simp add: live_def)
  ultimately show ?thesis
    using ssts(3) wm(2) unfolding live_def
    by (simp add: cr crash_disk_def wal_create_def)
qed

lemma flush_live:
  assumes live: "live D c H" and room: "has_room c 0" and fits: "sst_fits (sst_entries D (co_active c))"
  shows "live D (fst (flush_memtable D io_ok (rotate_wal D io_ok c))) H"
proof -
  let ?c = "rotate_wal D io_ok c" and ?m = "co_active c"
  let ?lf' = "max (co_last_flushed_seq c) (mt_max_seq ?m)"
  let ?old = "rev (co_sstables c)"
  have inv: "mt_inv D ?m" and imm: "co_immutable c = []"
    and cr: "co_immutable ?c = [?m]" "co_sstables ?c = co_sstables c" "co_next_sst ?c = co_next_sst c"
      "co_sst_files ?c = co_sst_files c" "co_last_flushed_seq ?c = co_last_flushed_seq c"
    using live_core_inv [OF live] live
    by (simp_all add: core_inv_def live_def rotate_wal_def io_ok_def Let_def)
  have ssts: "open_ssts (crc32c D) (co_sst_files c) (map sr_file_no (co_sstables c)) = Inr (co_sstables c)"
    "\<forall>r \<in> set (co_sstables c). sst_serves (crc32c D) r (sst_store (crc32c D) r) \<and> sr_file_no r < co_next_sst c"
    using live by (simp_all add: live_def disk_holds_def crash_disk_def)
  have all: "overlay (mt_store D ?m # map (sst_store (crc32c D)) ?old) = hist_store H"
    using live_store [OF live] imm by (simp add: core_store_def levels_def)
  obtain c1 res where i: "install_sst D io_ok ?c ?m = (c1, res)" by fastforce
  from inv fits i show ?thesis
  proof (cases rule: install_sst_cases)
    case (kept e)
    then show ?thesis by simp
  next
    case empty
    have "overlay (map (sst_store (crc32c D)) ?old) = hist_store H"
      using all mt_is_empty_store [OF inv empty(3)] by (simp add: overlay_empty del: overlay.simps)
    from live_checkpoint [OF live room refl ssts(1) _ ssts(2) this]
    have "live D (?c\<lparr>co_next_sst := co_next_sst c, co_sst_files := co_sst_files c,
        co_sstables := co_sstables c, co_last_flushed_seq := ?lf', co_manifest := Some (manifest_encode (crc32c D)
        \<lparr>mf_last_flushed_seq = ?lf', mf_sstables = map sr_file_no (co_sstables c)\<rparr>), co_immutable := []\<rparr>) H"
      using room by (simp add: has_room_def)
    moreover have "?c\<lparr>co_next_sst := co_next_sst c, co_sst_files := co_sst_files c,
        co_sstables := co_sstables c\<rparr> = ?c"
      using cr by simp
    ultimately show ?thesis
      using empty i by (simp add: flush_memtable_def cr persist_manifest_def Let_def)
  next
    case (added img reader)
    let ?n = "co_next_sst c" and ?S = "AList.update (co_next_sst c) img (co_sst_files c)"
    let ?ssts = "co_sstables c @ [reader]"
    have nos: "\<And>k. k \<in> set (map sr_file_no (co_sstables c)) \<Longrightarrow> k \<noteq> ?n"
      using ssts(2) by auto
    have "open_ssts (crc32c D) ?S (map sr_file_no (co_sstables c)) = Inr (co_sstables c)"
      using ssts(1) open_ssts_cong [of "map sr_file_no (co_sstables c)" ?S "co_sst_files c"] nos
      by (metis fun_upd_other update_conv')
    then have 1: "open_ssts (crc32c D) ?S (map sr_file_no ?ssts) = Inr ?ssts"
      using added(2,3) by (simp add: cr open_ssts_snoc update_conv')
    have step: "?n < ?n + 1" "\<And>k. k \<le> ?n \<Longrightarrow> k < ?n + 1"
      using room by (auto intro!: u64_Suc_newer simp: has_room_def)
    have st: "sst_store (crc32c D) reader = mt_store D ?m"
      using added(4) by (rule sst_serves_store)
    have 2: "\<forall>r \<in> set ?ssts. sst_serves (crc32c D) r (sst_store (crc32c D) r) \<and> sr_file_no r < ?n + 1"
      using ssts(2) added(3,4) step st by (auto simp: cr less_imp_le)
    have "overlay (map (sst_store (crc32c D)) (rev ?ssts)) = hist_store H"
      using all by (simp add: st del: overlay.simps)
    from live_checkpoint [OF live room refl 1 _ 2 this] show ?thesis
      using added i room
      by (simp add: flush_memtable_def cr persist_manifest_def Let_def has_room_def)
  qed
qed

lemma mt_sized_mem_of: "mt_sized D m \<Longrightarrow> mt_sized D (mem_of D G m)"
  by (induction G arbitrary: m) (simp_all add: mt_sized_apply)

end

section \<open>Groups and crashes\<close>

text \<open>A group the engine has room for: counters do not run out, records and tables keep within
  their length fields.\<close>

definition group_ok :: "'m core \<Rightarrow> op list \<Rightarrow> bool" where
  "group_ok c reqs \<longleftrightarrow> has_room c (length reqs) \<and> (\<forall>op \<in> set reqs. req_fits op) \<and>
     mt_size (co_active c) + sum_list (map req_cost reqs) < 2 ^ 31 - 2"

lemma live_below:
  assumes "live D c H" "has_room c k" "co_old_segs c' = co_old_segs c" "co_wal_no c' = co_wal_no c"
  shows "below 2 (map fst (dk_segs (crash_disk c' n)))" "below 2 (mf_sstables (core_manifest c))"
proof -
  have "sorted_wrt (<) (map fst (co_old_segs c) @ [co_wal_no c])"
    using assms(1) by (simp add: live_def disk_holds_def crash_disk_def)
  then have "fst s < co_next_seg c" if "s \<in> set (dk_segs (crash_disk c' n))" for s
    using assms that by (auto simp: live_def crash_disk_def sorted_wrt_append dest: less_trans)
  then show "below 2 (map fst (dk_segs (crash_disk c' n)))"
    using assms(2) by (force simp: below_def has_room_def word_less_nat_alt)
  show "below 2 (mf_sstables (core_manifest c))"
    using assms(1,2) by (force simp: live_def below_def has_room_def word_less_nat_alt)
qed

context mem_skip_map
begin

lemma live_active_fits:
  "live D c H \<Longrightarrow> mt_size (co_active c) < 2 ^ 31 - 2 \<Longrightarrow> sst_fits (sst_entries D (co_active c))"
  by (rule mt_sized_fits) (simp add: live_def mt_sized_mem_of)

lemma process_group_live:
  assumes live: "live D c H" and ok: "group_ok c reqs" and group: "process_group D io_ok c reqs = (c', rs)"
  shows "live D c' (H @ group_entries D c reqs)"
proof -
  obtain c1 rs1 a where ap: "apply_requests D io_ok c reqs = (c1, rs1, a)"
    by (metis prod_cases3)
  have l1: "live D c1 (H @ group_entries D c reqs)" "same_files c1 c"
    using apply_requests_live [OF live _ _ ap] ok by (simp_all add: group_ok_def has_room_def)
  have "mt_sized D (co_active c)"
    using live by (simp add: live_def mt_sized_mem_of)
  then have "mt_size (co_active c1) < 2 ^ 31 - 2"
    using apply_requests_size [OF ap] ok by (simp add: group_ok_def)
  moreover have "has_room c1 0"
    using ok l1(2) unsigned_less [of "co_seq c1"] by (simp add: group_ok_def has_room_def same_files_def)
  ultimately have "live D (fst (flush_memtable D io_ok (rotate_wal D io_ok c1))) (H @ group_entries D c reqs)"
    using l1(1) by (intro flush_live live_active_fits)
  with l1 group show ?thesis
    by (auto simp: process_group_def ap split: if_splits)
qed

lemma group_entries_newer:
  "unat (co_seq c) + length os < 2 ^ 64 \<Longrightarrow> e \<in> set (group_entries D c os) \<Longrightarrow> co_seq c < fst e"
proof (induction os arbitrary: c)
  case (Cons op os)
  let ?c = "fst (apply_request D io_ok c op)"
  have seq: "co_seq ?c = co_seq c \<or> co_seq ?c = co_seq c + 1"
    by (auto simp: apply_request_def Let_def split: sum.split option.split)
  have room: "unat (co_seq c) + 1 < 2 ^ 64"
    using Cons.prems(1) by simp
  have le: "co_seq c \<le> co_seq ?c" "unat (co_seq ?c) + length os < 2 ^ 64"
    using seq Cons.prems(1) u64_Suc_newer [OF room, of "co_seq c"] unat_u64_Suc [OF room] by auto
  from Cons.prems(2) consider "e \<in> set (new_entries D c op)" | "e \<in> set (group_entries D ?c os)"
    by auto
  then show ?case
  proof cases
    case 1
    then show ?thesis
      using u64_Suc_newer [OF room, of "co_seq c"]
      by (auto simp: new_entries_def split: sum.splits option.splits)
  next
    case 2
    with Cons.IH le show ?thesis by (auto intro: le_less_trans)
  qed
qed simp

lemma crash_reopen:
  assumes live: "live D c H" and ok: "group_ok c reqs" and ap: "apply_requests D io_ok c reqs = (c', rs, a)"
    and cut: "length (ww_file (co_wal c)) \<le> n"
  shows "\<exists>k c''. engine_open D t (crash_disk c' n) = Inr c'' \<and> live D c'' (H @ take k (group_entries D c reqs))"
proof -
  let ?E = "group_entries D c reqs"
  have l1: "live D c' (H @ ?E)" "same_files c' c"
    "ww_file (co_wal c') = ww_file (co_wal c) @ wal_image (crc32c D) (log_recs ?E)"
    using apply_requests_live [OF live _ _ ap] ok by (simp_all add: group_ok_def has_room_def)
  have "\<forall>e \<in> set ?E. co_last_flushed_seq c < fst e"
    using group_entries_newer [of c reqs] ok live
    by (auto simp: group_ok_def has_room_def live_def intro: le_less_trans)
  then obtain k where k: "disk_holds D (crash_disk c' n) (core_manifest c) (co_sstables c) (H @ take k ?E)"
    using live_crash [OF live _ _ _ _ l1(3) live_hist_ok [OF l1(1)] _ cut] l1(2)
    unfolding same_files_def by blast
  have "has_room c (length reqs)" "co_old_segs c' = co_old_segs c" "co_wal_no c' = co_wal_no c"
    using ok l1(2) by (simp_all add: group_ok_def same_files_def)
  note room = live_below [OF live this]
  show ?thesis
    using engine_open_eq [OF k] opened_core_live [OF k room] by blast
qed

text \<open>A crash during the flush that follows the group.\<close>

lemma crash_flush_reopen:
  assumes live: "live D c H" and room: "has_room c 0"
  shows "\<exists>c''. engine_open D t (crash_disk (fst (install_sst D io (rotate_wal D io_ok c) (co_active c))) n) = Inr c'' \<and>
    live D c'' H"
proof -
  let ?c' = "fst (install_sst D io (rotate_wal D io_ok c) (co_active c))"
  note holds = install_holds [OF live, of io "co_active c" n]
  have segs: "map fst (dk_segs (crash_disk ?c' n)) = map fst (co_old_segs c) @ [co_wal_no c, co_next_seg c]"
    by (auto simp: install_sst_def crash_disk_def rotate_wal_def Let_def split: option.split sum.split)
  have "below 2 (map fst (dk_segs (crash_disk c 0)))" "below 2 (mf_sstables (core_manifest c))"
    using live_below [OF live room refl refl] by blast+
  moreover have "below 2 [co_next_seg c]"
    using room by (simp add: below_def has_room_def)
  ultimately have "below 2 (map fst (dk_segs (crash_disk ?c' n)))" "below 2 (mf_sstables (core_manifest c))"
    unfolding segs by (auto simp: below_def crash_disk_def)
  then show ?thesis
    using engine_open_eq [OF holds] opened_core_live [OF holds] by blast
qed

text \<open>The engine on an empty directory.\<close>

lemma fresh_live:
  defines "dk \<equiv> \<lparr>dk_segs = [], dk_ssts = [], dk_manifest = None\<rparr>"
  shows "engine_open D t dk = Inr (opened_core D t dk manifest_default [] [])"
    "live D (opened_core D t dk manifest_default [] []) []"
proof -
  have holds: "disk_holds D dk manifest_default [] []"
    by (simp add: dk_def disk_holds_def manifest_load_def manifest_default_def hist_store_def
        flushed_def hist_ok_def fun_eq_iff)
  show "engine_open D t dk = Inr (opened_core D t dk manifest_default [] [])"
    by (rule engine_open_eq [OF holds])
  show "live D (opened_core D t dk manifest_default [] []) []"
    by (rule opened_core_live [OF holds]) (simp_all add: dk_def below_def manifest_default_def)
qed

end

section \<open>Durability\<close>

definition empty_dir :: disk where
  "empty_dir = \<lparr>dk_segs = [], dk_ssts = [], dk_manifest = None\<rparr>"

definition fresh_core :: "'m mem_deps \<Rightarrow> nat \<Rightarrow> 'm core" where
  "fresh_core D t = opened_core D t empty_dir manifest_default [] []"

definition put_op :: "bytes \<Rightarrow> bytes \<Rightarrow> op" where
  "put_op k v = OWrite (batch_put batch_new CfDefault k v)"

lemma fresh_core_sel [simp]:
  "co_threshold (fresh_core D t) = t" "co_active (fresh_core D t) = mt_new D"
  "co_immutable (fresh_core D t) = []" "co_sstables (fresh_core D t) = []"
  "co_wal (fresh_core D t) = wal_create" "co_wal_no (fresh_core D t) = 1" "co_seq (fresh_core D t) = 0"
  "co_last_flushed_seq (fresh_core D t) = 0" "co_next_seg (fresh_core D t) = 2"
  "co_next_sst (fresh_core D t) = 1" "co_old_segs (fresh_core D t) = []"
  "co_sst_files (fresh_core D t) = []" "co_manifest (fresh_core D t) = None"
  by (simp_all add: fresh_core_def opened_core_def empty_dir_def manifest_default_def)

lemma request_batch_put [simp]:
  "request_batch K (put_op k v) = Inr (Some (batch_put batch_new CfDefault k v))"
  by (simp add: request_batch_def put_op_def)

lemma fresh_core_live: "mem_skip_map D \<Longrightarrow> live D (fresh_core D t) []"
  unfolding fresh_core_def empty_dir_def by (rule mem_skip_map.fresh_live)

lemma put_op_ok: "group_ok (fresh_core D t) [put_op [1] [2]]"
  by (simp add: group_ok_def has_room_def req_fits_def req_cost_def put_op_def batch_cost_def batch_put_def
      batch_new_def payload_fits_def batch_encode_def put_length_prefixed_def SEQ_LEN_def batch_fits_def
      mt_new_def)

text \<open>C7: A point lookup and a seek answer from the overlay of the levels: the newest level that
  has the key decides, a tombstone hides what is below it, and the seek finds the least key at or
  after the cursor.\<close>

theorem core_reads_refine:
  assumes "mem_skip_map D" "core_inv D c"
  shows "core_get_cf D c cf key = Inr (present (core_store D c) cf key) \<and>
    (\<exists>r. core_seek_cf D c cf from = Inr r \<and> seek_spec (core_store D c cf) from r)"
  using core_get_cf_store [OF assms(2)] mem_skip_map.core_seek_cf_store [OF assms] by blast

theorem core_reads_refine_witness:
  "core_get_cf list_deps (fresh_core list_deps 9) CfLock [1] = Inr (present (core_store list_deps (fresh_core list_deps 9)) CfLock [1])"
  using core_reads_refine [OF list_mem.mem_skip_map_axioms
      list_mem.live_core_inv [OF fresh_core_live [OF list_mem.mem_skip_map_axioms]]] by blast







text \<open>C3: The process dies during a flush, after the rotation and before the new manifest is in
  place, with the new table absent, torn or whole. Reopening succeeds and loses nothing.\<close>

theorem crash_in_flush_recovers:
  assumes "mem_skip_map D" "live D c H" "has_room c 0"
  shows "\<exists>c''. engine_open D t (crash_disk (fst (install_sst D io (rotate_wal D io_ok c) (co_active c))) n) = Inr c'' \<and>
    live D c'' H \<and> core_store D c'' = core_store D c"
  using mem_skip_map.crash_flush_reopen [OF assms] mem_skip_map.live_store [OF assms(1)] assms(2) by metis

theorem crash_in_flush_recovers_witness:
  "\<exists>c''. engine_open list_deps 9 (crash_disk (fst (install_sst list_deps io_ok
       (rotate_wal list_deps io_ok (fresh_core list_deps 9)) (mt_new list_deps))) 0) = Inr c'' \<and>
     core_store list_deps c'' = core_store list_deps (fresh_core list_deps 9)"
  using crash_in_flush_recovers [OF list_mem.mem_skip_map_axioms
      fresh_core_live [OF list_mem.mem_skip_map_axioms], where t = 9 and io = io_ok and n = 0]
  by (auto simp: has_room_def)

end
