(* ===== verification/Engine_Faults.thy ===== *)
theory Engine_Faults
  imports Recovery
begin

text \<open>
  What failing file operations do to the engine core of \<open>engine/src/db.rs\<close>. The committer
  ignores the error of a flush and never retries it, so the memtable stays in the queue of frozen
  memtables while later flushes go past it. The runs below start from a fresh engine whose
  memtable threshold is one byte, so every group freezes and flushes.
\<close>

text \<open>The table file cannot be written.\<close>

definition sst_fault :: io_env where
  "sst_fault = io_ok\<lparr>io_sst := Some 0\<rparr>"

abbreviation put_mem :: "'m mem_deps \<Rightarrow> u64 \<Rightarrow> bytes \<Rightarrow> bytes \<Rightarrow> 'm memtable" where
  "put_mem D n k v \<equiv> mt_apply D (mt_new D) n (batch_put batch_new CfDefault k v)"

abbreviation put_frame :: "'m mem_deps \<Rightarrow> u64 \<Rightarrow> bytes \<Rightarrow> bytes \<Rightarrow> bytes" where
  "put_frame D n k v \<equiv> wal_frame (crc32c D) n (batch_encode (batch_put batch_new CfDefault k v))"

context mem_skip_map
begin

lemma put_mem_size: "mt_size (put_mem D n k v) = length k + length v + 24"
  by (simp add: mt_size_apply batch_cost_def batch_put_def batch_new_def mt_new_def)

lemma put_mem_store: "mt_store D (put_mem D n k v) cf k' =
    (if cf = CfDefault \<and> k' = k then Some (MvPut v) else None)"
  by (simp add: store_batch_def batch_put_def batch_new_def store_op_apply)

lemma put_mem_fits: "length k + length v < 1000 \<Longrightarrow> sst_fits (sst_entries D (put_mem D n k v))"
  by (rule mt_sized_fits) (simp_all add: mt_sized_apply put_mem_size)

text \<open>A group of one put on a core whose active memtable is empty, up to the flush.\<close>

lemma put_group:
  assumes "co_active c = mt_new D" "co_threshold c = 1" "io_append io (co_seq c + 1) = None" "io_sync io"
  shows "process_group D io c [put_op k v] =
    (fst (flush_memtable D io (rotate_wal D io
       (c\<lparr>co_seq := co_seq c + 1,
          co_wal := wal_append (crc32c D) (co_wal c) (co_seq c + 1)
            (batch_encode (batch_put batch_new CfDefault k v)),
          co_active := put_mem D (co_seq c + 1) k v\<rparr>))), [Inr (co_seq c + 1)])"
  using assms by (simp add: process_group_def apply_request_def Let_def put_mem_size)

lemma failed_flush_core:
  assumes "length k + length v < 1000"
  shows "\<exists>c. process_group D sst_fault (fresh_core D 1) [put_op k v] = (c, [Inr 1]) \<and>
    c = (fresh_core D 1)\<lparr>co_seq := 1, co_wal := wal_create, co_wal_no := 2, co_next_seg := 3,
      co_next_sst := 2, co_old_segs := [(1, put_frame D 1 k v)], co_sst_files := [(1, [])],
      co_active := mt_new D, co_immutable := [put_mem D 1 k v]\<rparr>"
proof -
  obtain img where "write_sst D (put_mem D 1 k v) = Some img"
    using sst_serves_write_sst [OF _ put_mem_fits [OF assms]] by (metis mt_inv_apply mt_inv_new)
  moreover have "\<not> mt_is_empty (put_mem D 1 k v)"
    by (simp add: mt_is_empty_def put_mem_size)
  ultimately show ?thesis
    by (subst put_group)
      (simp_all add: flush_memtable_def rotate_wal_def install_sst_def sst_fault_def Let_def
        wal_append_def wal_create_def)
qed

lemma second_flush_core:
  assumes "length k + length v < 1000" "length k' + length v' < 1000"
    and first: "process_group D sst_fault (fresh_core D 1) [put_op k v] = (c1, [Inr 1])"
  shows "\<exists>img reader. sst_open (crc32c D) img 2 = Inr reader \<and> sr_file_no reader = 2 \<and>
    sst_serves (crc32c D) reader (mt_store D (put_mem D 2 k' v')) \<and>
    process_group D io_ok c1 [put_op k' v'] = (c1\<lparr>co_seq := 2, co_wal_no := 3, co_next_seg := 4,
      co_next_sst := 3, co_old_segs := [(1, put_frame D 1 k v), (2, put_frame D 2 k' v')],
      co_sst_files := [(1, []), (2, img)], co_sstables := [reader], co_last_flushed_seq := 2,
      co_manifest := Some (manifest_encode (crc32c D) \<lparr>mf_last_flushed_seq = 2, mf_sstables = [2]\<rparr>)\<rparr>,
      [Inr 2])"
proof -
  obtain img reader where r: "write_sst D (put_mem D 2 k' v') = Some img"
    "sst_open (crc32c D) img 2 = Inr reader" "sr_file_no reader = 2"
    "sst_serves (crc32c D) reader (mt_store D (put_mem D 2 k' v'))"
    using sst_serves_write_sst [OF _ put_mem_fits [OF assms(2)]] by (metis mt_inv_apply mt_inv_new)
  have c1: "c1 = (fresh_core D 1)\<lparr>co_seq := 1, co_wal := wal_create, co_wal_no := 2, co_next_seg := 3,
      co_next_sst := 2, co_old_segs := [(1, put_frame D 1 k v)], co_sst_files := [(1, [])],
      co_active := mt_new D, co_immutable := [put_mem D 1 k v]\<rparr>"
    using failed_flush_core [OF assms(1)] first by simp
  have "\<not> mt_is_empty (put_mem D 2 k' v')"
    by (simp add: mt_is_empty_def put_mem_size)
  then have "process_group D io_ok c1 [put_op k' v'] = (c1\<lparr>co_seq := 2, co_wal_no := 3, co_next_seg := 4,
      co_next_sst := 3, co_old_segs := [(1, put_frame D 1 k v), (2, put_frame D 2 k' v')],
      co_sst_files := [(1, []), (2, img)], co_sstables := [reader], co_last_flushed_seq := 2,
      co_manifest := Some (manifest_encode (crc32c D) \<lparr>mf_last_flushed_seq = 2, mf_sstables = [2]\<rparr>)\<rparr>,
      [Inr 2])"
    by (subst put_group)
      (simp_all add: c1 flush_memtable_def rotate_wal_def install_sst_def persist_manifest_def Let_def r
        wal_append_def wal_create_def)
  with r show ?thesis by blast
qed

end

section \<open>Recovery after a failed flush\<close>

lemma length_put_payload: "length (batch_encode (batch_put batch_new CfDefault k v)) = 14 + length k + length v"
  by (simp add: batch_encode_def batch_put_def batch_new_def put_length_prefixed_def)

lemma put_entry_fits: "length k + length v < 1000 \<Longrightarrow> entry_fits (n, batch_put batch_new CfDefault k v)"
  by (simp add: payload_fits_def length_put_payload SEQ_LEN_def)
    (simp add: batch_fits_def batch_put_def batch_new_def)

context mem_skip_map
begin

lemma second_flush_holds:
  assumes "length k + length v < 1000" "length k' + length v' < 1000"
    and "process_group D sst_fault (fresh_core D 1) [put_op k v] = (c1, [Inr 1])"
    and "process_group D io_ok c1 [put_op k' v'] = (c2, rs)"
  shows "\<exists>reader. disk_holds D (crash_disk c2 n) \<lparr>mf_last_flushed_seq = 2, mf_sstables = [2]\<rparr> [reader]
    [(2, batch_put batch_new CfDefault k' v')]"
proof -
  let ?H = "[(2 :: u64, batch_put batch_new CfDefault k' v')]"
  let ?f = "put_frame D 1 k v" and ?f' = "put_frame D 2 k' v'"
  obtain reader img where r: "sst_open (crc32c D) img 2 = Inr reader" "sr_file_no reader = 2"
    "sst_serves (crc32c D) reader (mt_store D (put_mem D 2 k' v'))"
    and c2: "c2 = c1\<lparr>co_seq := 2, co_wal_no := 3, co_next_seg := 4,
      co_next_sst := 3, co_old_segs := [(1, ?f), (2, ?f')],
      co_sst_files := [(1, []), (2, img)], co_sstables := [reader], co_last_flushed_seq := 2,
      co_manifest := Some (manifest_encode (crc32c D) \<lparr>mf_last_flushed_seq = 2, mf_sstables = [2]\<rparr>)\<rparr>"
    using second_flush_core [OF assms(1,2,3)] assms(4) by auto
  have wal: "co_wal c1 = wal_create"
    using failed_flush_core [OF assms(1)] assms(3) by auto
  have "wal_records (crc32c D) [] 0 = ([], 0)"
    using wal_records_image [of "[]"] by simp
  moreover have "fst (wal_records (crc32c D) ?f 0) = log_recs [(1, batch_put batch_new CfDefault k v)]"
    "fst (wal_records (crc32c D) ?f' 0) = log_recs ?H"
    using wal_records_log [of "[(1, batch_put batch_new CfDefault k v)]"] wal_records_log [of ?H]
      put_entry_fits assms(1,2) by simp_all
  ultimately have "unflushed 2 (seg_records D (dk_segs (crash_disk c2 n))) = []"
    by (simp add: c2 crash_disk_def wal wal_create_def)
  moreover have st: "sst_store (crc32c D) reader = mt_store D (put_mem D 2 k' v')"
    using r(3) by (rule sst_serves_store)
  then have "overlay [sst_store (crc32c D) reader] = hist_store ?H"
    by (simp add: hist_store_def fun_eq_iff split: option.split)
  moreover have "hist_ok ?H"
    using put_entry_fits [OF assms(2)] by (simp add: hist_ok_def)
  ultimately show ?thesis
    using r st
    by (intro exI [of _ reader])
      (simp add: disk_holds_def c2 crash_disk_def manifest_load_def manifest_roundtrip flushed_def del: overlay.simps)
qed

end

context mem_skip_map
begin

lemma second_flush_reopen:
  assumes "length k + length v < 1000" "length k' + length v' < 1000" "k \<noteq> k'"
    and "process_group D sst_fault (fresh_core D 1) [put_op k v] = (c1, [Inr 1])"
    and "process_group D io_ok c1 [put_op k' v'] = (c2, rs)"
  shows "\<exists>c3. engine_open D t (crash_disk c2 n) = Inr c3 \<and> core_get_cf D c3 CfDefault k = Inr None"
proof -
  let ?H = "[(2 :: u64, batch_put batch_new CfDefault k' v')]"
  let ?mf = "\<lparr>mf_last_flushed_seq = 2, mf_sstables = [2]\<rparr>"
  obtain reader where holds: "disk_holds D (crash_disk c2 n) ?mf [reader] ?H"
    using second_flush_holds [OF assms(1,2,4,5)] by blast
  have "map fst (dk_segs (crash_disk c2 n)) = [1, 2, 3]"
    using second_flush_core [OF assms(1,2,4)] assms(5) by (auto simp: crash_disk_def)
  then have "live D (opened_core D t (crash_disk c2 n) ?mf [reader] ?H) ?H"
    by (intro opened_core_live [OF holds]) (simp_all add: below_def)
  from core_get_cf_store [OF live_core_inv [OF this]] live_store [OF this] engine_open_eq [OF holds]
  show ?thesis
    using assms(3) by (auto simp: present_def hist_store_def store_batch_def batch_put_def batch_new_def store_op_apply)
qed

lemma second_flush_read:
  assumes "length k + length v < 1000" "length k' + length v' < 1000"
    and "process_group D sst_fault (fresh_core D 1) [put_op k v] = (c1, [Inr 1])"
    and "process_group D io_ok c1 [put_op k' v'] = (c2, rs)"
  shows "rs = [Inr 2] \<and> core_get_cf D c2 CfDefault k = Inr (Some v)"
proof -
  have "co_active c2 = co_active c1" "co_immutable c2 = co_immutable c1" "rs = [Inr 2]"
    using second_flush_core [OF assms(1,2,3)] assms(4) by auto
  moreover have "co_active c1 = mt_new D" "co_immutable c1 = [put_mem D 1 k v]"
    using failed_flush_core [OF assms(1)] assms(3) by auto
  moreover have "mt_get_cf D (mt_new D) CfDefault k = None"
    "mt_get_cf D (put_mem D 1 k v) CfDefault k = Some (MvPut v)"
    using put_mem_store [of 1 k v CfDefault k] mt_store_new by (simp_all add: mt_store_def fun_eq_iff)
  ultimately show ?thesis
    by (simp add: core_get_cf_def)
qed

end

text \<open>C14: A flush that fails leaves its memtable in the queue. When the next group overwrites the
  key and is flushed successfully, both writes having been acknowledged, a read still returns the
  overwritten value: the queue is searched before the tables.\<close>

theorem stale_read_after_failed_flush:
  assumes "mem_skip_map D" "length k + length v < 1000" "length k + length v' < 1000"
    and "process_group D sst_fault (fresh_core D 1) [put_op k v] = (c1, [Inr 1])"
    and "process_group D io_ok c1 [put_op k v'] = (c2, rs)"
  shows "rs = [Inr 2] \<and> core_get_cf D c2 CfDefault k = Inr (Some v)"
  using mem_skip_map.second_flush_read [OF assms(1,2,3,4,5)] by blast

theorem stale_read_after_failed_flush_witness:
  "\<exists>c1 c2. process_group list_deps sst_fault (fresh_core list_deps 1) [put_op [107] [1]] = (c1, [Inr 1]) \<and>
     process_group list_deps io_ok c1 [put_op [107] [2]] = (c2, [Inr 2]) \<and>
     core_get_cf list_deps c2 CfDefault [107] = Inr (Some [1])"
proof -
  obtain c1 where c1: "process_group list_deps sst_fault (fresh_core list_deps 1) [put_op [107] [1]] = (c1, [Inr 1])"
    using list_mem.failed_flush_core [of "[107]" "[1]"] by auto
  obtain c2 rs where c2: "process_group list_deps io_ok c1 [put_op [107] [2]] = (c2, rs)"
    by fastforce
  from stale_read_after_failed_flush [OF list_mem.mem_skip_map_axioms _ _ c1 c2] c1 c2
  show ?thesis by auto
qed

text \<open>When a flush fails and the next one succeeds, the watermark passes the records of the
  memtable that was never written out. Both writes were acknowledged and the first is still
  readable, but after a restart it is gone.\<close>

theorem acked_write_lost_after_failed_flush:
  assumes "mem_skip_map D" "length k + length v < 1000" "length k' + length v' < 1000" "k \<noteq> k'"
    and "process_group D sst_fault (fresh_core D 1) [put_op k v] = (c1, [Inr 1])"
    and "process_group D io_ok c1 [put_op k' v'] = (c2, rs)"
  shows "rs = [Inr 2] \<and> core_get_cf D c2 CfDefault k = Inr (Some v) \<and>
    (\<exists>c3. engine_open D t (crash_disk c2 n) = Inr c3 \<and> core_get_cf D c3 CfDefault k = Inr None)"
  using mem_skip_map.second_flush_read [OF assms(1,2,3,5,6)] assms(4)
    mem_skip_map.second_flush_reopen [OF assms(1,2,3,4,5,6)] by auto

theorem acked_write_lost_after_failed_flush_witness:
  "\<exists>c1 c2 c3. process_group list_deps sst_fault (fresh_core list_deps 1) [put_op [1] [1]] = (c1, [Inr 1]) \<and>
     process_group list_deps io_ok c1 [put_op [2] [2]] = (c2, [Inr 2]) \<and>
     core_get_cf list_deps c2 CfDefault [1] = Inr (Some [1]) \<and>
     engine_open list_deps 1 (crash_disk c2 0) = Inr c3 \<and> core_get_cf list_deps c3 CfDefault [1] = Inr None"
proof -
  obtain c1 where c1: "process_group list_deps sst_fault (fresh_core list_deps 1) [put_op [1] [1]] = (c1, [Inr 1])"
    using list_mem.failed_flush_core [of "[1]" "[1]"] by auto
  obtain c2 rs where c2: "process_group list_deps io_ok c1 [put_op [2] [2]] = (c2, rs)"
    by fastforce
  have "rs = [Inr 2] \<and> core_get_cf list_deps c2 CfDefault [1] = Inr (Some [1]) \<and>
    (\<exists>c3. engine_open list_deps 1 (crash_disk c2 0) = Inr c3 \<and> core_get_cf list_deps c3 CfDefault [1] = Inr None)"
    by (rule acked_write_lost_after_failed_flush [OF list_mem.mem_skip_map_axioms _ _ _ c1 c2]) simp_all
  with c1 c2 show ?thesis by blast
qed

section \<open>A torn record in the middle of a segment\<close>

text \<open>The append of record \<open>1\<close> fails after three bytes.\<close>

definition torn_io :: io_env where
  "torn_io = io_ok\<lparr>io_append := (\<lambda>n. if n = 1 then Some 3 else None)\<rparr>"

lemma u32_to_be_small: "w < 256 \<Longrightarrow> \<exists>b. u32_to_be w = [0, 0, 0, b]"
proof -
  assume "w < 256"
  then have "unat w < 256" by (simp add: word_less_nat_alt)
  moreover have four: "4 = Suc (Suc (Suc (Suc 0)))" by simp
  have "u32_to_be w = be_bytes (Suc (Suc (Suc (Suc 0)))) (unat w)"
    unfolding u32_to_be_def four ..
  ultimately show ?thesis by simp
qed

lemma frame_head:
  assumes "length payload < 200"
  shows "\<exists>rest. wal_frame crc n payload = [0, 0, 0] @ rest"
proof -
  have "word_of_nat (SEQ_LEN + length payload) < (256 :: u32)"
    using assms unat_u32_of_nat [of "SEQ_LEN + length payload"] by (simp add: word_less_nat_alt SEQ_LEN_def)
  from u32_to_be_small [OF this] show ?thesis
    by (auto simp: wal_frame_def Let_def)
qed

text \<open>Three zero bytes before a frame: the reader takes them and the frame's first byte for a
  length of zero, and a body too short for a sequence number ends the replay.\<close>

lemma wal_records_after_torn:
  assumes "length payload < 200"
  shows "wal_records crc ([0, 0, 0] @ wal_frame crc n payload @ post) 0 = ([], 0)"
proof -
  obtain rest where rest: "wal_frame crc n payload = [0, 0, 0] @ rest"
    using frame_head [OF assms] by blast
  moreover from this have "length rest \<ge> 5"
    using length_wal_frame [of crc n payload] by simp
  ultimately have "next_record crc ([0, 0, 0] @ wal_frame crc n payload @ post) 0 = None"
    by (simp add: next_record_def slice_def u32_of_be_def SEQ_LEN_def HEADER_LEN_def Let_def)
  then show ?thesis by (subst wal_records.simps) simp
qed

context mem_skip_map
begin

lemma torn_group:
  assumes "length k + length v < 100" "length k' + length v' < 100"
  shows "process_group D torn_io (fresh_core D 1000) [put_op k v, put_op k' v'] =
    ((fresh_core D 1000)\<lparr>co_seq := 2, co_active := put_mem D 2 k' v',
       co_wal := \<lparr>ww_file = [0, 0, 0] @ put_frame D 2 k' v', ww_written = length (put_frame D 2 k' v')\<rparr>\<rparr>,
     [Inl Io, Inr 2])"
proof -
  have "take 3 (put_frame D 1 k v) = [0, 0, 0]"
    using frame_head [of "batch_encode (batch_put batch_new CfDefault k v)" "crc32c D" 1] assms(1)
    by (auto simp: length_put_payload)
  then show ?thesis
    using assms(2) by (simp add: process_group_def apply_request_def torn_io_def Let_def put_mem_size
        wal_append_def wal_create_def)
qed

lemma torn_group_reopen:
  assumes "length k + length v < 100" "length k' + length v' < 100"
    and "process_group D torn_io (fresh_core D 1000) [put_op k v, put_op k' v'] = (c, rs)"
  shows "\<exists>c'. engine_open D t (crash_disk c (length (ww_file (co_wal c)))) = Inr c' \<and>
    core_get_cf D c' CfDefault k' = Inr None"
proof -
  let ?dk = "crash_disk c (length (ww_file (co_wal c)))"
  have dk: "?dk = \<lparr>dk_segs = [(1, [0, 0, 0] @ put_frame D 2 k' v')], dk_ssts = [], dk_manifest = None\<rparr>"
    using assms(3) torn_group [OF assms(1,2)] by (auto simp: crash_disk_def)
  have "wal_records (crc32c D) ([0, 0, 0] @ put_frame D 2 k' v') 0 = ([], 0)"
    using wal_records_after_torn [of "batch_encode (batch_put batch_new CfDefault k' v')" "crc32c D" 2 "[]"] assms(2)
    by (simp add: length_put_payload)
  then have holds: "disk_holds D ?dk manifest_default [] []"
    by (simp add: dk disk_holds_def manifest_load_def manifest_default_def hist_store_def
        flushed_def hist_ok_def fun_eq_iff)
  then have "live D (opened_core D t ?dk manifest_default [] []) []"
    by (intro opened_core_live) (simp_all add: dk below_def manifest_default_def)
  from core_get_cf_store [OF live_core_inv [OF this]] live_store [OF this] engine_open_eq [OF holds]
  show ?thesis by (auto simp: present_def hist_store_def)
qed

end

text \<open>C15: A log append that fails part-way leaves its bytes in the segment, and the committer goes
  on appending behind them. The next write is acknowledged after a successful sync, but replay
  stops at the torn bytes: after a restart it is gone.\<close>

theorem acked_write_lost_after_torn_append:
  assumes "mem_skip_map D" "length k + length v < 100" "length k' + length v' < 100"
    and "process_group D torn_io (fresh_core D 1000) [put_op k v, put_op k' v'] = (c, rs)"
  shows "rs = [Inl Io, Inr 2] \<and>
    (\<exists>c'. engine_open D t (crash_disk c (length (ww_file (co_wal c)))) = Inr c' \<and>
       core_get_cf D c' CfDefault k' = Inr None)"
  using mem_skip_map.torn_group [OF assms(1,2,3)] mem_skip_map.torn_group_reopen [OF assms] assms(4) by auto

theorem acked_write_lost_after_torn_append_witness:
  "\<exists>c c'. process_group list_deps torn_io (fresh_core list_deps 1000) [put_op [1] [1], put_op [2] [2]]
      = (c, [Inl Io, Inr 2]) \<and>
     engine_open list_deps 1000 (crash_disk c (length (ww_file (co_wal c)))) = Inr c' \<and>
     core_get_cf list_deps c' CfDefault [2] = Inr None"
proof -
  obtain c rs where c: "process_group list_deps torn_io (fresh_core list_deps 1000)
      [put_op [1] [1], put_op [2] [2]] = (c, rs)"
    by fastforce
  from acked_write_lost_after_torn_append [OF list_mem.mem_skip_map_axioms _ _ c] c
  show ?thesis by auto
qed

end
