(* ===== verification/Engine_Api.thy ===== *)
theory Engine_Api
  imports Percolator Scan Engine_Faults
begin

text \<open>
  The engine core of \<open>engine/src/db.rs\<close> behind the interface the MVCC layer uses
  (\<open>mvcc.rs\<close>, \<open>percolator.rs\<close>, \<open>scan.rs\<close>), for a client that submits one request at a
  time. The core meets the contract \<open>engine_api\<close>, so the transaction lemmas hold for it. The
  last section shows where the key encoding of \<open>keys.rs\<close> breaks them.
\<close>

definition core_eng :: "'m mem_deps \<Rightarrow> 'm core eng" where
  "core_eng D = \<lparr>eng_kv = core_kv D, eng_submit = submit D io_ok, eng_last_seq = co_seq\<rparr>"

text \<open>The state between two requests, with memtables and requests small enough for the length
  fields of a table.\<close>

definition api_inv :: "'m mem_deps \<Rightarrow> 'm core \<Rightarrow> bool" where
  "api_inv D c \<longleftrightarrow> core_inv D c \<and> co_immutable c = [] \<and> mt_sized D (co_active c) \<and>
     mt_size (co_active c) < 2 ^ 30 \<and> co_threshold c \<le> 2 ^ 30 \<and> (\<forall>cf. finite (dom (core_store D c cf)))"

definition req_small :: "op \<Rightarrow> bool" where
  "req_small op \<longleftrightarrow> req_cost op < 2 ^ 30 - 2"

lemma finite_store_op: "(\<forall>cf. finite (dom (s cf))) \<Longrightarrow> finite (dom (store_op op s cf))"
proof -
  assume "\<forall>cf. finite (dom (s cf))"
  moreover have "dom (store_op op s cf) \<subseteq> insert (op_key op) (dom (s cf))"
    by (auto simp: store_op_apply split: if_splits)
  ultimately show ?thesis by (meson finite_insert finite_subset)
qed

lemma finite_store_batch: "(\<forall>cf. finite (dom (s cf))) \<Longrightarrow> finite (dom (store_batch b s cf))"
proof -
  have "(\<forall>cf. finite (dom (s cf))) \<Longrightarrow> \<forall>cf. finite (dom (fold store_op os s cf))" for os
    by (induction os arbitrary: s) (simp_all add: finite_store_op)
  then show "(\<forall>cf. finite (dom (s cf))) \<Longrightarrow> finite (dom (store_batch b s cf))"
    by (simp add: store_batch_def)
qed

context mem_skip_map
begin

text \<open>A successful flush empties the queue.\<close>

lemma flush_ok_immutable:
  assumes "core_inv D c" "co_immutable c = [frozen]" "sst_fits (sst_entries D frozen)"
  shows "co_immutable (fst (flush_memtable D io_ok c)) = []"
proof -
  obtain c1 res where i: "install_sst D io_ok c frozen = (c1, res)" by fastforce
  have "mt_inv D frozen" using assms(1,2) by (simp add: core_inv_def)
  from this assms(3) i have "res = Inr ()"
    by (cases rule: install_sst_cases) simp_all
  then show ?thesis
    using install_sst_frame [OF i] assms(2)
    by (simp add: flush_memtable_def i persist_manifest_def Let_def)
qed

lemma submit_api:
  assumes inv: "api_inv D c" and small: "req_small op" and sub: "submit D io_ok c op = (c', r)"
  shows "api_inv D c' \<and>
    (case request_batch (core_kv D c) op of
       Inl e \<Rightarrow> core_store D c' = core_store D c \<and> r = Inl e
     | Inr None \<Rightarrow> core_store D c' = core_store D c \<and> r = Inr 0
     | Inr (Some b) \<Rightarrow> core_store D c' = store_batch b (core_store D c) \<and> r = Inr (co_seq c + 1))"
proof -
  obtain c1 r1 a where ap: "apply_request D io_ok c op = (c1, r1, a)" by (metis prod_cases3)
  have ci: "core_inv D c" "co_immutable c = []" "mt_sized D (co_active c)"
    using inv by (simp_all add: api_inv_def)
  note step = apply_request_step [OF ci(1) ap] and size = apply_request_size [OF ap ci(3)]
  have fits: "mt_size (co_active c1) < 2 ^ 31 - 2"
    using size inv small by (simp add: api_inv_def req_small_def)
  have st: "case request_batch (core_kv D c) op of
       Inl e \<Rightarrow> core_store D c1 = core_store D c \<and> r1 = Inl e
     | Inr None \<Rightarrow> core_store D c1 = core_store D c \<and> r1 = Inr 0
     | Inr (Some b) \<Rightarrow> core_store D c1 = store_batch b (core_store D c) \<and> r1 = Inr (co_seq c + 1)"
    using ap by (auto simp: apply_request_def Let_def core_store_def levels_def overlay_store_batch
        simp del: overlay.simps split: sum.splits option.splits)
  then have fin: "\<forall>cf. finite (dom (core_store D c1 cf))"
    using inv by (auto simp: api_inv_def finite_store_batch split: sum.splits option.splits)
  let ?f = "fst (flush_memtable D io_ok (rotate_wal D io_ok c1))"
  have rot: "core_inv D (rotate_wal D io_ok c1)" "core_store D (rotate_wal D io_ok c1) = core_store D c1"
    "co_immutable (rotate_wal D io_ok c1) = [co_active c1]" "co_active (rotate_wal D io_ok c1) = mt_new D"
    "co_threshold (rotate_wal D io_ok c1) = co_threshold c"
    using rotate_wal_store [of c1 io_ok] step ci(2) by (auto simp: rotate_wal_def Let_def)
  have sf: "sst_fits (sst_entries D (co_active c1))"
    using size fits by (intro mt_sized_fits) simp_all
  have flushed: "core_inv D ?f" "core_store D ?f = core_store D c1" "co_immutable ?f = []"
    "co_active ?f = mt_new D" "co_threshold ?f = co_threshold c"
    using flush_memtable_store [OF rot(1,3) sf] flush_ok_immutable [OF rot(1,3) sf] rot
    by (simp_all add: flush_memtable_frame)
  have res: "r = r1 \<and> (c' = ?f \<or> c' = c1 \<and> mt_size (co_active c1) < co_threshold c1)"
    using sub by (auto simp: submit_def process_group_def ap split: if_splits)
  then have same: "core_store D c' = core_store D c1" "r = r1"
    using flushed(2) by auto
  have "api_inv D c'"
  proof (cases "c' = ?f")
    case True
    then show ?thesis
      using flushed fin inv by (simp add: api_inv_def) (simp add: mt_new_def)
  next
    case False
    then show ?thesis
      using res fin inv step size by (simp add: api_inv_def)
  qed
  with st show ?thesis unfolding same by (rule conjI [rotated])
qed

end

text \<open>The core meets the contract.\<close>

sublocale mem_skip_map \<subseteq> api: engine_api "core_eng D" "api_inv D" "core_store D" req_small
proof (rule engine_api.intro)
  show "kv_reads (eng_kv (core_eng D) c) (core_store D c)" if "api_inv D c" for c
    using that core_kv_reads by (simp add: core_eng_def api_inv_def)
  show "finite (dom (core_store D c cf))" if "api_inv D c" for c cf
    using that by (simp add: api_inv_def)
  show "api_inv D c'" if "api_inv D c" "req_small op" "eng_submit (core_eng D) c op = (c', r)" for c op c' r
    using submit_api [OF that(1,2)] that(3) by (simp add: core_eng_def)
  show "case request_batch (eng_kv (core_eng D) c) op of
       Inl e \<Rightarrow> core_store D c' = core_store D c \<and> r = Inl e
     | Inr None \<Rightarrow> core_store D c' = core_store D c \<and> r = Inr 0
     | Inr (Some b) \<Rightarrow> core_store D c' = store_batch b (core_store D c) \<and> (\<exists>n. r = Inr n)"
    if "api_inv D c" "req_small op" "eng_submit (core_eng D) c op = (c', r)" for c op c' r
    using submit_api [OF that(1,2)] that(3) by (auto simp: core_eng_def split: sum.splits option.splits)
qed

lemma fresh_api_inv:
  assumes "mem_skip_map D" "t \<le> 2 ^ 30"
  shows "api_inv D (fresh_core D t)" "core_store D (fresh_core D t) = (\<lambda>_ _. None)"
proof -
  show "core_store D (fresh_core D t) = (\<lambda>_ _. None)"
    using mem_skip_map.live_store [OF assms(1) fresh_core_live [OF assms(1)]] by (simp add: hist_store_def)
  then show "api_inv D (fresh_core D t)"
    using mem_skip_map.live_core_inv [OF assms(1) fresh_core_live [OF assms(1)]] assms(2)
      mem_skip_map.mt_sized_new [OF assms(1)]
    by (simp add: api_inv_def) (simp add: mt_new_def)
qed

context mem_skip_map
begin

lemma core_api: "engine_api (core_eng D) (api_inv D) (core_store D) req_small"
  by (rule api.engine_api_axioms)

end

section \<open>Transactions on the core\<close>

definition demo_tx :: transaction where
  "demo_tx = \<lparr>tx_start_ts = 5, tx_primary = [1],
     tx_mutations = [\<lparr>mu_key = [1], mu_value = VPut [7]\<rparr>, \<lparr>mu_key = [2], mu_value = VDelete\<rparr>]\<rparr>"

definition demo_tx1 :: transaction where
  "demo_tx1 = \<lparr>tx_start_ts = 5, tx_primary = [1], tx_mutations = [\<lparr>mu_key = [1], mu_value = VPut [7]\<rparr>]\<rparr>"

lemmas req_small_simps = req_small_def req_cost_def batch_cost_def build_prewrite_batch_def build_resolve_batch_def
  commit_spec_def mu_spec_def commit_primary_batch_def batch_put_def batch_delete_def batch_new_def
  encode_data_key_def encode_ts_def encode_write_value_def lock_encode_def put_length_prefixed_def

lemma demo_tx_ok:
  "tx_wf demo_tx" "tx_adm req_small demo_tx 100 cts" "tx_wf demo_tx1" "tx_adm req_small demo_tx1 100 cts"
  by (simp_all add: tx_wf_def demo_tx_def demo_tx1_def incomparable_def tx_adm_def req_small_simps Let_def)

lemma demo_rollback_small: "req_small (OResolve \<lparr>rs_key = [n], rs_start_ts = st, rs_action = RaRollback\<rparr>)"
  by (simp add: req_small_simps)

lemma key_free_empty: "key_free (\<lambda>_ _. None) st k" "isolated (\<lambda>_ _. None) k" "commits (\<lambda>_ _. None) k = {}"
  by (simp_all add: key_free_def isolated_def present_def commits_def)

lemma demo_prewrite:
  assumes "tx = demo_tx \<or> tx = demo_tx1"
  obtains c1 where "tx_prewrite (core_eng list_deps) (fresh_core list_deps 1000) tx 100 = (c1, Inr ())"
  using list_mem.api.tx_prewrite_succeeds [OF fresh_api_inv(1) [OF list_mem.mem_skip_map_axioms], of 1000 tx 100 9]
    fresh_api_inv(2) [OF list_mem.mem_skip_map_axioms, of 1000] assms demo_tx_ok key_free_empty by auto






definition demo_tx2 :: transaction where
  "demo_tx2 = \<lparr>tx_start_ts = 6, tx_primary = [1], tx_mutations = [\<lparr>mu_key = [1], mu_value = VDelete\<rparr>]\<rparr>"


text \<open>C16: \<open>commit_primary\<close> does not look at the lock it deletes. When a reader has found the lock
  expired and rolled the transaction back, the owner's commit is still acknowledged, and the
  committed value is gone.\<close>

theorem commit_acknowledged_after_rollback:
  assumes "mem_skip_map D" "api_inv D c" "tx_wf tx" "tx_mutations tx = [m]" "tx_adm req_small tx ttl cts"
    and "req_small (OResolve \<lparr>rs_key = mu_key m, rs_start_ts = tx_start_ts tx, rs_action = RaRollback\<rparr>)"
    and "tx_prewrite (core_eng D) c tx ttl = (c1, Inr ())" "ttl < now"
    and "check_txn_status (core_eng D) c1 (mu_key m) (tx_start_ts tx) now = Some (c2, status)"
    and "tx_commit (core_eng D) c2 tx cts = (c3, r)"
    and "isolated (core_store D c) (mu_key m)" "\<forall>ts \<in> commits (core_store D c) (mu_key m). ts \<le> cts"
  shows "status = Inr RolledBack \<and> r = Inr () \<and> mvcc_get_unresolved (core_kv D c3) (mu_key m) cts = Inr None"
  using engine_api.commit_after_rollback [OF mem_skip_map.core_api [OF assms(1)] assms(2-12)] by (simp add: core_eng_def)

theorem commit_acknowledged_after_rollback_witness:
  "\<exists>c1 c2 c3. tx_prewrite (core_eng list_deps) (fresh_core list_deps 1000) demo_tx1 100 = (c1, Inr ()) \<and>
     check_txn_status (core_eng list_deps) c1 [1] 5 101 = Some (c2, Inr RolledBack) \<and>
     tx_commit (core_eng list_deps) c2 demo_tx1 9 = (c3, Inr ()) \<and>
     mvcc_get_unresolved (core_kv list_deps c3) [1] 9 = Inr None"
proof -
  let ?m = "\<lparr>mu_key = [1], mu_value = VPut [7]\<rparr>"
  obtain c1 where c1: "tx_prewrite (core_eng list_deps) (fresh_core list_deps 1000) demo_tx1 100 = (c1, Inr ())"
    using demo_prewrite by blast
  have inv: "api_inv list_deps (fresh_core list_deps 1000)"
    by (rule fresh_api_inv(1) [OF list_mem.mem_skip_map_axioms]) simp
  have c1': "api_inv list_deps c1" "core_store list_deps c1 = prewritten demo_tx1 100 [?m] (\<lambda>_ _. None)"
    using list_mem.api.tx_prewrite_ok [OF inv demo_tx_ok(3,4) c1] fresh_api_inv(2) [OF list_mem.mem_skip_map_axioms, of 1000]
    by (simp_all add: demo_tx1_def)
  have "isolated (core_store list_deps c1) (mu_key ?m)"
    by (simp add: c1'(2) isolated_def prewritten_other)
  then obtain c2 status where c2: "check_txn_status (core_eng list_deps) c1 (mu_key ?m) (tx_start_ts demo_tx1) 101 = Some (c2, status)"
    using list_mem.api.check_txn_status_ends [OF c1'(1)] by blast
  obtain c3 r where c3: "tx_commit (core_eng list_deps) c2 demo_tx1 9 = (c3, r)" by fastforce
  have "status = Inr RolledBack \<and> r = Inr () \<and> mvcc_get_unresolved (core_kv list_deps c3) (mu_key ?m) 9 = Inr None"
    by (rule commit_acknowledged_after_rollback [OF list_mem.mem_skip_map_axioms inv demo_tx_ok(3) _ demo_tx_ok(4) _ c1 _ c2 c3])
      (simp_all add: fresh_api_inv(2) [OF list_mem.mem_skip_map_axioms] key_free_empty demo_rollback_small demo_tx1_def)
  with c1 c2 c3 show ?thesis by (auto simp: demo_tx1_def)
qed

section \<open>Range scans on the core\<close>

definition one_row_batch :: write_batch where
  "one_row_batch =
     batch_put (batch_put batch_new CfDefault (encode_data_key [1] 5) (value_encode (VPut [9])))
       CfWrite (encode_data_key [1] 10) (encode_write_value 5)"

definition one_row_core :: "(bytes \<times> mem_value) list core" where
  "one_row_core = fst (submit list_deps io_ok (fresh_core list_deps 1000) (OWrite one_row_batch))"

lemma one_row_store:
  "api_inv list_deps one_row_core" "core_store list_deps one_row_core = store_batch one_row_batch (\<lambda>_ _. None)"
proof -
  obtain c r where sub: "submit list_deps io_ok (fresh_core list_deps 1000) (OWrite one_row_batch) = (c, r)"
    by fastforce
  have "req_small (OWrite one_row_batch)"
    by (simp add: one_row_batch_def req_small_simps)
  from list_mem.submit_api [OF fresh_api_inv(1) [OF list_mem.mem_skip_map_axioms] this sub]
  show "api_inv list_deps one_row_core" "core_store list_deps one_row_core = store_batch one_row_batch (\<lambda>_ _. None)"
    using sub fresh_api_inv(2) [OF list_mem.mem_skip_map_axioms, of 1000]
    by (simp_all add: one_row_core_def request_batch_def)
qed

lemma one_row_reads:
  "isolated (core_store list_deps one_row_core) [1]" "prefix_free (core_store list_deps one_row_core)"
  "commits (core_store list_deps one_row_core) k = (if k = [1] then {10} else {})"
  "dom (core_store list_deps one_row_core CfWrite) = {encode_data_key [1] 10}"
  "start_of (core_store list_deps one_row_core) [1] 10 = Some 5"
  "10 \<le> t \<Longrightarrow> mvcc_get_unresolved (core_kv list_deps one_row_core) [1] t = Inr (Some [9])"
proof -
  let ?s = "core_store list_deps one_row_core" and ?K = "core_kv list_deps one_row_core"
  have K: "kv_reads ?K ?s"
    using list_mem.core_kv_reads one_row_store(1) by (simp add: api_inv_def)
  have recs: "?s CfWrite w = (if w = encode_data_key [1] 10 then Some (MvPut (encode_write_value 5)) else None)" for w
    by (simp add: one_row_store(2) one_row_batch_def)
  show iso: "isolated ?s [1]" and "prefix_free ?s"
    by (auto simp: isolated_def prefix_free_def recs split: if_splits)
  have com: "commits ?s k = (if k = [1] then {10} else {})" for k
    by (auto simp: commits_def recs)
  then show "commits ?s k = (if k = [1] then {10} else {})" .
  show "dom (?s CfWrite) = {encode_data_key [1] 10}" by (auto simp: recs split: if_splits)
  show st: "start_of ?s [1] 10 = Some 5" by (simp add: start_of_def present_def recs)
  assume "10 \<le> t"
  then have "newest_commit ?s [1] t 10" by (simp add: newest_commit_def com)
  moreover have "present ?s CfDefault (encode_data_key [1] 5) = Some (value_encode (VPut [9]))"
    by (simp add: present_def one_row_store(2) one_row_batch_def)
  ultimately have "read_committed ?K [1] t = Inr (into_option (VPut [9]))"
    using st by (intro kv_reads.read_committed_newest [OF K iso, OF _ _ _ value_roundtrip])
  then show "mvcc_get_unresolved ?K [1] t = Inr (Some [9])"
    by (simp add: mvcc_get_unresolved_def kv_reads.get_store [OF K] decode_lock_def present_def one_row_store(2)
        one_row_batch_def)
qed



end
