(* ===== verification/Key_Overlap.thy ===== *)
theory Key_Overlap
  imports Engine_Api
begin

text \<open>
  The encoding of \<open>engine/src/keys.rs\<close> appends the timestamp to the user key without a
  separator, so the records of a user key are not contiguous when it is a prefix of another one:
  \<open>user1\<close> and \<open>user10\<close>. The theorems state what follows for the conflict check of
  \<open>db.rs\<close>, the commit-record search of \<open>mvcc.rs\<close> and the range scan of \<open>scan.rs\<close>, on a
  store with one commit of a key \<open>k\<close> and one of \<open>k\<close> extended by a byte.
\<close>

definition two_commits :: "cf_store \<Rightarrow> bytes \<Rightarrow> byte \<Rightarrow> u64 \<Rightarrow> mem_value \<Rightarrow> u64 \<Rightarrow> mem_value \<Rightarrow> bool" where
  "two_commits s k b ts v ts' v' \<longleftrightarrow>
     s CfWrite = [encode_data_key k ts \<mapsto> v, encode_data_key (k @ [b]) ts' \<mapsto> v']"

lemma encode_ts_small: "ts < 2 ^ 56 \<Longrightarrow> \<exists>r. encode_ts ts = 255 # r"
proof -
  assume "ts < 2 ^ 56"
  then have small: "unat ts < 2 ^ 56"
    by (simp add: word_less_nat_alt)
  have eight: "8 = Suc 7" by simp
  have "(2 ^ 64 - 1 - unat ts) div 256 ^ 7 = 255"
    using small by simp
  then show ?thesis
    unfolding encode_ts_def u64_to_be_def eight be_bytes.simps by (simp add: unat_u64_max_minus)
qed

lemma longer_key_first:
  assumes "b \<noteq> 255" "ts < 2 ^ 56"
  shows "encode_data_key (k @ [b]) ts' < encode_data_key k ts"
proof -
  obtain r where "encode_ts ts = 255 # r"
    using encode_ts_small [OF assms(2)] by blast
  moreover have "b \<le> 255"
    using unat_byte_lt [of b] by (simp add: word_le_nat_alt)
  then have "b < 255"
    using assms(1) by (simp add: order_less_le)
  ultimately show ?thesis
    by (simp add: encode_data_key_def)
qed

text \<open>From any cursor in front of both, the seek hits the longer key.\<close>

lemma seek_two_commits:
  assumes "two_commits s k b ts v ts' v'" "b \<noteq> 255" "ts < 2 ^ 56" "cur \<le> encode_data_key (k @ [b]) ts'"
  shows "seek_spec (s CfWrite) cur (Some (encode_data_key (k @ [b]) ts', v'))"
  using longer_key_first [OF assms(2,3), of k ts'] assms(1,4)
  by (auto simp: two_commits_def seek_spec_def)

lemma zeros_le: "n \<le> length ys \<Longrightarrow> replicate n 0 \<le> (ys :: bytes)"
proof (induction n arbitrary: ys)
  case (Suc n)
  then show ?case by (cases ys) (auto simp: word_less_nat_alt unat_gt_0)
qed simp

lemma encode_ts_max: "encode_ts u64_max = replicate 8 0"
proof -
  have "be_bytes n 0 = replicate n 0" for n
    by (induction n) simp_all
  then show ?thesis by (simp add: encode_ts_def u64_to_be_def)
qed

lemma max_cursor_le: "encode_data_key k u64_max \<le> encode_data_key (k @ [b]) ts"
  unfolding encode_data_key_def append_assoc append_le_append encode_ts_max
  by (rule zeros_le) (simp add: encode_ts_def)

text \<open>C17: The conflict check of a prewrite misses a newer commit of its key when a longer key with
  a commit record exists: every snapshot may overwrite the newest value.\<close>

theorem prewrite_misses_conflict:
  assumes "kv_reads K s" "two_commits s k b ts v ts' v'" "b \<noteq> 255" "ts < 2 ^ 56" "present s CfLock k = None"
  shows "s CfWrite (encode_data_key k ts) \<noteq> None \<and> check_prewrite K k start_ts = Inr ()"
proof -
  have "kv_seek K CfWrite (encode_data_key k u64_max) = Inr (Some (encode_data_key (k @ [b]) ts', v'))"
    using kv_reads.seek_unique [OF assms(1) seek_two_commits [OF assms(2-4) max_cursor_le]] .
  then show ?thesis
    using assms(2,5) by (simp add: check_prewrite_def kv_reads.get_store [OF assms(1)] two_commits_def)
qed

text \<open>The search for a transaction's commit record misses it for the same reason, so a lock of
  a committed transaction is resolved as rolled back.\<close>

theorem commit_record_missed:
  assumes "kv_reads K s" "two_commits s k b ts (MvPut (encode_write_value st)) ts' v'" "b \<noteq> 255" "ts < 2 ^ 56"
    and "present s CfLock k = None"
  shows "start_of s k ts = Some st \<and> check_txn_status_peek K k st = Some (Inr RolledBack)"
proof -
  have "kv_seek K CfWrite (encode_data_key k u64_max) = Inr (Some (encode_data_key (k @ [b]) ts', v'))"
    using kv_reads.seek_unique [OF assms(1) seek_two_commits [OF assms(2-4) max_cursor_le]] .
  then have "find_commit_ts K k st = Some (Inr None)"
    by (simp add: find_commit_ts_def find_commit_loop.simps)
  then show ?thesis
    using assms(2,5)
    by (auto simp: check_txn_status_peek_def status_of_commit_def kv_reads.get_store [OF assms(1)] decode_lock_def
        start_of_def present_def two_commits_def)
qed

text \<open>A scan of the range that holds exactly the shorter key returns nothing, although a read
  of the key at the same timestamp returns its value: the longer key's record comes first and ends
  the loop.\<close>

theorem scan_misses_key:
  assumes K: "kv_reads (eng_kv E c) s" and two: "two_commits s k b ts (MvPut (encode_write_value st)) ts' v'"
    and b: "b \<noteq> 255" "ts < 2 ^ 56" and t: "ts \<le> t" "t < 2 ^ 56"
    and val: "present s CfDefault (encode_data_key k st) = Some (value_encode (VPut val))"
  shows "read_committed (eng_kv E c) k t = Inr (Some val) \<and> scan E c k (k @ [b]) t limit False = Some (c, Inr [])"
proof -
  have "k \<le> encode_data_key (k @ [b]) ts'"
    by (simp add: encode_data_key_def list_le_append)
  then have "kv_seek (eng_kv E c) CfWrite k = Inr (Some (encode_data_key (k @ [b]) ts', v'))"
    using kv_reads.seek_unique [OF K seek_two_commits [OF two b]] by blast
  moreover have "seek_spec (s CfWrite) (encode_data_key k t) (Some (encode_data_key k ts, MvPut (encode_write_value st)))"
    using two t(1) longer_key_first [OF b(1) t(2), of k ts'] by (auto simp: two_commits_def seek_spec_def)
  then have "kv_seek (eng_kv E c) CfWrite (encode_data_key k t) = Inr (Some (encode_data_key k ts, MvPut (encode_write_value st)))"
    using kv_reads.seek_unique [OF K] by blast
  ultimately show ?thesis
    using val
    by (simp add: scan_def scan_loop.simps merge_next_def read_committed_def ok_or_def kv_reads.get_store [OF K]
        del: value_encode.simps)
qed

section \<open>A core in that state\<close>

definition overlap_batch :: write_batch where
  "overlap_batch =
     batch_put (batch_put (batch_put batch_new CfDefault (encode_data_key [117] 5) (value_encode (VPut [9])))
       CfWrite (encode_data_key [117] 10) (encode_write_value 5))
       CfWrite (encode_data_key [117, 49] 3) (encode_write_value 2)"

definition overlap_core :: "(bytes \<times> mem_value) list core" where
  "overlap_core = fst (submit list_deps io_ok (fresh_core list_deps 1000) (OWrite overlap_batch))"

lemma overlap_core_store:
  "core_inv list_deps overlap_core" "core_store list_deps overlap_core = store_batch overlap_batch (\<lambda>_ _. None)"
proof -
  obtain c r where sub: "submit list_deps io_ok (fresh_core list_deps 1000) (OWrite overlap_batch) = (c, r)"
    by fastforce
  have "req_small (OWrite overlap_batch)"
    by (simp add: req_small_def req_cost_def batch_cost_def overlap_batch_def batch_put_def batch_new_def
        encode_data_key_def encode_ts_def encode_write_value_def)
  from list_mem.submit_api [OF fresh_api_inv(1) [OF list_mem.mem_skip_map_axioms] this sub]
  show "core_inv list_deps overlap_core" "core_store list_deps overlap_core = store_batch overlap_batch (\<lambda>_ _. None)"
    using sub fresh_api_inv(2) [OF list_mem.mem_skip_map_axioms, of 1000]
    by (simp_all add: overlap_core_def api_inv_def request_batch_def)
qed

lemma overlap_reads: "kv_reads (core_kv list_deps overlap_core) (core_store list_deps overlap_core)"
  by (rule list_mem.core_kv_reads [OF overlap_core_store(1)])

lemma overlap_two_commits:
  "two_commits (core_store list_deps overlap_core) [117] 49 10 (MvPut (encode_write_value 5)) 3 (MvPut (encode_write_value 2))"
  by (auto simp: two_commits_def overlap_core_store(2) overlap_batch_def fun_eq_iff)

lemma overlap_present:
  "present (core_store list_deps overlap_core) CfLock [117] = None"
  "present (core_store list_deps overlap_core) CfDefault (encode_data_key [117] 5) = Some (value_encode (VPut [9]))"
  by (simp_all add: present_def overlap_core_store(2) overlap_batch_def)

theorem prewrite_misses_conflict_witness:
  "core_store list_deps overlap_core CfWrite (encode_data_key [117] 10) \<noteq> None \<and>
     check_prewrite (core_kv list_deps overlap_core) [117] 7 = Inr ()"
  by (rule prewrite_misses_conflict [OF overlap_reads overlap_two_commits _ _ overlap_present(1)]) simp_all

theorem commit_record_missed_witness:
  "start_of (core_store list_deps overlap_core) [117] 10 = Some 5 \<and>
     check_txn_status_peek (core_kv list_deps overlap_core) [117] 5 = Some (Inr RolledBack)"
  by (rule commit_record_missed [OF overlap_reads overlap_two_commits _ _ overlap_present(1)]) simp_all

theorem scan_misses_key_witness:
  "read_committed (core_kv list_deps overlap_core) [117] 20 = Inr (Some [9]) \<and>
     scan (core_eng list_deps) overlap_core [117] [117, 49] 20 0 False = Some (overlap_core, Inr [])"
  using scan_misses_key [where E = "core_eng list_deps" and c = overlap_core and t = 20 and limit = 0,
      OF _ overlap_two_commits _ _ _ _ overlap_present(2)] overlap_reads
  by (simp add: core_eng_def)

end
