(* ===== verification/Storage_Props.thy ===== *)
theory Storage_Props
  imports Engine_Api
begin

text \<open>
  What the storage formats and the committer promise their users: encodings round trip and order
  versions newest first, a torn log replays to a prefix of what was written, a flushed table answers
  like the memtable it came from, the fate of a transaction is always decided, and the committer
  answers every request in order however the requests fall into groups.
\<close>

section \<open>The committer over a whole queue\<close>

lemma store_steps_append:
  assumes "store_steps s n os s' n' rs" "store_steps s' n' os' s'' n'' rs'"
  shows "store_steps s n (os @ os') s'' n'' (rs @ rs')"
  using assms by (induction rule: store_steps.induct) (auto intro: store_steps.intros)

lemma store_steps_length: "store_steps s n os s' n' rs \<Longrightarrow> length rs = length os"
  by (induction rule: store_steps.induct) simp_all

definition group_inv :: "'m mem_deps \<Rightarrow> 'm core \<Rightarrow> bool" where
  "group_inv D c \<longleftrightarrow> core_inv D c \<and> co_immutable c = [] \<and> mt_sized D (co_active c) \<and>
     mt_size (co_active c) < 2 ^ 30 \<and> co_threshold c \<le> 2 ^ 30"

context mem_skip_map
begin

lemma process_group_inv:
  assumes inv: "group_inv D c" and cost: "sum_list (map req_cost reqs) < 2 ^ 30 - 2"
    and pg: "process_group D io_ok c reqs = (c', rs)"
  shows "group_inv D c' \<and> store_steps (core_store D c) (co_seq c) reqs (core_store D c') (co_seq c') rs"
proof -
  obtain c1 rs1 a where ap: "apply_requests D io_ok c reqs = (c1, rs1, a)" by (metis prod_cases3)
  have ci: "core_inv D c" "co_immutable c = []" "mt_sized D (co_active c)"
    using inv by (simp_all add: group_inv_def)
  note step = apply_requests_steps [OF ci(1) ap] and size = apply_requests_size [OF ap ci(3)]
  have sf: "sst_fits (sst_entries D (co_active c1))"
    using size inv cost by (intro mt_sized_fits) (simp_all add: group_inv_def)
  let ?r = "rotate_wal D io_ok c1" and ?f = "fst (flush_memtable D io_ok (rotate_wal D io_ok c1))"
  have rot: "core_inv D ?r" "co_immutable ?r = [co_active c1]" "co_active ?r = mt_new D"
      "co_threshold ?r = co_threshold c"
    using rotate_wal_store [of c1 io_ok] step ci(2) by (auto simp: rotate_wal_def Let_def)
  have flushed: "core_inv D ?f" "co_immutable ?f = []" "co_active ?f = mt_new D"
      "co_threshold ?f = co_threshold c"
    using flush_memtable_store [OF rot(1,2) sf] flush_ok_immutable [OF rot(1,2) sf] rot
    by (simp_all add: flush_memtable_frame)
  have "group_inv D c'"
  proof (cases "c' = ?f")
    case True
    then show ?thesis using flushed inv by (simp add: group_inv_def) (simp add: mt_new_def)
  next
    case False
    then have "c' = c1 \<and> mt_size (co_active c1) < co_threshold c1"
      using pg by (auto simp: process_group_def ap split: if_splits)
    then show ?thesis using inv step size ci by (auto simp: group_inv_def)
  qed
  then show ?thesis
    using process_group_steps [OF ci(1,2) _ _ pg] sf ap by auto
qed

lemma run_committer_steps:
  assumes "group_inv D c" "sum_list (map req_cost queue) < 2 ^ 30 - 2"
    and "run_committer D (\<lambda>_. io_ok) arrived i c queue = (c', rs)"
  shows "group_inv D c' \<and> store_steps (core_store D c) (co_seq c) queue (core_store D c') (co_seq c') rs"
  using assms
proof (induction "length queue" arbitrary: queue i c rs c' rule: less_induct)
  case less
  show ?case
  proof (cases "queue = []")
    case True
    then show ?thesis
      using less.prems by (subst (asm) run_committer.simps) (auto intro: store_steps.intros)
  next
    case False
    define n where "n = min MAX_GROUP (max 1 (arrived i))"
    obtain c1 rs1 where g: "process_group D io_ok c (take n queue) = (c1, rs1)" by fastforce
    obtain c2 rs2 where r: "run_committer D (\<lambda>_. io_ok) arrived (i + 1) c1 (drop n queue) = (c2, rs2)" by fastforce
    have out: "c' = c2" "rs = rs1 @ rs2"
      using less.prems(3) False g r by (auto simp: run_committer.simps [of D _ arrived i c] n_def Let_def)
    have split: "sum_list (map req_cost queue) =
        sum_list (map req_cost (take n queue)) + sum_list (map req_cost (drop n queue))"
      by (metis append_take_drop_id map_append sum_list_append)
    have one: "group_inv D c1 \<and> store_steps (core_store D c) (co_seq c) (take n queue) (core_store D c1) (co_seq c1) rs1"
      using less.prems(2) by (intro process_group_inv [OF less.prems(1) _ g]) (simp add: split)
    have "0 < n" by (simp add: n_def MAX_GROUP_def)
    then have two: "group_inv D c2 \<and> store_steps (core_store D c1) (co_seq c1) (drop n queue) (core_store D c2) (co_seq c2) rs2"
      using False less.prems(2) one by (intro less.hyps [OF _ _ _ r]) (simp_all add: split)
    show ?thesis
      using one two store_steps_append [of _ _ "take n queue" _ _ rs1 "drop n queue"] by (auto simp: out)
  qed
qed

end

lemma group_inv_fresh: "mem_skip_map D \<Longrightarrow> t \<le> 2 ^ 30 \<Longrightarrow> group_inv D (fresh_core D t)"
  using fresh_api_inv [of D t] by (simp add: group_inv_def api_inv_def)



section \<open>Formats\<close>

text \<open>Data keys decode to what was encoded; the versions of one key are ordered newest first;
  and of two keys neither of which is a prefix of the other, all versions of the smaller one come
  before all versions of the larger one.\<close>

theorem data_keys_ordered:
  "decode_data_key (encode_data_key k ts) = Some (k, ts) \<and>
   (encode_data_key k ts < encode_data_key k ts' \<longleftrightarrow> ts' < ts) \<and>
   (incomparable k k' \<longrightarrow> (encode_data_key k ts < encode_data_key k' ts' \<longleftrightarrow> k < k'))"
  using incomparable_append_less [of k k']
  by (simp add: encode_data_key_less_iff) (simp add: encode_data_key_def)

theorem data_keys_ordered_witness:
  "encode_data_key [1, 2] 7 < encode_data_key [1, 3] 9"
  using data_keys_ordered [of "[1, 2]" 7 9 "[1, 3]"] by (simp add: incomparable_def)

text \<open>C13: Every persistent record decodes to what was encoded when its lengths fit their 32-bit
  fields: a batch, a lock, a value, a commit record, a memtable value and the manifest.\<close>

theorem records_roundtrip:
  assumes "batch_fits b" "fits_u32 (lk_primary l)" "length (mf_sstables mf) < 2 ^ 32"
  shows "batch_decode (batch_encode b) = Some b \<and> lock_decode (lock_encode l) = Some l \<and>
    value_decode (value_encode v) = Some v \<and> decode_write_value (encode_write_value ts) = Some ts \<and>
    mv_decode (mv_encode mv) = Some mv \<and> manifest_decode crc (manifest_encode crc mf) = Inr mf"
  using assms by (simp add: batch_decode_encode manifest_roundtrip del: value_encode.simps mv_encode.simps)

theorem records_roundtrip_witness:
  "batch_decode (batch_encode (batch_put batch_new CfLock [1] [2])) = Some (batch_put batch_new CfLock [1] [2])"
  using records_roundtrip [of "batch_put batch_new CfLock [1] [2]"
      "\<lparr>lk_primary = [1], lk_start_ts = 2, lk_ttl = 3, lk_kind = LkPut\<rparr>" manifest_default]
  by (simp add: batch_fits_def batch_put_def batch_new_def manifest_default_def)

text \<open>A log segment cut at any byte replays to exactly the records whose frames end before the
  cut, which is a prefix of what was appended: the torn tail is dropped and nothing is invented.\<close>

theorem torn_log_replays_prefix:
  assumes "\<forall>r \<in> set rs. payload_fits (snd r)"
  shows "fst (wal_records crc (take n (wal_image crc rs)) 0) = intact_prefix crc n rs \<and>
    prefix (intact_prefix crc n rs) rs"
  using wal_records_cut [OF assms] wal_image_take [of crc n rs] take_is_prefix by metis

theorem torn_log_replays_prefix_witness:
  "fst (wal_records (\<lambda>_. 0) (take 25 (wal_image (\<lambda>_. 0) [(1, [5]), (2, [6])])) 0) = [(1, [5])]"
  using torn_log_replays_prefix [of "[(1, [5]), (2, [6])]" "\<lambda>_. 0" 25]
  by (simp add: payload_fits_def wal_frame_def SEQ_LEN_def)

text \<open>C8: The table written from a memtable opens, and then answers every lookup and every seek of
  every column family as the memtable would.\<close>

theorem flushed_table_serves_memtable:
  assumes "mem_skip_map D" "mt_inv D m" "sst_fits (sst_entries D m)"
  shows "\<exists>img r. write_sst D m = Some img \<and> sst_open (crc32c D) img n = Inr r \<and> sr_file_no r = n \<and>
    (\<forall>cf key. sst_get (crc32c D) r cf key = Inr (mt_get_cf D m cf key)) \<and>
    (\<forall>cf from. sst_seek (crc32c D) r cf from = Inr (mt_seek_cf D m cf from))"
proof -
  obtain img r where o: "write_sst D m = Some img" "sst_open (crc32c D) img n = Inr r" "sr_file_no r = n"
    and serves: "sst_serves (crc32c D) r (mt_store D m)"
    using mem_skip_map.sst_serves_write_sst [OF assms] by blast
  have "sst_get (crc32c D) r cf key = Inr (mt_get_cf D m cf key)" for cf key
    using serves by (simp add: sst_serves_def mt_store_def)
  moreover have "sst_seek (crc32c D) r cf from = Inr (mt_seek_cf D m cf from)" for cf "from"
    using serves seek_spec_unique mem_skip_map.mt_seek_spec [OF assms(1,2), of cf "from"]
    unfolding sst_serves_def by metis
  ultimately show ?thesis using o by blast
qed

theorem flushed_table_serves_memtable_witness:
  "\<exists>img r. write_sst list_deps (mt_new list_deps) = Some img \<and> sst_open (crc32c list_deps) img 3 = Inr r \<and>
     sst_get (crc32c list_deps) r CfLock [1] = Inr None"
proof -
  have "mt_inv list_deps (mt_new list_deps)" "sst_fits (sst_entries list_deps (mt_new list_deps))"
    using list_mem.mt_inv_new list_mem.mt_sized_fits [OF list_mem.mt_sized_new]
    by (simp_all) (simp_all add: mt_new_def)
  from flushed_table_serves_memtable [OF list_mem.mem_skip_map_axioms this, of 3] show ?thesis
    by (fastforce simp: mt_get_cf_def mt_new_def list_deps_def)
qed

section \<open>Transaction fates\<close>



end
