(* ===== verification/Raft_Message.thy ===== *)
theory Raft_Message
  imports Encoding
begin

text \<open>
  \<open>raft/src/message.rs\<close>: log entries, membership changes and their encoding, the persistent
  hard state, and the messages nodes exchange. Node ids are 64-bit words, which the code only
  compares and encodes. Terms, log indices and read rounds are natural numbers: the code counts
  them up from zero by one, and where they are written to 8 bytes they are taken modulo \<open>2 ^ 64\<close>.
\<close>

type_synonym node_id = u64

datatype entry_type = Normal | ConfChangeEntry

record entry =
  e_term :: nat
  e_index :: nat
  e_type :: entry_type
  e_data :: bytes

definition entry_normal :: "nat \<Rightarrow> nat \<Rightarrow> bytes \<Rightarrow> entry" where
  "entry_normal term idx data = \<lparr>e_term = term, e_index = idx, e_type = Normal, e_data = data\<rparr>"

datatype conf_change = AddNode node_id | RemoveNode node_id | AddLearner node_id

fun cc_node_id :: "conf_change \<Rightarrow> node_id" where
  "cc_node_id (AddNode i) = i"
| "cc_node_id (RemoveNode i) = i"
| "cc_node_id (AddLearner i) = i"

fun cc_op :: "conf_change \<Rightarrow> byte" where
  "cc_op (AddNode i) = 1"
| "cc_op (RemoveNode i) = 2"
| "cc_op (AddLearner i) = 3"

definition cc_encode :: "conf_change \<Rightarrow> node_id list \<Rightarrow> node_id list \<Rightarrow> bytes" where
  "cc_encode cc voters learners = [cc_op cc] @ u64_to_be (cc_node_id cc) @
     u32_to_be (word_of_nat (length voters)) @ concat (map u64_to_be voters) @
     u32_to_be (word_of_nat (length learners)) @ concat (map u64_to_be learners)"

text \<open>The loop that reads \<open>n\<close> ids at cursor \<open>p\<close>, with the cursor behind them.\<close>

fun read_u64s :: "bytes \<Rightarrow> nat \<Rightarrow> nat \<Rightarrow> (u64 list \<times> nat) option" where
  "read_u64s b 0 p = Some ([], p)"
| "read_u64s b (Suc n) p =
     (if p + 8 > length b then None
      else map_option (\<lambda>(ids, p'). (u64_of_be (slice b p (p + 8)) # ids, p')) (read_u64s b n (p + 8)))"

definition cc_decode :: "bytes \<Rightarrow> (conf_change \<times> node_id list \<times> node_id list) option" where
  "cc_decode b =
     (if length b < 13 then None
      else
        let i = u64_of_be (slice b 1 9)
        in Option.bind
             (if b ! 0 = 1 then Some (AddNode i)
              else if b ! 0 = 2 then Some (RemoveNode i)
              else if b ! 0 = 3 then Some (AddLearner i)
              else None)
             (\<lambda>cc. Option.bind (read_u64s b (unat (u32_of_be (slice b 9 13))) 13) (\<lambda>(voters, p).
                if p + 4 \<le> length b
                then Option.bind (read_u64s b (unat (u32_of_be (slice b p (p + 4)))) (p + 4))
                       (\<lambda>(learners, _). Some (cc, voters, learners))
                else Some (cc, voters, []))))"

record hard_state =
  hs_current_term :: nat
  hs_voted_for :: "node_id option"

definition hard_state_default :: hard_state where
  "hard_state_default = \<lparr>hs_current_term = 0, hs_voted_for = None\<rparr>"

datatype message_body =
    RequestVote (rv_last_log_index: nat) (rv_last_log_term: nat)
  | RequestVoteResp (rv_granted: bool)
  | AppendEntries (ae_prev_log_index: nat) (ae_prev_log_term: nat) (ae_entries: "entry list")
      (ae_leader_commit: nat) (ae_read_round: nat)
  | AppendEntriesResp (ar_success: bool) (ar_match_index: nat) (ar_read_round: nat)
  | InstallSnapshot (is_last_included_index: nat) (is_last_included_term: nat)
      (is_conf_state: "node_id list") (is_learners: "node_id list") (is_data: bytes)
  | InstallSnapshotResp (ir_match_index: nat)
  | TimeoutNow

record message =
  msg_from :: node_id
  msg_to :: node_id
  msg_term :: nat
  msg_body :: message_body

section \<open>Codec of membership changes\<close>

lemma length_concat_u64 [simp, codec_simps]: "length (concat (map u64_to_be ns)) = 8 * length ns"
  by (induction ns) simp_all

lemma read_u64s_at [codec_simps]:
  assumes "length pre = p"
  shows "read_u64s (pre @ concat (map u64_to_be ids) @ post) (length ids) p = Some (ids, p + 8 * length ids)"
  using assms
proof (induction ids arbitrary: pre p)
  case (Cons i ids)
  have "read_u64s ((pre @ u64_to_be i) @ concat (map u64_to_be ids) @ post) (length ids) (p + 8)
      = Some (ids, p + 8 + 8 * length ids)"
    using Cons.prems by (intro Cons.IH) simp
  moreover have "slice (pre @ u64_to_be i @ concat (map u64_to_be ids) @ post) p (p + 8) = u64_to_be i"
    using Cons.prems by (intro slice_mid) simp_all
  ultimately show ?case using Cons.prems by simp
qed simp

lemma cc_roundtrip [codec_simps]:
  assumes "fits_u32 voters" "fits_u32 learners"
  shows "cc_decode (cc_encode cc voters learners) = Some (cc, voters, learners)"
proof -
  let ?o = "[cc_op cc]" and ?i = "u64_to_be (cc_node_id cc)"
  let ?n = "u32_to_be (word_of_nat (length voters))" and ?v = "concat (map u64_to_be voters)"
  let ?m = "u32_to_be (word_of_nat (length learners))" and ?l = "concat (map u64_to_be learners)"
  let ?b = "cc_encode cc voters learners"
  have b: "?b = ?o @ ?i @ ?n @ ?v @ ?m @ ?l" by (simp add: cc_encode_def)
  have i: "slice ?b 1 9 = ?i" unfolding b by (rule slice_mid) simp_all
  have n: "slice ?b 9 13 = ?n"
    using slice_mid [of "?o @ ?i" 9 ?n 13 "?v @ ?m @ ?l"] by (simp add: b)
  have v: "read_u64s ?b (length voters) 13 = Some (voters, 13 + 8 * length voters)"
    using read_u64s_at [of "?o @ ?i @ ?n" 13 voters "?m @ ?l"] by (simp add: b)
  have m: "slice ?b (13 + 8 * length voters) (13 + 8 * length voters + 4) = ?m"
    using slice_mid [of "?o @ ?i @ ?n @ ?v" "13 + 8 * length voters" ?m _ ?l] by (simp add: b)
  have l: "read_u64s ?b (length learners) (13 + 8 * length voters + 4)
      = Some (learners, 13 + 8 * length voters + 4 + 8 * length learners)"
    using read_u64s_at [of "?o @ ?i @ ?n @ ?v @ ?m" "13 + 8 * length voters + 4" learners "[]"]
    by (simp add: b)
  have len: "length ?b = 17 + 8 * length voters + 8 * length learners" by (simp add: b)
  have op: "?b ! 0 = cc_op cc" by (simp add: b)
  show ?thesis
    unfolding cc_decode_def i n m u64_of_be_to_be u32_of_be_to_be
    using v l m len op assms by (cases cc) (simp_all add: unat_u32_of_nat Let_def)
qed

end
