(* ===== verification/Raft_Storage.thy ===== *)
theory Raft_Storage
  imports Raft_Message
begin

text \<open>
  \<open>raft/src/storage.rs\<close>: the \<open>Storage\<close> trait as a record of its methods, and the in-memory
  implementation. A storage is described by what an in-memory storage would hold: the locale
  \<open>raft_storage\<close> states that every method acts on that view as the method of \<open>MemStorage\<close> does.
\<close>

record snapshot =
  sn_last_included_index :: nat
  sn_last_included_term :: nat
  sn_conf_state :: "node_id list"
  sn_learners :: "node_id list"
  sn_data :: bytes

text \<open>The methods of the trait.\<close>

record 's storage =
  st_hard_state :: "'s \<Rightarrow> hard_state"
  st_save_hard_state :: "'s \<Rightarrow> hard_state \<Rightarrow> 's"
  st_last_index :: "'s \<Rightarrow> nat"
  st_term :: "'s \<Rightarrow> nat \<Rightarrow> nat option"
  st_entries :: "'s \<Rightarrow> nat \<Rightarrow> nat \<Rightarrow> entry list"
  st_append :: "'s \<Rightarrow> entry list \<Rightarrow> 's"
  st_truncate_suffix :: "'s \<Rightarrow> nat \<Rightarrow> 's"
  st_snapshot :: "'s \<Rightarrow> snapshot option"
  st_first_index :: "'s \<Rightarrow> nat"
  st_compact :: "'s \<Rightarrow> nat \<Rightarrow> nat \<Rightarrow> node_id list \<Rightarrow> node_id list \<Rightarrow> bytes \<Rightarrow> 's"
  st_apply_snapshot :: "'s \<Rightarrow> snapshot \<Rightarrow> 's"

section \<open>The in-memory storage\<close>

record mem_storage =
  ms_hard :: hard_state
  ms_log :: "entry list"
  ms_snap :: "snapshot option"

definition mem_new :: mem_storage where
  "mem_new = \<lparr>ms_hard = hard_state_default, ms_log = [], ms_snap = None\<rparr>"

definition mem_base :: "mem_storage \<Rightarrow> nat" where
  "mem_base s = (case ms_snap s of None \<Rightarrow> 0 | Some sn \<Rightarrow> sn_last_included_index sn)"

definition mem_hard_state :: "mem_storage \<Rightarrow> hard_state" where
  "mem_hard_state s = ms_hard s"

definition mem_save_hard_state :: "mem_storage \<Rightarrow> hard_state \<Rightarrow> mem_storage" where
  "mem_save_hard_state s hs = s\<lparr>ms_hard := hs\<rparr>"

definition mem_last_index :: "mem_storage \<Rightarrow> nat" where
  "mem_last_index s = (if ms_log s = [] then mem_base s else e_index (last (ms_log s)))"

text \<open>\<open>log.get(i).map(..)\<close> is \<open>None\<close> out of range.\<close>

definition log_get :: "'a list \<Rightarrow> nat \<Rightarrow> 'a option" where
  "log_get xs i = (if i < length xs then Some (xs ! i) else None)"

definition mem_term :: "mem_storage \<Rightarrow> nat \<Rightarrow> nat option" where
  "mem_term s idx =
     (if idx = 0 then Some 0
      else
        let base = mem_base s
        in if idx = base then map_option sn_last_included_term (ms_snap s)
           else if idx < base then None
           else map_option e_term (log_get (ms_log s) (idx - base - 1)))"

definition mem_entries :: "mem_storage \<Rightarrow> nat \<Rightarrow> nat \<Rightarrow> entry list" where
  "mem_entries s low high =
     (let base = mem_base s;
          low = max low (base + 1)
      in if low > high then []
         else
           let lo = low - base - 1;
               hi = min (high - base) (length (ms_log s))
           in if lo \<ge> hi then [] else slice (ms_log s) lo hi)"

text \<open>The contiguity that \<open>append\<close> asserts in debug builds is a duty of its caller.\<close>

definition mem_append :: "mem_storage \<Rightarrow> entry list \<Rightarrow> mem_storage" where
  "mem_append s es = s\<lparr>ms_log := ms_log s @ es\<rparr>"

definition mem_truncate_suffix :: "mem_storage \<Rightarrow> nat \<Rightarrow> mem_storage" where
  "mem_truncate_suffix s from =
     (let base = mem_base s
      in if from \<le> base + 1 then s\<lparr>ms_log := []\<rparr> else s\<lparr>ms_log := take (from - base - 1) (ms_log s)\<rparr>)"

definition mem_snapshot :: "mem_storage \<Rightarrow> snapshot option" where
  "mem_snapshot s = ms_snap s"

definition mem_first_index :: "mem_storage \<Rightarrow> nat" where
  "mem_first_index s = mem_base s + 1"

definition mem_compact :: "mem_storage \<Rightarrow> nat \<Rightarrow> nat \<Rightarrow> node_id list \<Rightarrow> node_id list \<Rightarrow> bytes \<Rightarrow> mem_storage" where
  "mem_compact s idx term conf learners data =
     (let base = mem_base s
      in if idx \<le> base then s
         else s\<lparr>ms_log := drop (min (idx - base) (length (ms_log s))) (ms_log s),
                ms_snap := Some \<lparr>sn_last_included_index = idx, sn_last_included_term = term,
                  sn_conf_state = conf, sn_learners = learners, sn_data = data\<rparr>\<rparr>)"

definition mem_apply_snapshot :: "mem_storage \<Rightarrow> snapshot \<Rightarrow> mem_storage" where
  "mem_apply_snapshot s sn = s\<lparr>ms_log := [], ms_snap := Some sn\<rparr>"

definition mem_ops :: "mem_storage storage" where
  "mem_ops = \<lparr>st_hard_state = mem_hard_state, st_save_hard_state = mem_save_hard_state,
     st_last_index = mem_last_index, st_term = mem_term, st_entries = mem_entries, st_append = mem_append,
     st_truncate_suffix = mem_truncate_suffix, st_snapshot = mem_snapshot, st_first_index = mem_first_index,
     st_compact = mem_compact, st_apply_snapshot = mem_apply_snapshot\<rparr>"

lemma mem_ops_simps [simp]:
  "st_hard_state mem_ops = mem_hard_state" "st_save_hard_state mem_ops = mem_save_hard_state"
  "st_last_index mem_ops = mem_last_index" "st_term mem_ops = mem_term" "st_entries mem_ops = mem_entries"
  "st_append mem_ops = mem_append" "st_truncate_suffix mem_ops = mem_truncate_suffix"
  "st_snapshot mem_ops = mem_snapshot" "st_first_index mem_ops = mem_first_index"
  "st_compact mem_ops = mem_compact" "st_apply_snapshot mem_ops = mem_apply_snapshot"
  by (simp_all add: mem_ops_def)

section \<open>The contract of a storage\<close>

locale raft_storage =
  fixes S :: "'s storage" and view :: "'s \<Rightarrow> mem_storage"
  assumes view_hard_state: "st_hard_state S s = mem_hard_state (view s)"
    and view_save_hard_state: "view (st_save_hard_state S s hs) = mem_save_hard_state (view s) hs"
    and view_last_index: "st_last_index S s = mem_last_index (view s)"
    and view_term: "st_term S s = mem_term (view s)"
    and view_entries: "st_entries S s = mem_entries (view s)"
    and view_append: "view (st_append S s es) = mem_append (view s) es"
    and view_truncate_suffix: "view (st_truncate_suffix S s i) = mem_truncate_suffix (view s) i"
    and view_snapshot: "st_snapshot S s = mem_snapshot (view s)"
    and view_first_index: "st_first_index S s = mem_first_index (view s)"
    and view_compact: "view (st_compact S s i t vs ls d) = mem_compact (view s) i t vs ls d"
    and view_apply_snapshot: "view (st_apply_snapshot S s sn) = mem_apply_snapshot (view s) sn"
begin

lemmas view_laws = view_hard_state view_save_hard_state view_last_index view_term view_entries view_append
  view_truncate_suffix view_snapshot view_first_index view_compact view_apply_snapshot

end

interpretation mem_st: raft_storage mem_ops "\<lambda>s. s"
  by unfold_locales simp_all

section \<open>Contiguous logs\<close>

text \<open>Every log a node holds: entry \<open>i\<close> has index \<open>base + i + 1\<close>.\<close>

definition contiguous :: "nat \<Rightarrow> entry list \<Rightarrow> bool" where
  "contiguous base es \<longleftrightarrow> (\<forall>i < length es. e_index (es ! i) = base + i + 1)"

definition mem_wf :: "mem_storage \<Rightarrow> bool" where
  "mem_wf s \<longleftrightarrow> contiguous (mem_base s) (ms_log s)"

lemma contiguous_Nil [simp]: "contiguous base []"
  by (simp add: contiguous_def)

lemma contiguous_nth: "contiguous base es \<Longrightarrow> i < length es \<Longrightarrow> e_index (es ! i) = base + i + 1"
  by (simp add: contiguous_def)

lemma contiguous_append:
  "contiguous base (xs @ ys) \<longleftrightarrow> contiguous base xs \<and> contiguous (base + length xs) ys"
proof
  assume c: "contiguous base (xs @ ys)"
  have "e_index (xs ! i) = base + i + 1" if "i < length xs" for i
    using contiguous_nth [OF c, of i] that by (simp add: nth_append)
  moreover have "e_index (ys ! i) = base + length xs + i + 1" if "i < length ys" for i
    using contiguous_nth [OF c, of "length xs + i"] that by (simp add: nth_append)
  ultimately show "contiguous base xs \<and> contiguous (base + length xs) ys"
    by (simp add: contiguous_def)
qed (auto simp: contiguous_def nth_append)

lemma contiguous_take: "contiguous base es \<Longrightarrow> contiguous base (take n es)"
  by (metis append_take_drop_id contiguous_append)

lemma contiguous_drop: "contiguous base es \<Longrightarrow> n \<le> length es \<Longrightarrow> contiguous (base + n) (drop n es)"
  by (metis append_take_drop_id contiguous_append length_take min.absorb2)

lemma mem_last_index_wf: "mem_wf s \<Longrightarrow> mem_last_index s = mem_base s + length (ms_log s)"
  by (auto simp: mem_last_index_def mem_wf_def last_conv_nth contiguous_nth)

end
