(* ===== verification/Raft_Node.thy ===== *)
theory Raft_Node
  imports Raft_Storage
begin

unbundle bit_operations_syntax

text \<open>
  \<open>raft/src/node.rs\<close>: the Raft state machine. A node is a record with the fields of \<open>RaftNode\<close>;
  every method is a function of the node, given the methods \<open>S\<close> of its storage. Ordered maps and
  sets keyed by node id are functions and sets, which the code never iterates. Timers count ticks
  as natural numbers. The outbox, the confirmed reads and the pending snapshot are fields that the
  \<open>take_*\<close> methods empty.
\<close>

datatype role = Follower | Candidate | Leader

record config =
  cfg_id :: node_id
  cfg_voters :: "node_id list"
  cfg_election_timeout :: nat
  cfg_heartbeat_timeout :: nat
  cfg_seed :: u64
  cfg_check_quorum :: bool

definition config_new :: "node_id \<Rightarrow> node_id list \<Rightarrow> config" where
  "config_new i voters = \<lparr>cfg_id = i, cfg_voters = voters, cfg_election_timeout = 10,
     cfg_heartbeat_timeout = 1, cfg_seed = i * 0x9E3779B97F4A7C15, cfg_check_quorum = True\<rparr>"

datatype propose_error = NotLeader | ConfChangeInProgress | CannotRemoveLeader | TransferInProgress | NotAVoter

record 's raft_node =
  rn_id :: node_id
  rn_voters :: "node_id list"
  rn_learners :: "node_id list"
  rn_bootstrap_conf :: "node_id list"
  rn_storage :: 's
  rn_role :: role
  rn_current_term :: nat
  rn_voted_for :: "node_id option"
  rn_commit_index :: nat
  rn_last_applied :: nat
  rn_leader_id :: "node_id option"
  rn_votes :: "node_id set"
  rn_next_index :: "node_id \<Rightarrow> nat option"
  rn_match_index :: "node_id \<Rightarrow> nat option"
  rn_election_elapsed :: nat
  rn_heartbeat_elapsed :: nat
  rn_randomized_election_timeout :: nat
  rn_election_timeout :: nat
  rn_heartbeat_timeout :: nat
  rn_rng :: u64
  rn_transfer_target :: "node_id option"
  rn_transfer_elapsed :: nat
  rn_check_quorum :: bool
  rn_recent_active :: "node_id set"
  rn_quorum_elapsed :: nat
  rn_read_round :: nat
  rn_acked_round :: "node_id \<Rightarrow> nat option"
  rn_pending_reads :: "(u64 \<times> nat) list"
  rn_ready_reads :: "(u64 \<times> nat) list"
  rn_messages :: "message list"
  rn_pending_snapshot :: "(nat \<times> bytes) option"

definition or_zero :: "nat option \<Rightarrow> nat" where
  "or_zero x = (case x of None \<Rightarrow> 0 | Some n \<Rightarrow> n)"

section \<open>Small utilities\<close>

definition send :: "'s raft_node \<Rightarrow> node_id \<Rightarrow> nat \<Rightarrow> message_body \<Rightarrow> 's raft_node" where
  "send nd to term body =
     nd\<lparr>rn_messages := rn_messages nd @ [\<lparr>msg_from = rn_id nd, msg_to = to, msg_term = term, msg_body = body\<rparr>]\<rparr>"

definition persist_hard_state :: "'s storage \<Rightarrow> 's raft_node \<Rightarrow> 's raft_node" where
  "persist_hard_state S nd = nd\<lparr>rn_storage := st_save_hard_state S (rn_storage nd)
     \<lparr>hs_current_term = rn_current_term nd, hs_voted_for = rn_voted_for nd\<rparr>\<rparr>"

definition majority :: "'s raft_node \<Rightarrow> nat" where
  "majority nd = length (rn_voters nd) div 2 + 1"

definition peers :: "'s raft_node \<Rightarrow> node_id list" where
  "peers nd = filter (\<lambda>p. p \<noteq> rn_id nd) (rn_voters nd)"

definition replication_peers :: "'s raft_node \<Rightarrow> node_id list" where
  "replication_peers nd = filter (\<lambda>p. p \<noteq> rn_id nd) (rn_voters nd @ rn_learners nd)"

definition is_voter :: "'s raft_node \<Rightarrow> bool" where
  "is_voter nd \<longleftrightarrow> rn_id nd \<in> set (rn_voters nd)"

definition last_log_term :: "'s storage \<Rightarrow> 's raft_node \<Rightarrow> nat" where
  "last_log_term S nd = or_zero (st_term S (rn_storage nd) (st_last_index S (rn_storage nd)))"

definition next_rand :: "'s raft_node \<Rightarrow> 's raft_node \<times> u64" where
  "next_rand nd =
     (let x = rn_rng nd;
          x = x XOR push_bit 13 x;
          x = x XOR drop_bit 7 x;
          x = x XOR push_bit 17 x
      in (nd\<lparr>rn_rng := x\<rparr>, x))"

definition reset_election_timer :: "'s raft_node \<Rightarrow> 's raft_node" where
  "reset_election_timer nd =
     (let nd = nd\<lparr>rn_election_elapsed := 0\<rparr>;
          span = rn_election_timeout nd
      in case next_rand nd of (nd, x) \<Rightarrow> nd\<lparr>rn_randomized_election_timeout := span + unat x mod span\<rparr>)"

section \<open>Role changes that need no messages\<close>

definition become_follower :: "'s storage \<Rightarrow> 's raft_node \<Rightarrow> nat \<Rightarrow> node_id option \<Rightarrow> 's raft_node" where
  "become_follower S nd term leader =
     (let nd = (if term > rn_current_term nd
                then persist_hard_state S (nd\<lparr>rn_current_term := term, rn_voted_for := None\<rparr>)
                else nd)
      in reset_election_timer (nd\<lparr>rn_role := Follower, rn_leader_id := leader, rn_transfer_target := None,
           rn_transfer_elapsed := 0, rn_pending_reads := [], rn_ready_reads := []\<rparr>))"

section \<open>Membership\<close>

fun apply_conf_change :: "node_id list \<Rightarrow> node_id list \<Rightarrow> conf_change \<Rightarrow> node_id list \<times> node_id list" where
  "apply_conf_change voters learners (AddNode i) =
     (if i \<in> set voters then voters else voters @ [i], filter (\<lambda>l. l \<noteq> i) learners)"
| "apply_conf_change voters learners (RemoveNode i) =
     (filter (\<lambda>v. v \<noteq> i) voters, filter (\<lambda>l. l \<noteq> i) learners)"
| "apply_conf_change voters learners (AddLearner i) =
     (voters, if i \<notin> set voters \<and> i \<notin> set learners then learners @ [i] else learners)"

definition sort_dedup :: "node_id list \<Rightarrow> node_id list" where
  "sort_dedup xs = remdups_adj (sort xs)"

definition has_pending_conf_change :: "'s storage \<Rightarrow> 's raft_node \<Rightarrow> bool" where
  "has_pending_conf_change S nd =
     (let lo = max (rn_commit_index nd + 1) (st_first_index S (rn_storage nd))
      in \<exists>e \<in> set (st_entries S (rn_storage nd) lo (st_last_index S (rn_storage nd))). e_type e = ConfChangeEntry)"

definition conf_entry :: "entry \<Rightarrow> node_id list \<times> node_id list \<Rightarrow> node_id list \<times> node_id list" where
  "conf_entry e c =
     (if e_type e = ConfChangeEntry
      then case cc_decode (e_data e) of Some (_, v, l) \<Rightarrow> (v, l) | None \<Rightarrow> c
      else c)"

definition conf_at :: "'s storage \<Rightarrow> 's raft_node \<Rightarrow> nat \<Rightarrow> node_id list \<times> node_id list" where
  "conf_at S nd idx =
     (let c = (case st_snapshot S (rn_storage nd) of
                 Some s \<Rightarrow> (sn_conf_state s, sn_learners s)
               | None \<Rightarrow> (rn_bootstrap_conf nd, []))
      in case fold conf_entry (st_entries S (rn_storage nd) (st_first_index S (rn_storage nd)) idx) c of
           (voters, learners) \<Rightarrow> (sort_dedup voters, sort_dedup learners))"

definition recompute_conf :: "'s storage \<Rightarrow> 's raft_node \<Rightarrow> 's raft_node" where
  "recompute_conf S nd =
     (case conf_at S nd (st_last_index S (rn_storage nd)) of (voters, learners) \<Rightarrow>
        let nd = nd\<lparr>rn_voters := voters, rn_learners := learners\<rparr>;
            nd = (case rn_transfer_target nd of
                    Some t \<Rightarrow>
                      if t \<notin> set (rn_voters nd) then nd\<lparr>rn_transfer_target := None, rn_transfer_elapsed := 0\<rparr>
                      else nd
                  | None \<Rightarrow> nd)
        in if rn_role nd = Leader \<and> \<not> is_voter nd then become_follower S nd (rn_current_term nd) None else nd)"

section \<open>Construction\<close>

definition node_init :: "'s storage \<Rightarrow> config \<Rightarrow> 's \<Rightarrow> 's raft_node" where
  "node_init S cfg st =
     (let hs = st_hard_state S st
      in \<lparr>rn_id = cfg_id cfg, rn_voters = cfg_voters cfg, rn_learners = [], rn_bootstrap_conf = cfg_voters cfg,
          rn_storage = st, rn_role = Follower, rn_current_term = hs_current_term hs,
          rn_voted_for = hs_voted_for hs, rn_commit_index = 0, rn_last_applied = 0, rn_leader_id = None,
          rn_votes = {}, rn_next_index = (\<lambda>_. None), rn_match_index = (\<lambda>_. None), rn_election_elapsed = 0,
          rn_heartbeat_elapsed = 0, rn_randomized_election_timeout = cfg_election_timeout cfg,
          rn_election_timeout = max (cfg_election_timeout cfg) 1,
          rn_heartbeat_timeout = max (cfg_heartbeat_timeout cfg) 1, rn_rng = cfg_seed cfg OR 1,
          rn_transfer_target = None, rn_transfer_elapsed = 0, rn_check_quorum = cfg_check_quorum cfg,
          rn_recent_active = {}, rn_quorum_elapsed = 0, rn_read_round = 0, rn_acked_round = (\<lambda>_. None),
          rn_pending_reads = [], rn_ready_reads = [], rn_messages = [], rn_pending_snapshot = None\<rparr>)"

definition node_new :: "'s storage \<Rightarrow> config \<Rightarrow> 's \<Rightarrow> 's raft_node" where
  "node_new S cfg st = recompute_conf S (reset_election_timer (node_init S cfg st))"

definition progress :: "'s storage \<Rightarrow> 's raft_node \<Rightarrow> node_id \<Rightarrow> (nat \<times> nat) option" where
  "progress S nd peer =
     (if rn_role nd \<noteq> Leader then None
      else map_option (\<lambda>m. (m, st_last_index S (rn_storage nd))) (rn_match_index nd peer))"

section \<open>Replication\<close>

definition send_snapshot :: "'s storage \<Rightarrow> 's raft_node \<Rightarrow> node_id \<Rightarrow> 's raft_node" where
  "send_snapshot S nd to = (case st_snapshot S (rn_storage nd) of
     None \<Rightarrow> nd
   | Some s \<Rightarrow> send nd to (rn_current_term nd)
       (InstallSnapshot (sn_last_included_index s) (sn_last_included_term s) (sn_conf_state s)
          (sn_learners s) (sn_data s)))"

definition send_append :: "'s storage \<Rightarrow> 's raft_node \<Rightarrow> node_id \<Rightarrow> 's raft_node" where
  "send_append S nd to =
     (let st = rn_storage nd;
          last = st_last_index S st;
          nxt = (case rn_next_index nd to of Some n \<Rightarrow> n | None \<Rightarrow> last + 1)
      in if nxt < st_first_index S st then send_snapshot S nd to
         else
           let prev_log_index = nxt - 1
           in send nd to (rn_current_term nd)
                (AppendEntries prev_log_index (or_zero (st_term S st prev_log_index)) (st_entries S st nxt last)
                   (rn_commit_index nd) (rn_read_round nd)))"

definition broadcast_append :: "'s storage \<Rightarrow> 's raft_node \<Rightarrow> 's raft_node" where
  "broadcast_append S nd = fold (\<lambda>p nd. send_append S nd p) (replication_peers nd) nd"

section \<open>Commit index and reads\<close>

definition read_acks :: "'s raft_node \<Rightarrow> nat \<Rightarrow> nat" where
  "read_acks nd round = length (filter (\<lambda>v. v = rn_id nd \<or>
     (case rn_acked_round nd v of Some r \<Rightarrow> r \<ge> round | None \<Rightarrow> False)) (rn_voters nd))"

text \<open>The loop of \<open>advance_reads\<close>: the confirmed prefix of the pending reads.\<close>

definition confirmed_reads :: "'s raft_node \<Rightarrow> (u64 \<times> nat) list" where
  "confirmed_reads nd = takeWhile (\<lambda>(ctx, round). read_acks nd round \<ge> majority nd) (rn_pending_reads nd)"

definition advance_reads :: "'s storage \<Rightarrow> 's raft_node \<Rightarrow> 's raft_node" where
  "advance_reads S nd =
     (if rn_role nd \<noteq> Leader \<or> rn_pending_reads nd = [] \<or>
         st_term S (rn_storage nd) (rn_commit_index nd) \<noteq> Some (rn_current_term nd)
      then nd
      else
        let c = confirmed_reads nd
        in nd\<lparr>rn_ready_reads := rn_ready_reads nd @ map (\<lambda>(ctx, _). (ctx, rn_commit_index nd)) c,
              rn_pending_reads := drop (length c) (rn_pending_reads nd)\<rparr>)"

definition match_count :: "'s raft_node \<Rightarrow> nat \<Rightarrow> nat" where
  "match_count nd n = length (filter (\<lambda>v. or_zero (rn_match_index nd v) \<ge> n) (rn_voters nd))"

fun commit_loop :: "'s storage \<Rightarrow> 's raft_node \<Rightarrow> nat \<Rightarrow> 's raft_node" where
  "commit_loop S nd n =
     (if n > rn_commit_index nd
      then
        if st_term S (rn_storage nd) n = Some (rn_current_term nd) \<and> match_count nd n \<ge> majority nd
        then advance_reads S (nd\<lparr>rn_commit_index := n\<rparr>)
        else commit_loop S nd (n - 1)
      else nd)"

declare commit_loop.simps [simp del]

definition maybe_advance_commit :: "'s storage \<Rightarrow> 's raft_node \<Rightarrow> 's raft_node" where
  "maybe_advance_commit S nd = commit_loop S nd (st_last_index S (rn_storage nd))"

section \<open>Elections\<close>

definition become_leader :: "'s storage \<Rightarrow> 's raft_node \<Rightarrow> 's raft_node" where
  "become_leader S nd =
     (let last = st_last_index S (rn_storage nd);
          members = rn_voters nd @ rn_learners nd
      in broadcast_append S (nd\<lparr>rn_role := Leader, rn_leader_id := Some (rn_id nd),
           rn_next_index := (\<lambda>p. if p \<in> set members then Some (last + 1) else None),
           rn_match_index := (\<lambda>p. if p = rn_id nd then Some last else if p \<in> set members then Some 0 else None),
           rn_heartbeat_elapsed := 0, rn_transfer_target := None, rn_transfer_elapsed := 0,
           rn_recent_active := {}, rn_quorum_elapsed := 0, rn_acked_round := (\<lambda>_. None),
           rn_pending_reads := [], rn_ready_reads := []\<rparr>))"

definition start_election :: "'s storage \<Rightarrow> 's raft_node \<Rightarrow> 's raft_node" where
  "start_election S nd =
     (let nd = persist_hard_state S (nd\<lparr>rn_role := Candidate, rn_current_term := rn_current_term nd + 1,
                 rn_voted_for := Some (rn_id nd)\<rparr>);
          nd = reset_election_timer (nd\<lparr>rn_leader_id := None, rn_votes := {rn_id nd}\<rparr>)
      in if card (rn_votes nd) \<ge> majority nd then become_leader S nd
         else fold (\<lambda>p nd. send nd p (rn_current_term nd)
                (RequestVote (st_last_index S (rn_storage nd)) (last_log_term S nd))) (peers nd) nd)"

definition fire_timeout_now :: "'s raft_node \<Rightarrow> node_id \<Rightarrow> 's raft_node" where
  "fire_timeout_now nd target =
     (send nd target (rn_current_term nd) TimeoutNow)\<lparr>rn_transfer_target := None, rn_transfer_elapsed := 0\<rparr>"

section \<open>Driver inputs\<close>

text \<open>A leader's tick: the transfer timeout, the heartbeat and the quorum check, in this order.\<close>

definition tick_transfer :: "'s raft_node \<Rightarrow> 's raft_node" where
  "tick_transfer nd =
     (if rn_transfer_target nd \<noteq> None
      then
        let e = rn_transfer_elapsed nd + 1
        in if e \<ge> rn_election_timeout nd then nd\<lparr>rn_transfer_target := None, rn_transfer_elapsed := 0\<rparr>
           else nd\<lparr>rn_transfer_elapsed := e\<rparr>
      else nd)"

definition tick_heartbeat :: "'s storage \<Rightarrow> 's raft_node \<Rightarrow> 's raft_node" where
  "tick_heartbeat S nd =
     (let h = rn_heartbeat_elapsed nd + 1
      in if h \<ge> rn_heartbeat_timeout nd then broadcast_append S (nd\<lparr>rn_heartbeat_elapsed := 0\<rparr>)
         else nd\<lparr>rn_heartbeat_elapsed := h\<rparr>)"

definition heard_from :: "'s raft_node \<Rightarrow> nat" where
  "heard_from nd = length (filter (\<lambda>v. v = rn_id nd \<or> v \<in> rn_recent_active nd) (rn_voters nd))"

definition tick_quorum :: "'s storage \<Rightarrow> 's raft_node \<Rightarrow> 's raft_node" where
  "tick_quorum S nd =
     (let q = rn_quorum_elapsed nd + 1
      in if q \<ge> rn_election_timeout nd
         then
           let heard = heard_from nd;
               nd = nd\<lparr>rn_quorum_elapsed := 0, rn_recent_active := {}\<rparr>
           in if rn_check_quorum nd \<and> heard < majority nd
              then become_follower S nd (rn_current_term nd) None
              else nd
         else nd\<lparr>rn_quorum_elapsed := q\<rparr>)"

definition tick_leader :: "'s storage \<Rightarrow> 's raft_node \<Rightarrow> 's raft_node" where
  "tick_leader S nd = tick_quorum S (tick_heartbeat S (tick_transfer nd))"

definition tick :: "'s storage \<Rightarrow> 's raft_node \<Rightarrow> 's raft_node" where
  "tick S nd =
     (if rn_role nd = Leader then tick_leader S nd
      else
        let nd = nd\<lparr>rn_election_elapsed := rn_election_elapsed nd + 1\<rparr>
        in if rn_election_elapsed nd \<ge> rn_randomized_election_timeout nd \<and> is_voter nd
           then start_election S nd else nd)"

text \<open>Appending an entry of the leader: to its log, and to its own progress.\<close>

definition leader_append :: "'s storage \<Rightarrow> 's raft_node \<Rightarrow> entry \<Rightarrow> 's raft_node" where
  "leader_append S nd e = nd\<lparr>rn_storage := st_append S (rn_storage nd) [e],
     rn_match_index := (rn_match_index nd)(rn_id nd := Some (e_index e)),
     rn_next_index := (rn_next_index nd)(rn_id nd := Some (e_index e + 1))\<rparr>"

definition propose :: "'s storage \<Rightarrow> 's raft_node \<Rightarrow> bytes \<Rightarrow> 's raft_node \<times> (propose_error + nat)" where
  "propose S nd data =
     (if rn_role nd \<noteq> Leader then (nd, Inl NotLeader)
      else if rn_transfer_target nd \<noteq> None then (nd, Inl TransferInProgress)
      else
        let idx = st_last_index S (rn_storage nd) + 1;
            nd = leader_append S nd (entry_normal (rn_current_term nd) idx data)
        in (broadcast_append S (maybe_advance_commit S nd), Inr idx))"

definition read_index :: "'s storage \<Rightarrow> 's raft_node \<Rightarrow> u64 \<Rightarrow> 's raft_node \<times> (propose_error + unit)" where
  "read_index S nd ctx =
     (if rn_role nd \<noteq> Leader then (nd, Inl NotLeader)
      else
        let r = rn_read_round nd + 1;
            nd = nd\<lparr>rn_read_round := r, rn_pending_reads := rn_pending_reads nd @ [(ctx, r)]\<rparr>
        in (advance_reads S (broadcast_append S nd), Inr ()))"

definition take_read_states :: "'s raft_node \<Rightarrow> 's raft_node \<times> (u64 \<times> nat) list" where
  "take_read_states nd = (nd\<lparr>rn_ready_reads := []\<rparr>, rn_ready_reads nd)"

definition track_new :: "'s raft_node \<Rightarrow> node_id \<Rightarrow> 's raft_node" where
  "track_new nd i =
     nd\<lparr>rn_next_index := (if rn_next_index nd i = None then (rn_next_index nd)(i := Some 1) else rn_next_index nd),
        rn_match_index := (if rn_match_index nd i = None then (rn_match_index nd)(i := Some 0) else rn_match_index nd)\<rparr>"

definition propose_conf_change :: "'s storage \<Rightarrow> 's raft_node \<Rightarrow> conf_change \<Rightarrow> 's raft_node \<times> (propose_error + nat)" where
  "propose_conf_change S nd cc =
     (if rn_role nd \<noteq> Leader then (nd, Inl NotLeader)
      else if rn_transfer_target nd \<noteq> None then (nd, Inl TransferInProgress)
      else if has_pending_conf_change S nd then (nd, Inl ConfChangeInProgress)
      else if cc = RemoveNode (rn_id nd) then (nd, Inl CannotRemoveLeader)
      else
        case apply_conf_change (rn_voters nd) (rn_learners nd) cc of (voters, learners) \<Rightarrow>
          let idx = st_last_index S (rn_storage nd) + 1;
              e = \<lparr>e_term = rn_current_term nd, e_index = idx, e_type = ConfChangeEntry,
                   e_data = cc_encode cc (sort_dedup voters) (sort_dedup learners)\<rparr>;
              nd = recompute_conf S (leader_append S nd e);
              nd = (case cc of AddNode i \<Rightarrow> track_new nd i | AddLearner i \<Rightarrow> track_new nd i | RemoveNode _ \<Rightarrow> nd)
          in (broadcast_append S (maybe_advance_commit S nd), Inr idx))"

definition transfer_leadership :: "'s storage \<Rightarrow> 's raft_node \<Rightarrow> node_id \<Rightarrow> 's raft_node \<times> (propose_error + unit)" where
  "transfer_leadership S nd target =
     (if rn_role nd \<noteq> Leader then (nd, Inl NotLeader)
      else if target \<notin> set (rn_voters nd) \<or> target = rn_id nd then (nd, Inl NotAVoter)
      else
        let nd = nd\<lparr>rn_transfer_target := Some target, rn_transfer_elapsed := 0\<rparr>
        in (case progress S nd target of
              Some (m, lst) \<Rightarrow> if m \<ge> lst then fire_timeout_now nd target else send_append S nd target
            | None \<Rightarrow> send_append S nd target, Inr ()))"

section \<open>Message handlers\<close>

definition grants_vote :: "'s storage \<Rightarrow> 's raft_node \<Rightarrow> node_id \<Rightarrow> nat \<Rightarrow> nat \<Rightarrow> nat \<Rightarrow> bool" where
  "grants_vote S nd from term cand_last_index cand_last_term \<longleftrightarrow>
     term \<ge> rn_current_term nd \<and> (rn_voted_for nd = None \<or> rn_voted_for nd = Some from) \<and>
     (cand_last_term > last_log_term S nd \<or>
      cand_last_term = last_log_term S nd \<and> cand_last_index \<ge> st_last_index S (rn_storage nd))"

definition handle_request_vote :: "'s storage \<Rightarrow> 's raft_node \<Rightarrow> node_id \<Rightarrow> nat \<Rightarrow> nat \<Rightarrow> nat \<Rightarrow> 's raft_node" where
  "handle_request_vote S nd from term cand_last_index cand_last_term =
     (let granted = grants_vote S nd from term cand_last_index cand_last_term;
          nd = (if granted then reset_election_timer (persist_hard_state S (nd\<lparr>rn_voted_for := Some from\<rparr>)) else nd)
      in send nd from (rn_current_term nd) (RequestVoteResp granted))"

definition handle_request_vote_resp :: "'s storage \<Rightarrow> 's raft_node \<Rightarrow> node_id \<Rightarrow> nat \<Rightarrow> bool \<Rightarrow> 's raft_node" where
  "handle_request_vote_resp S nd from term granted =
     (if rn_role nd \<noteq> Candidate \<or> term \<noteq> rn_current_term nd then nd
      else if granted \<and> from \<in> set (rn_voters nd)
      then
        let nd = nd\<lparr>rn_votes := insert from (rn_votes nd)\<rparr>
        in if card (rn_votes nd) \<ge> majority nd then become_leader S nd else nd
      else nd)"

definition handle_timeout_now :: "'s storage \<Rightarrow> 's raft_node \<Rightarrow> nat \<Rightarrow> 's raft_node" where
  "handle_timeout_now S nd term =
     (if term < rn_current_term nd \<or> \<not> is_voter nd then nd else start_election S nd)"

text \<open>The splice loop: entries of a message at index \<open>idx\<close> and up are compared with the log; the
  result is the storage, truncated at the first conflict, and the entries from there on if any are
  to be appended.\<close>

fun splice_entries :: "'s storage \<Rightarrow> nat \<Rightarrow> 's \<Rightarrow> nat \<Rightarrow> entry list \<Rightarrow> 's \<times> entry list option" where
  "splice_entries S base st idx [] = (st, None)"
| "splice_entries S base st idx (e # es) =
     (if idx \<le> base then splice_entries S base st (idx + 1) es
      else if idx \<le> st_last_index S st
      then
        if st_term S st idx \<noteq> Some (e_term e) then (st_truncate_suffix S st idx, Some (e # es))
        else splice_entries S base st (idx + 1) es
      else (st, Some (e # es)))"

definition handle_append_entries :: "'s storage \<Rightarrow> 's raft_node \<Rightarrow> node_id \<Rightarrow> nat \<Rightarrow> nat \<Rightarrow> nat \<Rightarrow> entry list
    \<Rightarrow> nat \<Rightarrow> nat \<Rightarrow> 's raft_node" where
  "handle_append_entries S nd from term prev_log_index prev_log_term es leader_commit read_round =
     (if term < rn_current_term nd then send nd from (rn_current_term nd) (AppendEntriesResp False 0 read_round)
      else
        let nd = reset_election_timer (nd\<lparr>rn_role := Follower, rn_leader_id := Some from\<rparr>);
            base = st_first_index S (rn_storage nd) - 1;
            last_new_index = prev_log_index + length es
        in if last_new_index \<le> base
           then send nd from (rn_current_term nd) (AppendEntriesResp True base read_round)
           else if prev_log_index \<ge> base \<and> st_term S (rn_storage nd) prev_log_index \<noteq> Some prev_log_term
           then send nd from (rn_current_term nd) (AppendEntriesResp False 0 read_round)
           else
             let nd = (case splice_entries S base (rn_storage nd) (prev_log_index + 1) es of
                         (st, Some rest) \<Rightarrow> recompute_conf S (nd\<lparr>rn_storage := st_append S st rest\<rparr>)
                       | (st, None) \<Rightarrow> nd\<lparr>rn_storage := st\<rparr>);
                 nd = (if leader_commit > rn_commit_index nd
                       then nd\<lparr>rn_commit_index := min leader_commit last_new_index\<rparr> else nd)
             in send nd from (rn_current_term nd) (AppendEntriesResp True last_new_index read_round))"

text \<open>A peer's progress after a successful answer.\<close>

definition record_match :: "'s raft_node \<Rightarrow> node_id \<Rightarrow> nat \<Rightarrow> 's raft_node" where
  "record_match nd from match_index =
     (let m = max match_index (or_zero (rn_match_index nd from))
      in nd\<lparr>rn_match_index := (rn_match_index nd)(from := Some m),
            rn_next_index := (rn_next_index nd)(from := Some (m + 1))\<rparr>)"

definition handle_append_resp :: "'s storage \<Rightarrow> 's raft_node \<Rightarrow> node_id \<Rightarrow> nat \<Rightarrow> bool \<Rightarrow> nat \<Rightarrow> nat \<Rightarrow> 's raft_node" where
  "handle_append_resp S nd from term success match_index read_round =
     (if rn_role nd \<noteq> Leader \<or> term \<noteq> rn_current_term nd then nd
      else
        let nd = nd\<lparr>rn_recent_active := insert from (rn_recent_active nd),
                    rn_acked_round := (rn_acked_round nd)(from := Some (max (or_zero (rn_acked_round nd from)) read_round))\<rparr>;
            nd = (if success
                  then
                    let m = max match_index (or_zero (rn_match_index nd from));
                        nd = maybe_advance_commit S (record_match nd from match_index)
                    in if rn_transfer_target nd = Some from \<and> m \<ge> st_last_index S (rn_storage nd)
                       then fire_timeout_now nd from else nd
                  else
                    let nxt = (case rn_next_index nd from of Some n \<Rightarrow> n | None \<Rightarrow> 1)
                    in send_append S (nd\<lparr>rn_next_index := (rn_next_index nd)(from := Some (max (nxt - 1) 1))\<rparr>) from)
        in advance_reads S nd)"

definition handle_install_snapshot :: "'s storage \<Rightarrow> 's raft_node \<Rightarrow> node_id \<Rightarrow> nat \<Rightarrow> snapshot \<Rightarrow> 's raft_node" where
  "handle_install_snapshot S nd from term sn =
     (if term < rn_current_term nd then send nd from (rn_current_term nd) (InstallSnapshotResp 0)
      else
        let nd = reset_election_timer (nd\<lparr>rn_role := Follower, rn_leader_id := Some from\<rparr>)
        in if sn_last_included_index sn \<le> rn_commit_index nd
           then send nd from (rn_current_term nd) (InstallSnapshotResp (rn_commit_index nd))
           else
             let nd = recompute_conf S (nd\<lparr>rn_storage := st_apply_snapshot S (rn_storage nd) sn,
                        rn_commit_index := sn_last_included_index sn, rn_last_applied := sn_last_included_index sn,
                        rn_pending_snapshot := Some (sn_last_included_index sn, sn_data sn)\<rparr>)
             in send nd from (rn_current_term nd) (InstallSnapshotResp (sn_last_included_index sn)))"

definition handle_install_snapshot_resp :: "'s storage \<Rightarrow> 's raft_node \<Rightarrow> node_id \<Rightarrow> nat \<Rightarrow> nat \<Rightarrow> 's raft_node" where
  "handle_install_snapshot_resp S nd from term match_index =
     (if rn_role nd \<noteq> Leader \<or> term \<noteq> rn_current_term nd then nd
      else maybe_advance_commit S
        (record_match (nd\<lparr>rn_recent_active := insert from (rn_recent_active nd)\<rparr>) from match_index))"

definition step :: "'s storage \<Rightarrow> 's raft_node \<Rightarrow> message \<Rightarrow> 's raft_node" where
  "step S nd msg =
     (let from = msg_from msg;
          term = msg_term msg;
          nd = (if term > rn_current_term nd
                then become_follower S nd term (case msg_body msg of
                       AppendEntries _ _ _ _ _ \<Rightarrow> Some from
                     | InstallSnapshot _ _ _ _ _ \<Rightarrow> Some from
                     | _ \<Rightarrow> None)
                else nd)
      in case msg_body msg of
           RequestVote li lt \<Rightarrow> handle_request_vote S nd from term li lt
         | RequestVoteResp granted \<Rightarrow> handle_request_vote_resp S nd from term granted
         | AppendEntries pl pt es lc rr \<Rightarrow> handle_append_entries S nd from term pl pt es lc rr
         | AppendEntriesResp ok mi rr \<Rightarrow> handle_append_resp S nd from term ok mi rr
         | InstallSnapshot li lt vs ls d \<Rightarrow> handle_install_snapshot S nd from term
             \<lparr>sn_last_included_index = li, sn_last_included_term = lt, sn_conf_state = vs, sn_learners = ls, sn_data = d\<rparr>
         | InstallSnapshotResp mi \<Rightarrow> handle_install_snapshot_resp S nd from term mi
         | TimeoutNow \<Rightarrow> handle_timeout_now S nd term)"

section \<open>Driver outputs\<close>

definition take_messages :: "'s raft_node \<Rightarrow> 's raft_node \<times> message list" where
  "take_messages nd = (nd\<lparr>rn_messages := []\<rparr>, rn_messages nd)"

definition take_committed :: "'s storage \<Rightarrow> 's raft_node \<Rightarrow> 's raft_node \<times> entry list" where
  "take_committed S nd =
     (if rn_commit_index nd \<le> rn_last_applied nd then (nd, [])
      else (nd\<lparr>rn_last_applied := rn_commit_index nd\<rparr>,
            st_entries S (rn_storage nd) (rn_last_applied nd + 1) (rn_commit_index nd)))"

definition take_snapshot :: "'s raft_node \<Rightarrow> 's raft_node \<times> (nat \<times> bytes) option" where
  "take_snapshot nd = (nd\<lparr>rn_pending_snapshot := None\<rparr>, rn_pending_snapshot nd)"

text \<open>\<open>None\<close> is the panic of \<open>expect\<close>.\<close>

definition node_compact :: "'s storage \<Rightarrow> 's raft_node \<Rightarrow> nat \<Rightarrow> bytes \<Rightarrow> 's raft_node option" where
  "node_compact S nd idx data =
     (if idx \<le> (case st_snapshot S (rn_storage nd) of Some s \<Rightarrow> sn_last_included_index s | None \<Rightarrow> 0) \<or>
         idx > rn_last_applied nd
      then Some nd
      else case st_term S (rn_storage nd) idx of
             None \<Rightarrow> None
           | Some term \<Rightarrow>
               (case conf_at S nd idx of (conf, learners) \<Rightarrow>
                  Some (nd\<lparr>rn_storage := st_compact S (rn_storage nd) idx term conf learners data\<rparr>)))"

definition has_ready :: "'s raft_node \<Rightarrow> bool" where
  "has_ready nd \<longleftrightarrow> rn_messages nd \<noteq> [] \<or> rn_commit_index nd > rn_last_applied nd \<or> rn_pending_snapshot nd \<noteq> None"

section \<open>What each method leaves alone\<close>

lemma send_frame [simp]:
  "rn_id (send nd i t b) = rn_id nd" "rn_voters (send nd i t b) = rn_voters nd"
  "rn_learners (send nd i t b) = rn_learners nd" "rn_bootstrap_conf (send nd i t b) = rn_bootstrap_conf nd"
  "rn_storage (send nd i t b) = rn_storage nd" "rn_role (send nd i t b) = rn_role nd"
  "rn_current_term (send nd i t b) = rn_current_term nd" "rn_voted_for (send nd i t b) = rn_voted_for nd"
  "rn_commit_index (send nd i t b) = rn_commit_index nd"
  "rn_last_applied (send nd i t b) = rn_last_applied nd" "rn_leader_id (send nd i t b) = rn_leader_id nd"
  "rn_votes (send nd i t b) = rn_votes nd" "rn_next_index (send nd i t b) = rn_next_index nd"
  "rn_match_index (send nd i t b) = rn_match_index nd"
  "rn_election_elapsed (send nd i t b) = rn_election_elapsed nd"
  "rn_heartbeat_elapsed (send nd i t b) = rn_heartbeat_elapsed nd"
  "rn_randomized_election_timeout (send nd i t b) = rn_randomized_election_timeout nd"
  "rn_election_timeout (send nd i t b) = rn_election_timeout nd"
  "rn_heartbeat_timeout (send nd i t b) = rn_heartbeat_timeout nd" "rn_rng (send nd i t b) = rn_rng nd"
  "rn_transfer_target (send nd i t b) = rn_transfer_target nd"
  "rn_transfer_elapsed (send nd i t b) = rn_transfer_elapsed nd"
  "rn_check_quorum (send nd i t b) = rn_check_quorum nd"
  "rn_recent_active (send nd i t b) = rn_recent_active nd"
  "rn_quorum_elapsed (send nd i t b) = rn_quorum_elapsed nd"
  "rn_read_round (send nd i t b) = rn_read_round nd" "rn_acked_round (send nd i t b) = rn_acked_round nd"
  "rn_pending_reads (send nd i t b) = rn_pending_reads nd"
  "rn_ready_reads (send nd i t b) = rn_ready_reads nd"
  "rn_pending_snapshot (send nd i t b) = rn_pending_snapshot nd"
  by (simp_all add: send_def)

lemma persist_frame [simp]:
  "rn_id (persist_hard_state S nd) = rn_id nd" "rn_voters (persist_hard_state S nd) = rn_voters nd"
  "rn_learners (persist_hard_state S nd) = rn_learners nd"
  "rn_bootstrap_conf (persist_hard_state S nd) = rn_bootstrap_conf nd"
  "rn_role (persist_hard_state S nd) = rn_role nd"
  "rn_current_term (persist_hard_state S nd) = rn_current_term nd"
  "rn_voted_for (persist_hard_state S nd) = rn_voted_for nd"
  "rn_commit_index (persist_hard_state S nd) = rn_commit_index nd"
  "rn_last_applied (persist_hard_state S nd) = rn_last_applied nd"
  "rn_leader_id (persist_hard_state S nd) = rn_leader_id nd"
  "rn_votes (persist_hard_state S nd) = rn_votes nd"
  "rn_next_index (persist_hard_state S nd) = rn_next_index nd"
  "rn_match_index (persist_hard_state S nd) = rn_match_index nd"
  "rn_election_elapsed (persist_hard_state S nd) = rn_election_elapsed nd"
  "rn_heartbeat_elapsed (persist_hard_state S nd) = rn_heartbeat_elapsed nd"
  "rn_randomized_election_timeout (persist_hard_state S nd) = rn_randomized_election_timeout nd"
  "rn_election_timeout (persist_hard_state S nd) = rn_election_timeout nd"
  "rn_heartbeat_timeout (persist_hard_state S nd) = rn_heartbeat_timeout nd"
  "rn_rng (persist_hard_state S nd) = rn_rng nd"
  "rn_transfer_target (persist_hard_state S nd) = rn_transfer_target nd"
  "rn_transfer_elapsed (persist_hard_state S nd) = rn_transfer_elapsed nd"
  "rn_check_quorum (persist_hard_state S nd) = rn_check_quorum nd"
  "rn_recent_active (persist_hard_state S nd) = rn_recent_active nd"
  "rn_quorum_elapsed (persist_hard_state S nd) = rn_quorum_elapsed nd"
  "rn_read_round (persist_hard_state S nd) = rn_read_round nd"
  "rn_acked_round (persist_hard_state S nd) = rn_acked_round nd"
  "rn_pending_reads (persist_hard_state S nd) = rn_pending_reads nd"
  "rn_ready_reads (persist_hard_state S nd) = rn_ready_reads nd"
  "rn_messages (persist_hard_state S nd) = rn_messages nd"
  "rn_pending_snapshot (persist_hard_state S nd) = rn_pending_snapshot nd"
  by (simp_all add: persist_hard_state_def)

lemma reset_frame [simp]:
  "rn_id (reset_election_timer nd) = rn_id nd" "rn_voters (reset_election_timer nd) = rn_voters nd"
  "rn_learners (reset_election_timer nd) = rn_learners nd"
  "rn_bootstrap_conf (reset_election_timer nd) = rn_bootstrap_conf nd"
  "rn_storage (reset_election_timer nd) = rn_storage nd" "rn_role (reset_election_timer nd) = rn_role nd"
  "rn_current_term (reset_election_timer nd) = rn_current_term nd"
  "rn_voted_for (reset_election_timer nd) = rn_voted_for nd"
  "rn_commit_index (reset_election_timer nd) = rn_commit_index nd"
  "rn_last_applied (reset_election_timer nd) = rn_last_applied nd"
  "rn_leader_id (reset_election_timer nd) = rn_leader_id nd"
  "rn_votes (reset_election_timer nd) = rn_votes nd"
  "rn_next_index (reset_election_timer nd) = rn_next_index nd"
  "rn_match_index (reset_election_timer nd) = rn_match_index nd"
  "rn_heartbeat_elapsed (reset_election_timer nd) = rn_heartbeat_elapsed nd"
  "rn_election_timeout (reset_election_timer nd) = rn_election_timeout nd"
  "rn_heartbeat_timeout (reset_election_timer nd) = rn_heartbeat_timeout nd"
  "rn_transfer_target (reset_election_timer nd) = rn_transfer_target nd"
  "rn_transfer_elapsed (reset_election_timer nd) = rn_transfer_elapsed nd"
  "rn_check_quorum (reset_election_timer nd) = rn_check_quorum nd"
  "rn_recent_active (reset_election_timer nd) = rn_recent_active nd"
  "rn_quorum_elapsed (reset_election_timer nd) = rn_quorum_elapsed nd"
  "rn_read_round (reset_election_timer nd) = rn_read_round nd"
  "rn_acked_round (reset_election_timer nd) = rn_acked_round nd"
  "rn_pending_reads (reset_election_timer nd) = rn_pending_reads nd"
  "rn_ready_reads (reset_election_timer nd) = rn_ready_reads nd"
  "rn_messages (reset_election_timer nd) = rn_messages nd"
  "rn_pending_snapshot (reset_election_timer nd) = rn_pending_snapshot nd"
  by (simp_all add: reset_election_timer_def next_rand_def Let_def)

lemma fire_frame [simp]:
  "rn_id (fire_timeout_now nd i) = rn_id nd" "rn_voters (fire_timeout_now nd i) = rn_voters nd"
  "rn_learners (fire_timeout_now nd i) = rn_learners nd"
  "rn_bootstrap_conf (fire_timeout_now nd i) = rn_bootstrap_conf nd"
  "rn_storage (fire_timeout_now nd i) = rn_storage nd" "rn_role (fire_timeout_now nd i) = rn_role nd"
  "rn_current_term (fire_timeout_now nd i) = rn_current_term nd"
  "rn_voted_for (fire_timeout_now nd i) = rn_voted_for nd"
  "rn_commit_index (fire_timeout_now nd i) = rn_commit_index nd"
  "rn_last_applied (fire_timeout_now nd i) = rn_last_applied nd"
  "rn_leader_id (fire_timeout_now nd i) = rn_leader_id nd" "rn_votes (fire_timeout_now nd i) = rn_votes nd"
  "rn_next_index (fire_timeout_now nd i) = rn_next_index nd"
  "rn_match_index (fire_timeout_now nd i) = rn_match_index nd"
  "rn_election_elapsed (fire_timeout_now nd i) = rn_election_elapsed nd"
  "rn_heartbeat_elapsed (fire_timeout_now nd i) = rn_heartbeat_elapsed nd"
  "rn_randomized_election_timeout (fire_timeout_now nd i) = rn_randomized_election_timeout nd"
  "rn_election_timeout (fire_timeout_now nd i) = rn_election_timeout nd"
  "rn_heartbeat_timeout (fire_timeout_now nd i) = rn_heartbeat_timeout nd"
  "rn_rng (fire_timeout_now nd i) = rn_rng nd"
  "rn_check_quorum (fire_timeout_now nd i) = rn_check_quorum nd"
  "rn_recent_active (fire_timeout_now nd i) = rn_recent_active nd"
  "rn_quorum_elapsed (fire_timeout_now nd i) = rn_quorum_elapsed nd"
  "rn_read_round (fire_timeout_now nd i) = rn_read_round nd"
  "rn_acked_round (fire_timeout_now nd i) = rn_acked_round nd"
  "rn_pending_reads (fire_timeout_now nd i) = rn_pending_reads nd"
  "rn_ready_reads (fire_timeout_now nd i) = rn_ready_reads nd"
  "rn_pending_snapshot (fire_timeout_now nd i) = rn_pending_snapshot nd"
  by (simp_all add: fire_timeout_now_def)

lemma record_match_frame [simp]:
  "rn_id (record_match nd i m) = rn_id nd" "rn_voters (record_match nd i m) = rn_voters nd"
  "rn_learners (record_match nd i m) = rn_learners nd"
  "rn_bootstrap_conf (record_match nd i m) = rn_bootstrap_conf nd"
  "rn_storage (record_match nd i m) = rn_storage nd" "rn_role (record_match nd i m) = rn_role nd"
  "rn_current_term (record_match nd i m) = rn_current_term nd"
  "rn_voted_for (record_match nd i m) = rn_voted_for nd"
  "rn_commit_index (record_match nd i m) = rn_commit_index nd"
  "rn_last_applied (record_match nd i m) = rn_last_applied nd"
  "rn_leader_id (record_match nd i m) = rn_leader_id nd" "rn_votes (record_match nd i m) = rn_votes nd"
  "rn_election_elapsed (record_match nd i m) = rn_election_elapsed nd"
  "rn_heartbeat_elapsed (record_match nd i m) = rn_heartbeat_elapsed nd"
  "rn_randomized_election_timeout (record_match nd i m) = rn_randomized_election_timeout nd"
  "rn_election_timeout (record_match nd i m) = rn_election_timeout nd"
  "rn_heartbeat_timeout (record_match nd i m) = rn_heartbeat_timeout nd"
  "rn_rng (record_match nd i m) = rn_rng nd"
  "rn_transfer_target (record_match nd i m) = rn_transfer_target nd"
  "rn_transfer_elapsed (record_match nd i m) = rn_transfer_elapsed nd"
  "rn_check_quorum (record_match nd i m) = rn_check_quorum nd"
  "rn_recent_active (record_match nd i m) = rn_recent_active nd"
  "rn_quorum_elapsed (record_match nd i m) = rn_quorum_elapsed nd"
  "rn_read_round (record_match nd i m) = rn_read_round nd"
  "rn_acked_round (record_match nd i m) = rn_acked_round nd"
  "rn_pending_reads (record_match nd i m) = rn_pending_reads nd"
  "rn_ready_reads (record_match nd i m) = rn_ready_reads nd"
  "rn_messages (record_match nd i m) = rn_messages nd"
  "rn_pending_snapshot (record_match nd i m) = rn_pending_snapshot nd"
  by (simp_all add: record_match_def Let_def)

lemma track_new_frame [simp]:
  "rn_id (track_new nd i) = rn_id nd" "rn_voters (track_new nd i) = rn_voters nd"
  "rn_learners (track_new nd i) = rn_learners nd"
  "rn_bootstrap_conf (track_new nd i) = rn_bootstrap_conf nd" "rn_storage (track_new nd i) = rn_storage nd"
  "rn_role (track_new nd i) = rn_role nd" "rn_current_term (track_new nd i) = rn_current_term nd"
  "rn_voted_for (track_new nd i) = rn_voted_for nd" "rn_commit_index (track_new nd i) = rn_commit_index nd"
  "rn_last_applied (track_new nd i) = rn_last_applied nd" "rn_leader_id (track_new nd i) = rn_leader_id nd"
  "rn_votes (track_new nd i) = rn_votes nd" "rn_election_elapsed (track_new nd i) = rn_election_elapsed nd"
  "rn_heartbeat_elapsed (track_new nd i) = rn_heartbeat_elapsed nd"
  "rn_randomized_election_timeout (track_new nd i) = rn_randomized_election_timeout nd"
  "rn_election_timeout (track_new nd i) = rn_election_timeout nd"
  "rn_heartbeat_timeout (track_new nd i) = rn_heartbeat_timeout nd" "rn_rng (track_new nd i) = rn_rng nd"
  "rn_transfer_target (track_new nd i) = rn_transfer_target nd"
  "rn_transfer_elapsed (track_new nd i) = rn_transfer_elapsed nd"
  "rn_check_quorum (track_new nd i) = rn_check_quorum nd"
  "rn_recent_active (track_new nd i) = rn_recent_active nd"
  "rn_quorum_elapsed (track_new nd i) = rn_quorum_elapsed nd"
  "rn_read_round (track_new nd i) = rn_read_round nd" "rn_acked_round (track_new nd i) = rn_acked_round nd"
  "rn_pending_reads (track_new nd i) = rn_pending_reads nd"
  "rn_ready_reads (track_new nd i) = rn_ready_reads nd" "rn_messages (track_new nd i) = rn_messages nd"
  "rn_pending_snapshot (track_new nd i) = rn_pending_snapshot nd"
  by (simp_all add: track_new_def)

lemma leader_append_frame [simp]:
  "rn_id (leader_append S nd e) = rn_id nd" "rn_voters (leader_append S nd e) = rn_voters nd"
  "rn_learners (leader_append S nd e) = rn_learners nd"
  "rn_bootstrap_conf (leader_append S nd e) = rn_bootstrap_conf nd"
  "rn_role (leader_append S nd e) = rn_role nd"
  "rn_current_term (leader_append S nd e) = rn_current_term nd"
  "rn_voted_for (leader_append S nd e) = rn_voted_for nd"
  "rn_commit_index (leader_append S nd e) = rn_commit_index nd"
  "rn_last_applied (leader_append S nd e) = rn_last_applied nd"
  "rn_leader_id (leader_append S nd e) = rn_leader_id nd" "rn_votes (leader_append S nd e) = rn_votes nd"
  "rn_election_elapsed (leader_append S nd e) = rn_election_elapsed nd"
  "rn_heartbeat_elapsed (leader_append S nd e) = rn_heartbeat_elapsed nd"
  "rn_randomized_election_timeout (leader_append S nd e) = rn_randomized_election_timeout nd"
  "rn_election_timeout (leader_append S nd e) = rn_election_timeout nd"
  "rn_heartbeat_timeout (leader_append S nd e) = rn_heartbeat_timeout nd"
  "rn_rng (leader_append S nd e) = rn_rng nd"
  "rn_transfer_target (leader_append S nd e) = rn_transfer_target nd"
  "rn_transfer_elapsed (leader_append S nd e) = rn_transfer_elapsed nd"
  "rn_check_quorum (leader_append S nd e) = rn_check_quorum nd"
  "rn_recent_active (leader_append S nd e) = rn_recent_active nd"
  "rn_quorum_elapsed (leader_append S nd e) = rn_quorum_elapsed nd"
  "rn_read_round (leader_append S nd e) = rn_read_round nd"
  "rn_acked_round (leader_append S nd e) = rn_acked_round nd"
  "rn_pending_reads (leader_append S nd e) = rn_pending_reads nd"
  "rn_ready_reads (leader_append S nd e) = rn_ready_reads nd"
  "rn_messages (leader_append S nd e) = rn_messages nd"
  "rn_pending_snapshot (leader_append S nd e) = rn_pending_snapshot nd"
  by (simp_all add: leader_append_def)

lemma become_follower_frame [simp]:
  "rn_id (become_follower S nd t l) = rn_id nd" "rn_voters (become_follower S nd t l) = rn_voters nd"
  "rn_learners (become_follower S nd t l) = rn_learners nd"
  "rn_bootstrap_conf (become_follower S nd t l) = rn_bootstrap_conf nd"
  "rn_commit_index (become_follower S nd t l) = rn_commit_index nd"
  "rn_last_applied (become_follower S nd t l) = rn_last_applied nd"
  "rn_votes (become_follower S nd t l) = rn_votes nd"
  "rn_next_index (become_follower S nd t l) = rn_next_index nd"
  "rn_match_index (become_follower S nd t l) = rn_match_index nd"
  "rn_heartbeat_elapsed (become_follower S nd t l) = rn_heartbeat_elapsed nd"
  "rn_election_timeout (become_follower S nd t l) = rn_election_timeout nd"
  "rn_heartbeat_timeout (become_follower S nd t l) = rn_heartbeat_timeout nd"
  "rn_check_quorum (become_follower S nd t l) = rn_check_quorum nd"
  "rn_recent_active (become_follower S nd t l) = rn_recent_active nd"
  "rn_quorum_elapsed (become_follower S nd t l) = rn_quorum_elapsed nd"
  "rn_read_round (become_follower S nd t l) = rn_read_round nd"
  "rn_acked_round (become_follower S nd t l) = rn_acked_round nd"
  "rn_messages (become_follower S nd t l) = rn_messages nd"
  "rn_pending_snapshot (become_follower S nd t l) = rn_pending_snapshot nd"
  by (simp_all add: become_follower_def Let_def)

lemma become_follower_same [simp]:
  "t \<le> rn_current_term nd \<Longrightarrow> rn_storage (become_follower S nd t l) = rn_storage nd"
  "t \<le> rn_current_term nd \<Longrightarrow> rn_current_term (become_follower S nd t l) = rn_current_term nd"
  "t \<le> rn_current_term nd \<Longrightarrow> rn_voted_for (become_follower S nd t l) = rn_voted_for nd"
  "rn_role (become_follower S nd t l) = Follower" "rn_leader_id (become_follower S nd t l) = l"
  by (simp_all add: become_follower_def Let_def)

lemma recompute_frame [simp]:
  "rn_id (recompute_conf S nd) = rn_id nd" "rn_bootstrap_conf (recompute_conf S nd) = rn_bootstrap_conf nd"
  "rn_commit_index (recompute_conf S nd) = rn_commit_index nd"
  "rn_last_applied (recompute_conf S nd) = rn_last_applied nd"
  "rn_votes (recompute_conf S nd) = rn_votes nd" "rn_next_index (recompute_conf S nd) = rn_next_index nd"
  "rn_match_index (recompute_conf S nd) = rn_match_index nd"
  "rn_heartbeat_elapsed (recompute_conf S nd) = rn_heartbeat_elapsed nd"
  "rn_election_timeout (recompute_conf S nd) = rn_election_timeout nd"
  "rn_heartbeat_timeout (recompute_conf S nd) = rn_heartbeat_timeout nd"
  "rn_check_quorum (recompute_conf S nd) = rn_check_quorum nd"
  "rn_recent_active (recompute_conf S nd) = rn_recent_active nd"
  "rn_quorum_elapsed (recompute_conf S nd) = rn_quorum_elapsed nd"
  "rn_read_round (recompute_conf S nd) = rn_read_round nd"
  "rn_acked_round (recompute_conf S nd) = rn_acked_round nd"
  "rn_messages (recompute_conf S nd) = rn_messages nd"
  "rn_pending_snapshot (recompute_conf S nd) = rn_pending_snapshot nd"
  by (simp_all add: recompute_conf_def Let_def split: prod.split option.split)

lemma recompute_persistent [simp]:
  "rn_storage (recompute_conf S nd) = rn_storage nd" "rn_current_term (recompute_conf S nd) = rn_current_term nd"
  "rn_voted_for (recompute_conf S nd) = rn_voted_for nd"
  by (simp_all add: recompute_conf_def become_follower_def Let_def split: prod.split option.split)

lemma send_snapshot_frame [simp]:
  "rn_id (send_snapshot S nd i) = rn_id nd" "rn_voters (send_snapshot S nd i) = rn_voters nd"
  "rn_learners (send_snapshot S nd i) = rn_learners nd"
  "rn_bootstrap_conf (send_snapshot S nd i) = rn_bootstrap_conf nd"
  "rn_storage (send_snapshot S nd i) = rn_storage nd" "rn_role (send_snapshot S nd i) = rn_role nd"
  "rn_current_term (send_snapshot S nd i) = rn_current_term nd"
  "rn_voted_for (send_snapshot S nd i) = rn_voted_for nd"
  "rn_commit_index (send_snapshot S nd i) = rn_commit_index nd"
  "rn_last_applied (send_snapshot S nd i) = rn_last_applied nd"
  "rn_leader_id (send_snapshot S nd i) = rn_leader_id nd" "rn_votes (send_snapshot S nd i) = rn_votes nd"
  "rn_next_index (send_snapshot S nd i) = rn_next_index nd"
  "rn_match_index (send_snapshot S nd i) = rn_match_index nd"
  "rn_election_elapsed (send_snapshot S nd i) = rn_election_elapsed nd"
  "rn_heartbeat_elapsed (send_snapshot S nd i) = rn_heartbeat_elapsed nd"
  "rn_randomized_election_timeout (send_snapshot S nd i) = rn_randomized_election_timeout nd"
  "rn_election_timeout (send_snapshot S nd i) = rn_election_timeout nd"
  "rn_heartbeat_timeout (send_snapshot S nd i) = rn_heartbeat_timeout nd"
  "rn_rng (send_snapshot S nd i) = rn_rng nd"
  "rn_transfer_target (send_snapshot S nd i) = rn_transfer_target nd"
  "rn_transfer_elapsed (send_snapshot S nd i) = rn_transfer_elapsed nd"
  "rn_check_quorum (send_snapshot S nd i) = rn_check_quorum nd"
  "rn_recent_active (send_snapshot S nd i) = rn_recent_active nd"
  "rn_quorum_elapsed (send_snapshot S nd i) = rn_quorum_elapsed nd"
  "rn_read_round (send_snapshot S nd i) = rn_read_round nd"
  "rn_acked_round (send_snapshot S nd i) = rn_acked_round nd"
  "rn_pending_reads (send_snapshot S nd i) = rn_pending_reads nd"
  "rn_ready_reads (send_snapshot S nd i) = rn_ready_reads nd"
  "rn_pending_snapshot (send_snapshot S nd i) = rn_pending_snapshot nd"
  by (simp_all add: send_snapshot_def split: option.split)

lemma send_append_frame [simp]:
  "rn_id (send_append S nd i) = rn_id nd" "rn_voters (send_append S nd i) = rn_voters nd"
  "rn_learners (send_append S nd i) = rn_learners nd"
  "rn_bootstrap_conf (send_append S nd i) = rn_bootstrap_conf nd"
  "rn_storage (send_append S nd i) = rn_storage nd" "rn_role (send_append S nd i) = rn_role nd"
  "rn_current_term (send_append S nd i) = rn_current_term nd"
  "rn_voted_for (send_append S nd i) = rn_voted_for nd"
  "rn_commit_index (send_append S nd i) = rn_commit_index nd"
  "rn_last_applied (send_append S nd i) = rn_last_applied nd"
  "rn_leader_id (send_append S nd i) = rn_leader_id nd" "rn_votes (send_append S nd i) = rn_votes nd"
  "rn_next_index (send_append S nd i) = rn_next_index nd"
  "rn_match_index (send_append S nd i) = rn_match_index nd"
  "rn_election_elapsed (send_append S nd i) = rn_election_elapsed nd"
  "rn_heartbeat_elapsed (send_append S nd i) = rn_heartbeat_elapsed nd"
  "rn_randomized_election_timeout (send_append S nd i) = rn_randomized_election_timeout nd"
  "rn_election_timeout (send_append S nd i) = rn_election_timeout nd"
  "rn_heartbeat_timeout (send_append S nd i) = rn_heartbeat_timeout nd"
  "rn_rng (send_append S nd i) = rn_rng nd"
  "rn_transfer_target (send_append S nd i) = rn_transfer_target nd"
  "rn_transfer_elapsed (send_append S nd i) = rn_transfer_elapsed nd"
  "rn_check_quorum (send_append S nd i) = rn_check_quorum nd"
  "rn_recent_active (send_append S nd i) = rn_recent_active nd"
  "rn_quorum_elapsed (send_append S nd i) = rn_quorum_elapsed nd"
  "rn_read_round (send_append S nd i) = rn_read_round nd"
  "rn_acked_round (send_append S nd i) = rn_acked_round nd"
  "rn_pending_reads (send_append S nd i) = rn_pending_reads nd"
  "rn_ready_reads (send_append S nd i) = rn_ready_reads nd"
  "rn_pending_snapshot (send_append S nd i) = rn_pending_snapshot nd"
  by (simp_all add: send_append_def Let_def)

lemma fold_send_append_frame [simp]:
  "rn_id (fold (\<lambda>p nd. send_append S nd p) ps nd) = rn_id nd"
  "rn_voters (fold (\<lambda>p nd. send_append S nd p) ps nd) = rn_voters nd"
  "rn_learners (fold (\<lambda>p nd. send_append S nd p) ps nd) = rn_learners nd"
  "rn_bootstrap_conf (fold (\<lambda>p nd. send_append S nd p) ps nd) = rn_bootstrap_conf nd"
  "rn_storage (fold (\<lambda>p nd. send_append S nd p) ps nd) = rn_storage nd"
  "rn_role (fold (\<lambda>p nd. send_append S nd p) ps nd) = rn_role nd"
  "rn_current_term (fold (\<lambda>p nd. send_append S nd p) ps nd) = rn_current_term nd"
  "rn_voted_for (fold (\<lambda>p nd. send_append S nd p) ps nd) = rn_voted_for nd"
  "rn_commit_index (fold (\<lambda>p nd. send_append S nd p) ps nd) = rn_commit_index nd"
  "rn_last_applied (fold (\<lambda>p nd. send_append S nd p) ps nd) = rn_last_applied nd"
  "rn_leader_id (fold (\<lambda>p nd. send_append S nd p) ps nd) = rn_leader_id nd"
  "rn_votes (fold (\<lambda>p nd. send_append S nd p) ps nd) = rn_votes nd"
  "rn_next_index (fold (\<lambda>p nd. send_append S nd p) ps nd) = rn_next_index nd"
  "rn_match_index (fold (\<lambda>p nd. send_append S nd p) ps nd) = rn_match_index nd"
  "rn_election_elapsed (fold (\<lambda>p nd. send_append S nd p) ps nd) = rn_election_elapsed nd"
  "rn_heartbeat_elapsed (fold (\<lambda>p nd. send_append S nd p) ps nd) = rn_heartbeat_elapsed nd"
  "rn_randomized_election_timeout (fold (\<lambda>p nd. send_append S nd p) ps nd) = rn_randomized_election_timeout nd"
  "rn_election_timeout (fold (\<lambda>p nd. send_append S nd p) ps nd) = rn_election_timeout nd"
  "rn_heartbeat_timeout (fold (\<lambda>p nd. send_append S nd p) ps nd) = rn_heartbeat_timeout nd"
  "rn_rng (fold (\<lambda>p nd. send_append S nd p) ps nd) = rn_rng nd"
  "rn_transfer_target (fold (\<lambda>p nd. send_append S nd p) ps nd) = rn_transfer_target nd"
  "rn_transfer_elapsed (fold (\<lambda>p nd. send_append S nd p) ps nd) = rn_transfer_elapsed nd"
  "rn_check_quorum (fold (\<lambda>p nd. send_append S nd p) ps nd) = rn_check_quorum nd"
  "rn_recent_active (fold (\<lambda>p nd. send_append S nd p) ps nd) = rn_recent_active nd"
  "rn_quorum_elapsed (fold (\<lambda>p nd. send_append S nd p) ps nd) = rn_quorum_elapsed nd"
  "rn_read_round (fold (\<lambda>p nd. send_append S nd p) ps nd) = rn_read_round nd"
  "rn_acked_round (fold (\<lambda>p nd. send_append S nd p) ps nd) = rn_acked_round nd"
  "rn_pending_reads (fold (\<lambda>p nd. send_append S nd p) ps nd) = rn_pending_reads nd"
  "rn_ready_reads (fold (\<lambda>p nd. send_append S nd p) ps nd) = rn_ready_reads nd"
  "rn_pending_snapshot (fold (\<lambda>p nd. send_append S nd p) ps nd) = rn_pending_snapshot nd"
  by (induction ps arbitrary: nd; simp)+

lemma broadcast_frame [simp]:
  "rn_id (broadcast_append S nd) = rn_id nd" "rn_voters (broadcast_append S nd) = rn_voters nd"
  "rn_learners (broadcast_append S nd) = rn_learners nd"
  "rn_bootstrap_conf (broadcast_append S nd) = rn_bootstrap_conf nd"
  "rn_storage (broadcast_append S nd) = rn_storage nd" "rn_role (broadcast_append S nd) = rn_role nd"
  "rn_current_term (broadcast_append S nd) = rn_current_term nd"
  "rn_voted_for (broadcast_append S nd) = rn_voted_for nd"
  "rn_commit_index (broadcast_append S nd) = rn_commit_index nd"
  "rn_last_applied (broadcast_append S nd) = rn_last_applied nd"
  "rn_leader_id (broadcast_append S nd) = rn_leader_id nd" "rn_votes (broadcast_append S nd) = rn_votes nd"
  "rn_next_index (broadcast_append S nd) = rn_next_index nd"
  "rn_match_index (broadcast_append S nd) = rn_match_index nd"
  "rn_election_elapsed (broadcast_append S nd) = rn_election_elapsed nd"
  "rn_heartbeat_elapsed (broadcast_append S nd) = rn_heartbeat_elapsed nd"
  "rn_randomized_election_timeout (broadcast_append S nd) = rn_randomized_election_timeout nd"
  "rn_election_timeout (broadcast_append S nd) = rn_election_timeout nd"
  "rn_heartbeat_timeout (broadcast_append S nd) = rn_heartbeat_timeout nd"
  "rn_rng (broadcast_append S nd) = rn_rng nd"
  "rn_transfer_target (broadcast_append S nd) = rn_transfer_target nd"
  "rn_transfer_elapsed (broadcast_append S nd) = rn_transfer_elapsed nd"
  "rn_check_quorum (broadcast_append S nd) = rn_check_quorum nd"
  "rn_recent_active (broadcast_append S nd) = rn_recent_active nd"
  "rn_quorum_elapsed (broadcast_append S nd) = rn_quorum_elapsed nd"
  "rn_read_round (broadcast_append S nd) = rn_read_round nd"
  "rn_acked_round (broadcast_append S nd) = rn_acked_round nd"
  "rn_pending_reads (broadcast_append S nd) = rn_pending_reads nd"
  "rn_ready_reads (broadcast_append S nd) = rn_ready_reads nd"
  "rn_pending_snapshot (broadcast_append S nd) = rn_pending_snapshot nd"
  by (simp_all add: broadcast_append_def)

lemma fold_send_frame [simp]:
  "rn_id (fold (\<lambda>p nd. send nd p (t nd) (b nd)) ps nd) = rn_id nd"
  "rn_voters (fold (\<lambda>p nd. send nd p (t nd) (b nd)) ps nd) = rn_voters nd"
  "rn_learners (fold (\<lambda>p nd. send nd p (t nd) (b nd)) ps nd) = rn_learners nd"
  "rn_bootstrap_conf (fold (\<lambda>p nd. send nd p (t nd) (b nd)) ps nd) = rn_bootstrap_conf nd"
  "rn_storage (fold (\<lambda>p nd. send nd p (t nd) (b nd)) ps nd) = rn_storage nd"
  "rn_role (fold (\<lambda>p nd. send nd p (t nd) (b nd)) ps nd) = rn_role nd"
  "rn_current_term (fold (\<lambda>p nd. send nd p (t nd) (b nd)) ps nd) = rn_current_term nd"
  "rn_voted_for (fold (\<lambda>p nd. send nd p (t nd) (b nd)) ps nd) = rn_voted_for nd"
  "rn_commit_index (fold (\<lambda>p nd. send nd p (t nd) (b nd)) ps nd) = rn_commit_index nd"
  "rn_last_applied (fold (\<lambda>p nd. send nd p (t nd) (b nd)) ps nd) = rn_last_applied nd"
  "rn_leader_id (fold (\<lambda>p nd. send nd p (t nd) (b nd)) ps nd) = rn_leader_id nd"
  "rn_votes (fold (\<lambda>p nd. send nd p (t nd) (b nd)) ps nd) = rn_votes nd"
  "rn_next_index (fold (\<lambda>p nd. send nd p (t nd) (b nd)) ps nd) = rn_next_index nd"
  "rn_match_index (fold (\<lambda>p nd. send nd p (t nd) (b nd)) ps nd) = rn_match_index nd"
  "rn_election_elapsed (fold (\<lambda>p nd. send nd p (t nd) (b nd)) ps nd) = rn_election_elapsed nd"
  "rn_heartbeat_elapsed (fold (\<lambda>p nd. send nd p (t nd) (b nd)) ps nd) = rn_heartbeat_elapsed nd"
  "rn_randomized_election_timeout (fold (\<lambda>p nd. send nd p (t nd) (b nd)) ps nd) = rn_randomized_election_timeout nd"
  "rn_election_timeout (fold (\<lambda>p nd. send nd p (t nd) (b nd)) ps nd) = rn_election_timeout nd"
  "rn_heartbeat_timeout (fold (\<lambda>p nd. send nd p (t nd) (b nd)) ps nd) = rn_heartbeat_timeout nd"
  "rn_rng (fold (\<lambda>p nd. send nd p (t nd) (b nd)) ps nd) = rn_rng nd"
  "rn_transfer_target (fold (\<lambda>p nd. send nd p (t nd) (b nd)) ps nd) = rn_transfer_target nd"
  "rn_transfer_elapsed (fold (\<lambda>p nd. send nd p (t nd) (b nd)) ps nd) = rn_transfer_elapsed nd"
  "rn_check_quorum (fold (\<lambda>p nd. send nd p (t nd) (b nd)) ps nd) = rn_check_quorum nd"
  "rn_recent_active (fold (\<lambda>p nd. send nd p (t nd) (b nd)) ps nd) = rn_recent_active nd"
  "rn_quorum_elapsed (fold (\<lambda>p nd. send nd p (t nd) (b nd)) ps nd) = rn_quorum_elapsed nd"
  "rn_read_round (fold (\<lambda>p nd. send nd p (t nd) (b nd)) ps nd) = rn_read_round nd"
  "rn_acked_round (fold (\<lambda>p nd. send nd p (t nd) (b nd)) ps nd) = rn_acked_round nd"
  "rn_pending_reads (fold (\<lambda>p nd. send nd p (t nd) (b nd)) ps nd) = rn_pending_reads nd"
  "rn_ready_reads (fold (\<lambda>p nd. send nd p (t nd) (b nd)) ps nd) = rn_ready_reads nd"
  "rn_pending_snapshot (fold (\<lambda>p nd. send nd p (t nd) (b nd)) ps nd) = rn_pending_snapshot nd"
  by (induction ps arbitrary: nd; simp)+

lemma advance_reads_frame [simp]:
  "rn_id (advance_reads S nd) = rn_id nd" "rn_voters (advance_reads S nd) = rn_voters nd"
  "rn_learners (advance_reads S nd) = rn_learners nd"
  "rn_bootstrap_conf (advance_reads S nd) = rn_bootstrap_conf nd"
  "rn_storage (advance_reads S nd) = rn_storage nd" "rn_role (advance_reads S nd) = rn_role nd"
  "rn_current_term (advance_reads S nd) = rn_current_term nd"
  "rn_voted_for (advance_reads S nd) = rn_voted_for nd"
  "rn_commit_index (advance_reads S nd) = rn_commit_index nd"
  "rn_last_applied (advance_reads S nd) = rn_last_applied nd"
  "rn_leader_id (advance_reads S nd) = rn_leader_id nd" "rn_votes (advance_reads S nd) = rn_votes nd"
  "rn_next_index (advance_reads S nd) = rn_next_index nd"
  "rn_match_index (advance_reads S nd) = rn_match_index nd"
  "rn_election_elapsed (advance_reads S nd) = rn_election_elapsed nd"
  "rn_heartbeat_elapsed (advance_reads S nd) = rn_heartbeat_elapsed nd"
  "rn_randomized_election_timeout (advance_reads S nd) = rn_randomized_election_timeout nd"
  "rn_election_timeout (advance_reads S nd) = rn_election_timeout nd"
  "rn_heartbeat_timeout (advance_reads S nd) = rn_heartbeat_timeout nd"
  "rn_rng (advance_reads S nd) = rn_rng nd"
  "rn_transfer_target (advance_reads S nd) = rn_transfer_target nd"
  "rn_transfer_elapsed (advance_reads S nd) = rn_transfer_elapsed nd"
  "rn_check_quorum (advance_reads S nd) = rn_check_quorum nd"
  "rn_recent_active (advance_reads S nd) = rn_recent_active nd"
  "rn_quorum_elapsed (advance_reads S nd) = rn_quorum_elapsed nd"
  "rn_read_round (advance_reads S nd) = rn_read_round nd"
  "rn_acked_round (advance_reads S nd) = rn_acked_round nd"
  "rn_messages (advance_reads S nd) = rn_messages nd"
  "rn_pending_snapshot (advance_reads S nd) = rn_pending_snapshot nd"
  by (simp_all add: advance_reads_def Let_def)

lemma commit_loop_frame [simp]:
  "rn_id (commit_loop S nd n) = rn_id nd" "rn_voters (commit_loop S nd n) = rn_voters nd"
  "rn_learners (commit_loop S nd n) = rn_learners nd"
  "rn_bootstrap_conf (commit_loop S nd n) = rn_bootstrap_conf nd"
  "rn_storage (commit_loop S nd n) = rn_storage nd" "rn_role (commit_loop S nd n) = rn_role nd"
  "rn_current_term (commit_loop S nd n) = rn_current_term nd"
  "rn_voted_for (commit_loop S nd n) = rn_voted_for nd"
  "rn_last_applied (commit_loop S nd n) = rn_last_applied nd"
  "rn_leader_id (commit_loop S nd n) = rn_leader_id nd" "rn_votes (commit_loop S nd n) = rn_votes nd"
  "rn_next_index (commit_loop S nd n) = rn_next_index nd"
  "rn_match_index (commit_loop S nd n) = rn_match_index nd"
  "rn_election_elapsed (commit_loop S nd n) = rn_election_elapsed nd"
  "rn_heartbeat_elapsed (commit_loop S nd n) = rn_heartbeat_elapsed nd"
  "rn_randomized_election_timeout (commit_loop S nd n) = rn_randomized_election_timeout nd"
  "rn_election_timeout (commit_loop S nd n) = rn_election_timeout nd"
  "rn_heartbeat_timeout (commit_loop S nd n) = rn_heartbeat_timeout nd"
  "rn_rng (commit_loop S nd n) = rn_rng nd"
  "rn_transfer_target (commit_loop S nd n) = rn_transfer_target nd"
  "rn_transfer_elapsed (commit_loop S nd n) = rn_transfer_elapsed nd"
  "rn_check_quorum (commit_loop S nd n) = rn_check_quorum nd"
  "rn_recent_active (commit_loop S nd n) = rn_recent_active nd"
  "rn_quorum_elapsed (commit_loop S nd n) = rn_quorum_elapsed nd"
  "rn_read_round (commit_loop S nd n) = rn_read_round nd"
  "rn_acked_round (commit_loop S nd n) = rn_acked_round nd"
  "rn_messages (commit_loop S nd n) = rn_messages nd"
  "rn_pending_snapshot (commit_loop S nd n) = rn_pending_snapshot nd"
  by (induction S nd n rule: commit_loop.induct; subst commit_loop.simps; simp)+

lemma maybe_advance_frame [simp]:
  "rn_id (maybe_advance_commit S nd) = rn_id nd" "rn_voters (maybe_advance_commit S nd) = rn_voters nd"
  "rn_learners (maybe_advance_commit S nd) = rn_learners nd"
  "rn_bootstrap_conf (maybe_advance_commit S nd) = rn_bootstrap_conf nd"
  "rn_storage (maybe_advance_commit S nd) = rn_storage nd"
  "rn_role (maybe_advance_commit S nd) = rn_role nd"
  "rn_current_term (maybe_advance_commit S nd) = rn_current_term nd"
  "rn_voted_for (maybe_advance_commit S nd) = rn_voted_for nd"
  "rn_last_applied (maybe_advance_commit S nd) = rn_last_applied nd"
  "rn_leader_id (maybe_advance_commit S nd) = rn_leader_id nd"
  "rn_votes (maybe_advance_commit S nd) = rn_votes nd"
  "rn_next_index (maybe_advance_commit S nd) = rn_next_index nd"
  "rn_match_index (maybe_advance_commit S nd) = rn_match_index nd"
  "rn_election_elapsed (maybe_advance_commit S nd) = rn_election_elapsed nd"
  "rn_heartbeat_elapsed (maybe_advance_commit S nd) = rn_heartbeat_elapsed nd"
  "rn_randomized_election_timeout (maybe_advance_commit S nd) = rn_randomized_election_timeout nd"
  "rn_election_timeout (maybe_advance_commit S nd) = rn_election_timeout nd"
  "rn_heartbeat_timeout (maybe_advance_commit S nd) = rn_heartbeat_timeout nd"
  "rn_rng (maybe_advance_commit S nd) = rn_rng nd"
  "rn_transfer_target (maybe_advance_commit S nd) = rn_transfer_target nd"
  "rn_transfer_elapsed (maybe_advance_commit S nd) = rn_transfer_elapsed nd"
  "rn_check_quorum (maybe_advance_commit S nd) = rn_check_quorum nd"
  "rn_recent_active (maybe_advance_commit S nd) = rn_recent_active nd"
  "rn_quorum_elapsed (maybe_advance_commit S nd) = rn_quorum_elapsed nd"
  "rn_read_round (maybe_advance_commit S nd) = rn_read_round nd"
  "rn_acked_round (maybe_advance_commit S nd) = rn_acked_round nd"
  "rn_messages (maybe_advance_commit S nd) = rn_messages nd"
  "rn_pending_snapshot (maybe_advance_commit S nd) = rn_pending_snapshot nd"
  by (simp_all add: maybe_advance_commit_def)

lemma become_leader_frame [simp]:
  "rn_id (become_leader S nd) = rn_id nd" "rn_voters (become_leader S nd) = rn_voters nd"
  "rn_learners (become_leader S nd) = rn_learners nd"
  "rn_bootstrap_conf (become_leader S nd) = rn_bootstrap_conf nd"
  "rn_storage (become_leader S nd) = rn_storage nd"
  "rn_current_term (become_leader S nd) = rn_current_term nd"
  "rn_voted_for (become_leader S nd) = rn_voted_for nd"
  "rn_commit_index (become_leader S nd) = rn_commit_index nd"
  "rn_last_applied (become_leader S nd) = rn_last_applied nd" "rn_votes (become_leader S nd) = rn_votes nd"
  "rn_election_elapsed (become_leader S nd) = rn_election_elapsed nd"
  "rn_randomized_election_timeout (become_leader S nd) = rn_randomized_election_timeout nd"
  "rn_election_timeout (become_leader S nd) = rn_election_timeout nd"
  "rn_heartbeat_timeout (become_leader S nd) = rn_heartbeat_timeout nd"
  "rn_rng (become_leader S nd) = rn_rng nd" "rn_check_quorum (become_leader S nd) = rn_check_quorum nd"
  "rn_read_round (become_leader S nd) = rn_read_round nd"
  "rn_pending_snapshot (become_leader S nd) = rn_pending_snapshot nd"
  by (simp_all add: become_leader_def Let_def)


end
