(* ===== verification/Raft_Election.thy ===== *)
theory Raft_Election
  imports Raft_Cluster
begin

text \<open>
  Election safety of a Raft group of fixed membership: the invariant of a whole cluster, its
  preservation by every step, and the theorem that no term ever has two leaders.
\<close>

section \<open>Election safety\<close>

definition cluster_inv :: "node_id list \<Rightarrow> cluster \<Rightarrow> bool" where
  "cluster_inv V c \<longleftrightarrow>
     (\<forall>i. rn_id (cl_nodes c i) = i \<and> node_inv V (cl_votes c) (cl_nodes c i) \<and> vote_of (cl_nodes c i) \<subseteq> cl_votes c) \<and>
     (\<forall>m \<in> cl_net c. msg_inv V (cl_votes c) m) \<and>
     (\<forall>v t a b. (v, t, a) \<in> cl_votes c \<longrightarrow> (v, t, b) \<in> cl_votes c \<longrightarrow> a = b) \<and>
     (\<forall>t l. (t, l) \<in> cl_leaders c \<longrightarrow>
        (\<exists>Q \<subseteq> set V. card Q \<ge> length V div 2 + 1 \<and> (\<forall>v \<in> Q. (v, t, l) \<in> cl_votes c)))"

lemma vote_inv_mono:
  assumes "vote_inv V H nd" "H \<subseteq> H'"
    and "\<forall>t c. (rn_id nd, t, c) \<in> H' \<longrightarrow> (rn_id nd, t, c) \<in> H \<or> t = rn_current_term nd \<and> rn_voted_for nd = Some c"
  shows "vote_inv V H' nd"
proof -
  have "t \<le> rn_current_term nd \<and> (t = rn_current_term nd \<longrightarrow> rn_voted_for nd = Some c)" if "(rn_id nd, t, c) \<in> H'" for t c
    using assms(3) that vote_inv_past [OF assms(1), of t c] vote_inv_now [OF assms(1), of c] by blast
  moreover have "\<forall>v \<in> rn_votes nd. v = rn_id nd \<or> (v, rn_current_term nd, rn_id nd) \<in> H'" if "rn_role nd \<noteq> Follower"
    using assms(1,2) that unfolding vote_inv_def by blast
  ultimately show ?thesis using assms(1) unfolding vote_inv_def by simp
qed

text \<open>Recording the votes of another node keeps the invariant of a node.\<close>

lemma node_inv_other:
  assumes "node_inv V H nd" "\<forall>(v, t, c) \<in> H'. v \<noteq> rn_id nd"
  shows "node_inv V (H \<union> H') nd"
proof -
  have "vote_inv V (H \<union> H') nd"
    by (rule vote_inv_mono [of V H]) (use assms in \<open>auto simp: node_inv_def\<close>)
  moreover have "out_inv V (H \<union> H' \<union> vote_of nd) nd"
    by (rule out_inv_cong [of V "H \<union> vote_of nd" nd]) (use assms(1) in \<open>auto simp: node_inv_def\<close>)
  ultimately show ?thesis using assms(1) by (simp add: node_inv_def)
qed

text \<open>Recording a node's own present vote keeps it too.\<close>

lemma node_inv_own:
  assumes "node_inv V H nd"
  shows "node_inv V (H \<union> vote_of nd) nd"
proof -
  have "vote_inv V (H \<union> vote_of nd) nd"
    by (rule vote_inv_mono [of V H]) (use assms in \<open>auto simp: node_inv_def vote_of_def\<close>)
  then show ?thesis using assms by (simp add: node_inv_def Un_assoc)
qed

lemma cluster_invD:
  assumes "cluster_inv V c"
  shows "rn_id (cl_nodes c i) = i" "node_inv V (cl_votes c) (cl_nodes c i)" "vote_of (cl_nodes c i) \<subseteq> cl_votes c"
    and "m \<in> cl_net c \<Longrightarrow> msg_inv V (cl_votes c) m"
    and "(v, t, a) \<in> cl_votes c \<Longrightarrow> (v, t, b) \<in> cl_votes c \<Longrightarrow> a = b"
    and "(t, l) \<in> cl_leaders c \<Longrightarrow> \<exists>Q \<subseteq> set V. card Q \<ge> length V div 2 + 1 \<and> (\<forall>v \<in> Q. (v, t, l) \<in> cl_votes c)"
  using assms unfolding cluster_inv_def by blast+

lemma vote_of_mem: "(v, t, a) \<in> vote_of nd \<longleftrightarrow> v = rn_id nd \<and> t = rn_current_term nd \<and> rn_voted_for nd = Some a"
  by (auto simp: vote_of_def)

lemma votes_unique:
  assumes inv: "cluster_inv V c" and nd: "node_inv V (cl_votes c) nd"
    and v: "(v, t, a) \<in> cl_votes c \<union> vote_of nd" "(v, t, b) \<in> cl_votes c \<union> vote_of nd"
  shows "a = b"
proof -
  have mix: "x = y" if "(v, t, x) \<in> cl_votes c" "(v, t, y) \<in> vote_of nd" for x y
    using that nd vote_inv_now [of V "cl_votes c" nd x] by (simp add: vote_of_mem node_inv_def)
  show ?thesis
    using v mix [of a b] mix [of b a] cluster_invD(5) [OF inv, of v t a b] vote_of_mem [of v t _ nd] by auto
qed

lemma lead_quorum:
  assumes "node_inv V H nd" "(t, l) \<in> lead_of nd"
  shows "\<exists>Q \<subseteq> set V. card Q \<ge> length V div 2 + 1 \<and> (\<forall>v \<in> Q. (v, t, l) \<in> H \<union> vote_of nd)"
proof -
  have l: "rn_role nd = Leader" "t = rn_current_term nd" "l = rn_id nd"
    using assms(2) by (auto simp: lead_of_def split: if_splits)
  have "rn_votes nd \<subseteq> set V \<and> card (rn_votes nd) \<ge> length V div 2 + 1 \<and> (\<forall>v \<in> rn_votes nd. (v, t, l) \<in> H \<union> vote_of nd)"
    using assms(1) l by (auto simp: node_inv_def vote_inv_def vote_of_mem)
  then show ?thesis by blast
qed

lemma cluster_inv_put:
  assumes inv: "cluster_inv V c" and nd: "node_inv V (cl_votes c) nd" "rn_id nd = i"
  shows "cluster_inv V (put_node c i nd)"
proof -
  let ?H = "cl_votes c \<union> vote_of nd"
  have other: "node_inv V ?H (cl_nodes c j)" if "j \<noteq> i" for j
    by (rule node_inv_other [OF cluster_invD(2) [OF inv]])
      (use that nd(2) in \<open>simp add: vote_of_def cluster_invD(1) [OF inv]\<close>)
  have "rn_id (((cl_nodes c)(i := nd)) j) = j \<and> node_inv V ?H (((cl_nodes c)(i := nd)) j) \<and>
      vote_of (((cl_nodes c)(i := nd)) j) \<subseteq> ?H" for j
    using other [of j] node_inv_own [OF nd(1)] nd(2) cluster_invD(1,3) [OF inv, of j] by auto
  moreover have "\<forall>m \<in> cl_net c. msg_inv V ?H m"
    using cluster_invD(4) [OF inv] msg_inv_mono [of V "cl_votes c" _ ?H] by blast
  moreover have "\<exists>Q \<subseteq> set V. card Q \<ge> length V div 2 + 1 \<and> (\<forall>v \<in> Q. (v, t, l) \<in> ?H)"
    if "(t, l) \<in> cl_leaders c \<union> lead_of nd" for t l
    using that lead_quorum [OF nd(1), of t l] cluster_invD(6) [OF inv, of t l] by blast
  moreover have "(v, t, a) \<in> ?H \<Longrightarrow> (v, t, b) \<in> ?H \<Longrightarrow> a = b" for v t a b
    by (rule votes_unique [OF inv nd(1)])
  ultimately show ?thesis unfolding cluster_inv_def put_node_def by simp
qed

text \<open>Messages that leave a node satisfy the invariant of the network.\<close>

lemma cluster_inv_send:
  assumes inv: "cluster_inv V c" and tk: "take_messages (cl_nodes c i) = (nd, ms)"
  shows "cluster_inv V ((put_node c i nd)\<lparr>cl_net := cl_net c \<union> set ms\<rparr>)"
proof -
  note n = cluster_invD(1-3) [OF inv, of i]
  have nd: "nd = (cl_nodes c i)\<lparr>rn_messages := []\<rparr>" "ms = rn_messages (cl_nodes c i)"
    using tk by (auto simp: take_messages_def)
  have "node_inv V (cl_votes c) nd" "rn_id nd = i"
    using n by (simp_all add: nd node_inv_def conf_inv_def vote_inv_def out_inv_def)
  then have inv': "cluster_inv V (put_node c i nd)" by (rule cluster_inv_put [OF inv])
  have "msg_inv V (cl_votes c) m" if "m \<in> set ms" for m
    using n that unfolding node_inv_def out_inv_def nd(2) by (simp add: sup_absorb1)
  then have "msg_inv V (cl_votes (put_node c i nd)) m" if "m \<in> set ms" for m
    using that msg_inv_mono [of V "cl_votes c" m] by (simp add: put_node_def)
  with inv' show ?thesis
    unfolding cluster_inv_def by (simp add: put_node_def ball_Un)
qed

text \<open>Every node is configured with its own id and the same voters.\<close>

definition same_group :: "(node_id \<Rightarrow> config) \<Rightarrow> node_id list \<Rightarrow> bool" where
  "same_group cfg V \<longleftrightarrow> (\<forall>i. cfg_id (cfg i) = i \<and> sort_dedup (cfg_voters (cfg i)) = V)"

lemma cluster_inv_init:
  assumes "same_group cfg V"
  shows "cluster_inv V (cluster_init cfg)"
proof -
  have "node_inv V {} (node_new mem_ops (cfg i) mem_new)" for i
    using assms by (intro node_inv_new [of _ i]) (simp_all add: same_group_def conf_store_def mem_new_def)
  moreover have "vote_of (node_new mem_ops (cfg i) mem_new) = {}" for i
    by (simp add: vote_of_def node_new_def node_init_def mem_new_def mem_hard_state_def hard_state_default_def Let_def)
  ultimately show ?thesis using assms by (simp add: cluster_inv_def cluster_init_def same_group_def)
qed

lemma cluster_inv_step:
  assumes "cluster_step cfg c c'" "cluster_inv V c" "same_group cfg V"
  shows "cluster_inv V c'"
  using assms(1)
proof cases
  case (cs_local i nd)
  have cfg: "cfg_id (cfg i) = rn_id (cl_nodes c i)" "sort_dedup (cfg_voters (cfg i)) = V"
    using assms(3) cluster_invD(1) [OF assms(2)] by (simp_all add: same_group_def)
  have "node_inv V (cl_votes c) nd"
    using node_inv_local [OF cs_local(2) cluster_invD(2,3) [OF assms(2)] cfg] .
  moreover have "rn_id nd = i" using local_step_id [OF cs_local(2) cfg(1)] cluster_invD(1) [OF assms(2)] by simp
  ultimately show ?thesis unfolding cs_local(1) by (rule cluster_inv_put [OF assms(2)])
next
  case (cs_deliver m)
  have "node_inv V (cl_votes c) (step mem_ops (cl_nodes c (msg_to m)) m)"
    by (rule node_inv_step [OF cluster_invD(2,3) [OF assms(2)] cluster_invD(4) [OF assms(2) cs_deliver(2)]])
      (simp add: cluster_invD(1) [OF assms(2)])
  then show ?thesis
    unfolding cs_deliver(1) by (rule cluster_inv_put [OF assms(2)]) (simp add: cluster_invD(1) [OF assms(2)])
next
  case (cs_send i nd ms)
  then show ?thesis using cluster_inv_send [OF assms(2)] by simp
qed

lemma cluster_inv_reach: "cluster_reach cfg c \<Longrightarrow> same_group cfg V \<Longrightarrow> cluster_inv V c"
  by (induction rule: cluster_reach.induct) (blast intro: cluster_inv_init cluster_inv_step)+

text \<open>Two majorities of the same list of distinct voters meet.\<close>

lemma majorities_meet:
  assumes "distinct V" "Q \<subseteq> set V" "R \<subseteq> set V" "card Q \<ge> length V div 2 + 1" "card R \<ge> length V div 2 + 1"
  shows "\<exists>v. v \<in> Q \<and> v \<in> R"
proof (rule ccontr)
  assume "\<nexists>v. v \<in> Q \<and> v \<in> R"
  then have "Q \<inter> R = {}" by blast
  then have "card (Q \<union> R) = card Q + card R"
    using assms(2,3) by (simp add: card_Un_disjoint finite_subset)
  moreover have "card (Q \<union> R) \<le> length V"
    using assms(1-3) by (metis List.finite_set card_mono distinct_card le_sup_iff)
  ultimately show False using assms(4,5) by linarith
qed

text \<open>C18: Election Safety. In a Raft group whose nodes are configured with the same voters, however
  the nodes tick, campaign, vote, transfer leadership, take proposals, compact and restart from their
  persisted state, and however the network delays, repeats, reorders or loses their messages, no term
  is ever led by two different nodes.\<close>

theorem election_safety:
  assumes "cluster_reach cfg c" "same_group cfg V"
    and "(t, l) \<in> cl_leaders c" "(t, l') \<in> cl_leaders c"
  shows "l = l'"
proof -
  note inv = cluster_inv_reach [OF assms(1,2)]
  have "distinct V" using assms(2) sort_dedup_props(2) unfolding same_group_def by metis
  moreover obtain Q where "Q \<subseteq> set V" "card Q \<ge> length V div 2 + 1" and q: "\<forall>v \<in> Q. (v, t, l) \<in> cl_votes c"
    using cluster_invD(6) [OF inv assms(3)] by blast
  moreover obtain R where "R \<subseteq> set V" "card R \<ge> length V div 2 + 1" and r: "\<forall>v \<in> R. (v, t, l') \<in> cl_votes c"
    using cluster_invD(6) [OF inv assms(4)] by blast
  ultimately obtain v where "v \<in> Q" "v \<in> R" using majorities_meet by blast
  then show ?thesis using q r cluster_invD(5) [OF inv, of v t l l'] by blast
qed

text \<open>A group of one voter, whose node campaigns at its first tick and leads term 1.\<close>

definition solo_config :: "node_id \<Rightarrow> config" where
  "solo_config i = (config_new i [1])\<lparr>cfg_election_timeout := 1\<rparr>"

definition solo_led :: cluster where
  "solo_led = put_node (cluster_init solo_config) 1 (tick mem_ops (node_new mem_ops (solo_config 1) mem_new))"

lemma solo_reach: "cluster_reach solo_config solo_led"
proof -
  have "cluster_step solo_config (cluster_init solo_config) solo_led"
    unfolding solo_led_def
    by (rule cs_local) (use ls_tick [of "solo_config 1"] in \<open>simp add: cluster_init_def\<close>)
  then show ?thesis by (rule cr_step [OF cr_init])
qed

lemma solo_leads: "(1, 1) \<in> cl_leaders solo_led"
proof -
  let ?nd = "node_new mem_ops (solo_config 1) mem_new"
  have v: "rn_voters ?nd = [1]" "rn_id ?nd = 1" "rn_current_term ?nd = 0" "rn_role ?nd = Follower"
    and e: "rn_election_elapsed ?nd = 0" "rn_randomized_election_timeout ?nd = 1"
    by (simp_all add: node_new_def node_init_def solo_config_def config_new_def mem_new_def
        mem_hard_state_def hard_state_default_def reset_election_timer_def next_rand_def Let_def
        recompute_conf_def conf_at_def mem_snapshot_def mem_entries_def sort_dedup_def mem_last_index_def
        mem_base_def slice_def split: option.split)
  have "lead_of (tick mem_ops ?nd) = {(1, 1)}"
    using v e by (simp add: tick_def start_election_def become_leader_def lead_of_def is_voter_def majority_def Let_def)
  then show ?thesis by (simp add: solo_led_def put_node_def)
qed

theorem election_safety_witness:
  "cluster_reach solo_config solo_led \<and> same_group solo_config [1] \<and> {l. (1, l) \<in> cl_leaders solo_led} = {1}"
proof -
  have g: "same_group solo_config [1]"
    by (simp add: same_group_def solo_config_def config_new_def sort_dedup_def)
  show ?thesis using election_safety [OF solo_reach g _ solo_leads] solo_reach solo_leads g by blast
qed

end
