(* ===== verification/Raft_Refine.thy ===== *)
theory Raft_Refine
  imports Raft_Node
begin

text \<open>
  A node on any storage that meets the contract \<open>raft_storage\<close> behaves as a node on the in-memory
  storage: every method commutes with forgetting how the storage keeps its state. Properties of the
  state machine are therefore proved for the in-memory storage and hold for the durable one.
\<close>

definition node_view :: "('s \<Rightarrow> 't) \<Rightarrow> 's raft_node \<Rightarrow> 't raft_node" where
  "node_view f nd = \<lparr>
     rn_id = rn_id nd, rn_voters = rn_voters nd, rn_learners = rn_learners nd, rn_bootstrap_conf =
     rn_bootstrap_conf nd, rn_storage = f (rn_storage nd), rn_role = rn_role nd, rn_current_term =
     rn_current_term nd, rn_voted_for = rn_voted_for nd, rn_commit_index = rn_commit_index nd,
     rn_last_applied = rn_last_applied nd, rn_leader_id = rn_leader_id nd, rn_votes = rn_votes nd,
     rn_next_index = rn_next_index nd, rn_match_index = rn_match_index nd, rn_election_elapsed =
     rn_election_elapsed nd, rn_heartbeat_elapsed = rn_heartbeat_elapsed nd,
     rn_randomized_election_timeout = rn_randomized_election_timeout nd, rn_election_timeout =
     rn_election_timeout nd, rn_heartbeat_timeout = rn_heartbeat_timeout nd, rn_rng = rn_rng nd,
     rn_transfer_target = rn_transfer_target nd, rn_transfer_elapsed = rn_transfer_elapsed nd,
     rn_check_quorum = rn_check_quorum nd, rn_recent_active = rn_recent_active nd, rn_quorum_elapsed
     = rn_quorum_elapsed nd, rn_read_round = rn_read_round nd, rn_acked_round = rn_acked_round nd,
     rn_pending_reads = rn_pending_reads nd, rn_ready_reads = rn_ready_reads nd, rn_messages =
     rn_messages nd, rn_pending_snapshot = rn_pending_snapshot nd\<rparr>"

lemma node_view_sel [simp]:
  "rn_id (node_view f nd) = rn_id nd" "rn_voters (node_view f nd) = rn_voters nd"
  "rn_learners (node_view f nd) = rn_learners nd"
  "rn_bootstrap_conf (node_view f nd) = rn_bootstrap_conf nd"
  "rn_storage (node_view f nd) = f (rn_storage nd)" "rn_role (node_view f nd) = rn_role nd"
  "rn_current_term (node_view f nd) = rn_current_term nd" "rn_voted_for (node_view f nd) = rn_voted_for nd"
  "rn_commit_index (node_view f nd) = rn_commit_index nd"
  "rn_last_applied (node_view f nd) = rn_last_applied nd" "rn_leader_id (node_view f nd) = rn_leader_id nd"
  "rn_votes (node_view f nd) = rn_votes nd" "rn_next_index (node_view f nd) = rn_next_index nd"
  "rn_match_index (node_view f nd) = rn_match_index nd"
  "rn_election_elapsed (node_view f nd) = rn_election_elapsed nd"
  "rn_heartbeat_elapsed (node_view f nd) = rn_heartbeat_elapsed nd"
  "rn_randomized_election_timeout (node_view f nd) = rn_randomized_election_timeout nd"
  "rn_election_timeout (node_view f nd) = rn_election_timeout nd"
  "rn_heartbeat_timeout (node_view f nd) = rn_heartbeat_timeout nd" "rn_rng (node_view f nd) = rn_rng nd"
  "rn_transfer_target (node_view f nd) = rn_transfer_target nd"
  "rn_transfer_elapsed (node_view f nd) = rn_transfer_elapsed nd"
  "rn_check_quorum (node_view f nd) = rn_check_quorum nd"
  "rn_recent_active (node_view f nd) = rn_recent_active nd"
  "rn_quorum_elapsed (node_view f nd) = rn_quorum_elapsed nd"
  "rn_read_round (node_view f nd) = rn_read_round nd" "rn_acked_round (node_view f nd) = rn_acked_round nd"
  "rn_pending_reads (node_view f nd) = rn_pending_reads nd"
  "rn_ready_reads (node_view f nd) = rn_ready_reads nd" "rn_messages (node_view f nd) = rn_messages nd"
  "rn_pending_snapshot (node_view f nd) = rn_pending_snapshot nd"
  by (simp_all add: node_view_def)

lemma node_view_upd [simp]:
  "node_view f (nd\<lparr>rn_id := x1\<rparr>) = (node_view f nd)\<lparr>rn_id := x1\<rparr>"
  "node_view f (nd\<lparr>rn_voters := x2\<rparr>) = (node_view f nd)\<lparr>rn_voters := x2\<rparr>"
  "node_view f (nd\<lparr>rn_learners := x3\<rparr>) = (node_view f nd)\<lparr>rn_learners := x3\<rparr>"
  "node_view f (nd\<lparr>rn_bootstrap_conf := x4\<rparr>) = (node_view f nd)\<lparr>rn_bootstrap_conf := x4\<rparr>"
  "node_view f (nd\<lparr>rn_role := x5\<rparr>) = (node_view f nd)\<lparr>rn_role := x5\<rparr>"
  "node_view f (nd\<lparr>rn_current_term := x6\<rparr>) = (node_view f nd)\<lparr>rn_current_term := x6\<rparr>"
  "node_view f (nd\<lparr>rn_voted_for := x7\<rparr>) = (node_view f nd)\<lparr>rn_voted_for := x7\<rparr>"
  "node_view f (nd\<lparr>rn_commit_index := x8\<rparr>) = (node_view f nd)\<lparr>rn_commit_index := x8\<rparr>"
  "node_view f (nd\<lparr>rn_last_applied := x9\<rparr>) = (node_view f nd)\<lparr>rn_last_applied := x9\<rparr>"
  "node_view f (nd\<lparr>rn_leader_id := x10\<rparr>) = (node_view f nd)\<lparr>rn_leader_id := x10\<rparr>"
  "node_view f (nd\<lparr>rn_votes := x11\<rparr>) = (node_view f nd)\<lparr>rn_votes := x11\<rparr>"
  "node_view f (nd\<lparr>rn_next_index := x12\<rparr>) = (node_view f nd)\<lparr>rn_next_index := x12\<rparr>"
  "node_view f (nd\<lparr>rn_match_index := x13\<rparr>) = (node_view f nd)\<lparr>rn_match_index := x13\<rparr>"
  "node_view f (nd\<lparr>rn_election_elapsed := x14\<rparr>) = (node_view f nd)\<lparr>rn_election_elapsed := x14\<rparr>"
  "node_view f (nd\<lparr>rn_heartbeat_elapsed := x15\<rparr>) = (node_view f nd)\<lparr>rn_heartbeat_elapsed := x15\<rparr>"
  "node_view f (nd\<lparr>rn_randomized_election_timeout := x16\<rparr>) = (node_view f nd)\<lparr>rn_randomized_election_timeout := x16\<rparr>"
  "node_view f (nd\<lparr>rn_election_timeout := x17\<rparr>) = (node_view f nd)\<lparr>rn_election_timeout := x17\<rparr>"
  "node_view f (nd\<lparr>rn_heartbeat_timeout := x18\<rparr>) = (node_view f nd)\<lparr>rn_heartbeat_timeout := x18\<rparr>"
  "node_view f (nd\<lparr>rn_rng := x19\<rparr>) = (node_view f nd)\<lparr>rn_rng := x19\<rparr>"
  "node_view f (nd\<lparr>rn_transfer_target := x20\<rparr>) = (node_view f nd)\<lparr>rn_transfer_target := x20\<rparr>"
  "node_view f (nd\<lparr>rn_transfer_elapsed := x21\<rparr>) = (node_view f nd)\<lparr>rn_transfer_elapsed := x21\<rparr>"
  "node_view f (nd\<lparr>rn_check_quorum := x22\<rparr>) = (node_view f nd)\<lparr>rn_check_quorum := x22\<rparr>"
  "node_view f (nd\<lparr>rn_recent_active := x23\<rparr>) = (node_view f nd)\<lparr>rn_recent_active := x23\<rparr>"
  "node_view f (nd\<lparr>rn_quorum_elapsed := x24\<rparr>) = (node_view f nd)\<lparr>rn_quorum_elapsed := x24\<rparr>"
  "node_view f (nd\<lparr>rn_read_round := x25\<rparr>) = (node_view f nd)\<lparr>rn_read_round := x25\<rparr>"
  "node_view f (nd\<lparr>rn_acked_round := x26\<rparr>) = (node_view f nd)\<lparr>rn_acked_round := x26\<rparr>"
  "node_view f (nd\<lparr>rn_pending_reads := x27\<rparr>) = (node_view f nd)\<lparr>rn_pending_reads := x27\<rparr>"
  "node_view f (nd\<lparr>rn_ready_reads := x28\<rparr>) = (node_view f nd)\<lparr>rn_ready_reads := x28\<rparr>"
  "node_view f (nd\<lparr>rn_messages := x29\<rparr>) = (node_view f nd)\<lparr>rn_messages := x29\<rparr>"
  "node_view f (nd\<lparr>rn_pending_snapshot := x30\<rparr>) = (node_view f nd)\<lparr>rn_pending_snapshot := x30\<rparr>"
  "node_view f (nd\<lparr>rn_storage := st\<rparr>) = (node_view f nd)\<lparr>rn_storage := f st\<rparr>"
  by (simp_all add: node_view_def)

lemma node_view_pure [simp]:
  "majority (node_view f nd) = majority nd" "peers (node_view f nd) = peers nd"
  "replication_peers (node_view f nd) = replication_peers nd" "is_voter (node_view f nd) = is_voter nd"
  "read_acks (node_view f nd) r = read_acks nd r" "match_count (node_view f nd) n = match_count nd n"
  "confirmed_reads (node_view f nd) = confirmed_reads nd"
  by (simp_all add: majority_def peers_def replication_peers_def is_voter_def read_acks_def match_count_def
      confirmed_reads_def)

lemma node_view_send [simp]: "node_view f (send nd to t b) = send (node_view f nd) to t b"
  by (simp add: send_def)

lemma node_view_reset [simp]: "node_view f (reset_election_timer nd) = reset_election_timer (node_view f nd)"
  by (simp add: reset_election_timer_def next_rand_def Let_def)

lemma node_view_fire [simp]: "node_view f (fire_timeout_now nd i) = fire_timeout_now (node_view f nd) i"
  by (simp add: fire_timeout_now_def)

lemma node_view_record_match [simp]: "node_view f (record_match nd i m) = record_match (node_view f nd) i m"
  by (simp add: record_match_def Let_def)

lemma node_view_track_new [simp]: "node_view f (track_new nd i) = track_new (node_view f nd) i"
  by (simp add: track_new_def)

context raft_storage
begin

abbreviation nv :: "'s raft_node \<Rightarrow> mem_storage raft_node" where
  "nv \<equiv> node_view view"

lemma nv_persist [simp]: "nv (persist_hard_state S nd) = persist_hard_state mem_ops (nv nd)"
  by (simp add: persist_hard_state_def view_laws)

lemma nv_last_log_term [simp]: "last_log_term S nd = last_log_term mem_ops (nv nd)"
  by (simp add: last_log_term_def view_laws)

lemma nv_become_follower [simp]: "nv (become_follower S nd t l) = become_follower mem_ops (nv nd) t l"
  by (simp add: become_follower_def Let_def)

lemma nv_pending_conf [simp]: "has_pending_conf_change S nd = has_pending_conf_change mem_ops (nv nd)"
  by (simp add: has_pending_conf_change_def view_laws)

lemma nv_conf_at [simp]: "conf_at S nd i = conf_at mem_ops (nv nd) i"
  by (simp add: conf_at_def view_laws split: option.split)

lemma nv_recompute [simp]: "nv (recompute_conf S nd) = recompute_conf mem_ops (nv nd)"
  by (auto simp: recompute_conf_def view_laws Let_def is_voter_def split: prod.split option.split)

lemma nv_progress [simp]: "progress S nd i = progress mem_ops (nv nd) i"
  by (simp add: progress_def view_laws)

lemma nv_send_snapshot [simp]: "nv (send_snapshot S nd i) = send_snapshot mem_ops (nv nd) i"
  by (simp add: send_snapshot_def view_laws split: option.split)

lemma nv_send_append [simp]: "nv (send_append S nd i) = send_append mem_ops (nv nd) i"
  by (simp add: send_append_def view_laws Let_def)

lemma nv_broadcast [simp]: "nv (broadcast_append S nd) = broadcast_append mem_ops (nv nd)"
proof -
  have "nv (fold (\<lambda>p nd. send_append S nd p) ps nd) = fold (\<lambda>p nd. send_append mem_ops nd p) ps (nv nd)" for ps
    by (induction ps arbitrary: nd) simp_all
  then show ?thesis by (simp add: broadcast_append_def)
qed

lemma nv_advance_reads [simp]: "nv (advance_reads S nd) = advance_reads mem_ops (nv nd)"
  by (simp add: advance_reads_def view_laws Let_def)

lemma nv_commit_loop [simp]: "nv (commit_loop S nd n) = commit_loop mem_ops (nv nd) n"
proof (induction n)
  case (Suc n)
  then show ?case
    by (simp add: commit_loop.simps [of S nd "Suc n"] commit_loop.simps [of mem_ops "nv nd" "Suc n"] view_laws)
qed (simp add: commit_loop.simps)

lemma nv_maybe_advance [simp]: "nv (maybe_advance_commit S nd) = maybe_advance_commit mem_ops (nv nd)"
  by (simp add: maybe_advance_commit_def view_laws)

lemma nv_become_leader [simp]: "nv (become_leader S nd) = become_leader mem_ops (nv nd)"
  by (simp add: become_leader_def view_laws Let_def)

lemma nv_start_election [simp]: "nv (start_election S nd) = start_election mem_ops (nv nd)"
proof -
  have "nv (fold (\<lambda>p nd. send nd p (rn_current_term nd) (RequestVote (st_last_index S (rn_storage nd)) (last_log_term S nd))) ps nd)
      = fold (\<lambda>p nd. send nd p (rn_current_term nd) (RequestVote (mem_last_index (rn_storage nd)) (last_log_term mem_ops nd))) ps (nv nd)"
    for ps nd
    by (induction ps arbitrary: nd) (simp_all add: view_laws)
  then show ?thesis by (simp add: start_election_def Let_def majority_def peers_def)
qed

lemma nv_leader_append [simp]: "nv (leader_append S nd e) = leader_append mem_ops (nv nd) e"
  by (simp add: leader_append_def view_laws)

text \<open>The methods a driver calls.\<close>

lemma nv_init: "nv (node_init S cfg st) = node_init mem_ops cfg (view st)"
  unfolding node_init_def Let_def node_view_def by (simp add: view_hard_state)

lemma nv_new: "nv (node_new S cfg st) = node_new mem_ops cfg (view st)"
  by (simp add: node_new_def nv_init)

lemma nv_tick_leader [simp]: "nv (tick_leader S nd) = tick_leader mem_ops (nv nd)"
proof -
  have "nv (tick_quorum S nd) = tick_quorum mem_ops (nv nd)" for nd
    by (simp add: tick_quorum_def heard_from_def majority_def Let_def)
  moreover have "nv (tick_heartbeat S nd) = tick_heartbeat mem_ops (nv nd)" for nd
    by (simp add: tick_heartbeat_def Let_def)
  moreover have "nv (tick_transfer nd) = tick_transfer (nv nd)"
    by (simp add: tick_transfer_def Let_def)
  ultimately show ?thesis by (simp add: tick_leader_def)
qed

lemma nv_tick: "nv (tick S nd) = tick mem_ops (nv nd)"
  by (simp add: tick_def is_voter_def Let_def)

lemma nv_propose: "map_prod nv id (propose S nd d) = propose mem_ops (nv nd) d"
  by (simp add: propose_def view_laws Let_def)

lemma nv_read_index: "map_prod nv id (read_index S nd c) = read_index mem_ops (nv nd) c"
  by (simp add: read_index_def Let_def)

lemma nv_propose_conf_change: "map_prod nv id (propose_conf_change S nd cc) = propose_conf_change mem_ops (nv nd) cc"
  by (simp add: propose_conf_change_def view_laws Let_def split: prod.split conf_change.split)

lemma nv_transfer: "map_prod nv id (transfer_leadership S nd i) = transfer_leadership mem_ops (nv nd) i"
  by (simp add: transfer_leadership_def Let_def split: option.split)

lemma nv_splice: "map_prod view id (splice_entries S base st i es) = splice_entries mem_ops base (view st) i es"
  by (induction es arbitrary: i) (simp_all add: view_laws)

lemma nv_handle_append [simp]:
  "nv (handle_append_entries S nd i t pl pt es lc rr) = handle_append_entries mem_ops (nv nd) i t pl pt es lc rr"
proof -
  let ?nd = "reset_election_timer (nd\<lparr>rn_role := Follower, rn_leader_id := Some i\<rparr>)"
  obtain st rest where sp: "splice_entries S (st_first_index S (rn_storage nd) - 1) (rn_storage nd) (pl + 1) es = (st, rest)"
    by fastforce
  then have "splice_entries mem_ops (mem_first_index (view (rn_storage nd)) - 1) (view (rn_storage nd)) (pl + 1) es = (view st, rest)"
    using nv_splice [of "st_first_index S (rn_storage nd) - 1" "rn_storage nd" "pl + 1" es]
    by (simp add: view_first_index)
  with sp show ?thesis
    by (cases rest) (simp_all add: handle_append_entries_def view_laws Let_def)
qed

lemma nv_handle_request_vote [simp]:
  "nv (handle_request_vote S nd i t li lt) = handle_request_vote mem_ops (nv nd) i t li lt"
proof -
  have "grants_vote S nd i t li lt = grants_vote mem_ops (nv nd) i t li lt"
    by (simp add: grants_vote_def view_last_index)
  then show ?thesis by (simp add: handle_request_vote_def Let_def)
qed

lemma nv_handlers [simp]:
  "nv (handle_request_vote_resp S nd i t g) = handle_request_vote_resp mem_ops (nv nd) i t g"
  "nv (handle_timeout_now S nd t) = handle_timeout_now mem_ops (nv nd) t"
  "nv (handle_install_snapshot S nd i t sn) = handle_install_snapshot mem_ops (nv nd) i t sn"
  "nv (handle_install_snapshot_resp S nd i t m) = handle_install_snapshot_resp mem_ops (nv nd) i t m"
  by (simp_all add: handle_request_vote_resp_def handle_timeout_now_def
      handle_install_snapshot_def handle_install_snapshot_resp_def view_laws Let_def majority_def)

lemma nv_handle_append_resp [simp]:
  "nv (handle_append_resp S nd i t ok mi rr) = handle_append_resp mem_ops (nv nd) i t ok mi rr"
  by (simp add: handle_append_resp_def view_laws Let_def)

lemma nv_step: "nv (step S nd m) = step mem_ops (nv nd) m"
  by (cases "msg_body m") (simp_all add: step_def Let_def)

lemma nv_take_committed: "map_prod nv id (take_committed S nd) = take_committed mem_ops (nv nd)"
  by (simp add: take_committed_def view_laws)

lemma nv_compact: "map_option nv (node_compact S nd i d) = node_compact mem_ops (nv nd) i d"
  by (simp add: node_compact_def view_laws split: option.split prod.split)

end

end
