(* ===== verification/Raft_Wal.thy ===== *)
theory Raft_Wal
  imports Raft_Refine Wal
begin

text \<open>
  \<open>raft-wal/src/lib.rs\<close>: the durable Raft storage. Its directory holds the log as a write-ahead-log
  segment, the hard state and the snapshot as files that are replaced atomically; the record
  \<open>wal_storage\<close> holds them next to the in-memory mirror. A failed write panics in the code, so the
  model has no error branch. The lemmas show that the mirror behaves as the in-memory storage, that
  reopening the directory gives it back, and what a crash in the middle of an update leaves behind.
\<close>

record wal_storage =
  ws_hard :: hard_state
  ws_log :: "entry list"
  ws_snap :: "snapshot option"
  ws_writer :: wal_writer
  ws_hard_file :: "bytes option"
  ws_snap_file :: "bytes option"

text \<open>The directory as a restart finds it.\<close>

record raft_dir =
  rd_log :: "bytes option"
  rd_hard :: "bytes option"
  rd_snap :: "bytes option"

section \<open>Encodings\<close>

definition encode_log_entry :: "entry \<Rightarrow> bytes" where
  "encode_log_entry e = u64_to_be (word_of_nat (e_term e)) @
     [case e_type e of Normal \<Rightarrow> 0 | ConfChangeEntry \<Rightarrow> 1] @ e_data e"

definition decode_log_entry :: "u64 \<Rightarrow> bytes \<Rightarrow> entry option" where
  "decode_log_entry idx payload =
     (if length payload < 9 then None
      else Some \<lparr>e_term = unat (u64_of_be (slice payload 0 8)), e_index = unat idx,
             e_type = (if payload ! 8 = 1 then ConfChangeEntry else Normal), e_data = drop 9 payload\<rparr>)"

definition encode_hard_state :: "hard_state \<Rightarrow> bytes" where
  "encode_hard_state hs = u64_to_be (word_of_nat (hs_current_term hs)) @
     (case hs_voted_for hs of Some v \<Rightarrow> [1] @ u64_to_be v | None \<Rightarrow> replicate 9 0)"

definition decode_hard_state :: "bytes \<Rightarrow> hard_state" where
  "decode_hard_state b =
     (if length b < 17 then hard_state_default
      else \<lparr>hs_current_term = unat (u64_of_be (slice b 0 8)),
            hs_voted_for = (if b ! 8 = 1 then Some (u64_of_be (slice b 9 17)) else None)\<rparr>)"

definition encode_snapshot :: "snapshot \<Rightarrow> bytes" where
  "encode_snapshot s = u64_to_be (word_of_nat (sn_last_included_index s)) @
     u64_to_be (word_of_nat (sn_last_included_term s)) @
     u32_to_be (word_of_nat (length (sn_conf_state s))) @ concat (map u64_to_be (sn_conf_state s)) @
     u32_to_be (word_of_nat (length (sn_learners s))) @ concat (map u64_to_be (sn_learners s)) @ sn_data s"

text \<open>The closure \<open>read_ids\<close>: a count and that many ids.\<close>

definition read_ids :: "bytes \<Rightarrow> nat \<Rightarrow> (node_id list \<times> nat) option" where
  "read_ids b p =
     (if p + 4 > length b then None
      else read_u64s b (unat (u32_of_be (slice b p (p + 4)))) (p + 4))"

definition decode_snapshot :: "bytes \<Rightarrow> snapshot option" where
  "decode_snapshot b =
     (if length b < 24 then None
      else do {
        (conf_state, p) \<leftarrow> read_ids b 16;
        (learners, p) \<leftarrow> read_ids b p;
        Some \<lparr>sn_last_included_index = unat (u64_of_be (slice b 0 8)),
              sn_last_included_term = unat (u64_of_be (slice b 8 16)),
              sn_conf_state = conf_state, sn_learners = learners, sn_data = drop p b\<rparr>
      })"

section \<open>Opening\<close>

text \<open>The replay loop from cursor \<open>pos\<close>: the entries above the snapshot and the cursor behind the
  last record that was read, which a malformed payload moves too.\<close>

function replay_log :: "(bytes \<Rightarrow> u32) \<Rightarrow> nat \<Rightarrow> bytes \<Rightarrow> nat \<Rightarrow> entry list \<times> nat" where
  "replay_log crc base buf pos = (case next_record crc buf pos of
     None \<Rightarrow> ([], pos)
   | Some ((seq, payload), pos') \<Rightarrow>
       (case decode_log_entry seq payload of
          None \<Rightarrow> ([], pos')
        | Some e \<Rightarrow>
            (case replay_log crc base buf pos' of (es, n) \<Rightarrow>
               (if e_index e > base then e # es else es, n))))"
  by pat_completeness auto
termination
  by (relation "measure (\<lambda>(crc, base, buf, pos). length buf - pos)") (auto dest!: next_record_advances)

declare replay_log.simps [simp del]

definition wal_storage_open :: "(bytes \<Rightarrow> u32) \<Rightarrow> raft_dir \<Rightarrow> wal_storage" where
  "wal_storage_open crc d =
     (let snap = Option.bind (rd_snap d) decode_snapshot;
          base = (case snap of Some s \<Rightarrow> sn_last_included_index s | None \<Rightarrow> 0);
          (log, file) = (case rd_log d of
             None \<Rightarrow> ([], None)
           | Some buf \<Rightarrow> (case replay_log crc base buf 0 of (log, valid_len) \<Rightarrow> (log, Some (take valid_len buf))));
          hard = (case rd_hard d of Some b \<Rightarrow> decode_hard_state b | None \<Rightarrow> hard_state_default)
      in \<lparr>ws_hard = hard, ws_log = log, ws_snap = snap, ws_writer = wal_open_append file,
          ws_hard_file = rd_hard d, ws_snap_file = rd_snap d\<rparr>)"

section \<open>The trait's methods\<close>

definition ws_base :: "wal_storage \<Rightarrow> nat" where
  "ws_base s = (case ws_snap s of Some sn \<Rightarrow> sn_last_included_index sn | None \<Rightarrow> 0)"

definition wal_write_entries :: "(bytes \<Rightarrow> u32) \<Rightarrow> wal_writer \<Rightarrow> entry list \<Rightarrow> wal_writer" where
  "wal_write_entries crc w es =
     fold (\<lambda>e w. wal_append crc w (word_of_nat (e_index e)) (encode_log_entry e)) es w"

definition rewrite_log :: "(bytes \<Rightarrow> u32) \<Rightarrow> wal_storage \<Rightarrow> wal_storage" where
  "rewrite_log crc s =
     s\<lparr>ws_writer := wal_open_append (Some (ww_file (wal_write_entries crc wal_create (ws_log s))))\<rparr>"

definition ws_hard_state :: "wal_storage \<Rightarrow> hard_state" where
  "ws_hard_state s = ws_hard s"

definition ws_save_hard_state :: "wal_storage \<Rightarrow> hard_state \<Rightarrow> wal_storage" where
  "ws_save_hard_state s hs = s\<lparr>ws_hard := hs, ws_hard_file := Some (encode_hard_state hs)\<rparr>"

definition ws_last_index :: "wal_storage \<Rightarrow> nat" where
  "ws_last_index s = (if ws_log s = [] then ws_base s else e_index (last (ws_log s)))"

definition ws_term :: "wal_storage \<Rightarrow> nat \<Rightarrow> nat option" where
  "ws_term s idx =
     (if idx = 0 then Some 0
      else
        let base = ws_base s
        in if idx = base then map_option sn_last_included_term (ws_snap s)
           else if idx < base then None
           else map_option e_term (log_get (ws_log s) (idx - base - 1)))"

definition ws_entries :: "wal_storage \<Rightarrow> nat \<Rightarrow> nat \<Rightarrow> entry list" where
  "ws_entries s low high =
     (let base = ws_base s;
          low = max low (base + 1)
      in if low > high then []
         else
           let lo = low - base - 1;
               hi = min (high - base) (length (ws_log s))
           in if lo \<ge> hi then [] else slice (ws_log s) lo hi)"

definition ws_append :: "(bytes \<Rightarrow> u32) \<Rightarrow> wal_storage \<Rightarrow> entry list \<Rightarrow> wal_storage" where
  "ws_append crc s es = s\<lparr>ws_writer := wal_write_entries crc (ws_writer s) es, ws_log := ws_log s @ es\<rparr>"

definition ws_truncate_suffix :: "(bytes \<Rightarrow> u32) \<Rightarrow> wal_storage \<Rightarrow> nat \<Rightarrow> wal_storage" where
  "ws_truncate_suffix crc s from =
     (let base = ws_base s;
          keep = (if from \<le> base + 1 then 0 else min (from - base - 1) (length (ws_log s)))
      in if keep \<ge> length (ws_log s) then s
         else rewrite_log crc (s\<lparr>ws_log := take keep (ws_log s)\<rparr>))"

definition ws_snapshot :: "wal_storage \<Rightarrow> snapshot option" where
  "ws_snapshot s = ws_snap s"

definition ws_first_index :: "wal_storage \<Rightarrow> nat" where
  "ws_first_index s = ws_base s + 1"

text \<open>\<open>compact\<close> and \<open>apply_snapshot\<close> write the snapshot file and then rewrite the log; the first
  half is a definition of its own because a crash may come in between.\<close>

definition ws_compact_snap :: "wal_storage \<Rightarrow> nat \<Rightarrow> nat \<Rightarrow> node_id list \<Rightarrow> node_id list \<Rightarrow> bytes \<Rightarrow> wal_storage" where
  "ws_compact_snap s idx term conf learners data =
     (let sn = \<lparr>sn_last_included_index = idx, sn_last_included_term = term, sn_conf_state = conf,
                sn_learners = learners, sn_data = data\<rparr>
      in s\<lparr>ws_log := drop (min (idx - ws_base s) (length (ws_log s))) (ws_log s), ws_snap := Some sn,
           ws_snap_file := Some (encode_snapshot sn)\<rparr>)"

definition ws_compact :: "(bytes \<Rightarrow> u32) \<Rightarrow> wal_storage \<Rightarrow> nat \<Rightarrow> nat \<Rightarrow> node_id list \<Rightarrow> node_id list \<Rightarrow> bytes
    \<Rightarrow> wal_storage" where
  "ws_compact crc s idx term conf learners data =
     (if idx \<le> ws_base s then s else rewrite_log crc (ws_compact_snap s idx term conf learners data))"

definition ws_apply_snapshot_snap :: "wal_storage \<Rightarrow> snapshot \<Rightarrow> wal_storage" where
  "ws_apply_snapshot_snap s sn = s\<lparr>ws_log := [], ws_snap := Some sn, ws_snap_file := Some (encode_snapshot sn)\<rparr>"

definition ws_apply_snapshot :: "(bytes \<Rightarrow> u32) \<Rightarrow> wal_storage \<Rightarrow> snapshot \<Rightarrow> wal_storage" where
  "ws_apply_snapshot crc s sn = rewrite_log crc (ws_apply_snapshot_snap s sn)"

definition wal_ops :: "(bytes \<Rightarrow> u32) \<Rightarrow> wal_storage storage" where
  "wal_ops crc = \<lparr>st_hard_state = ws_hard_state, st_save_hard_state = ws_save_hard_state,
     st_last_index = ws_last_index, st_term = ws_term, st_entries = ws_entries, st_append = ws_append crc,
     st_truncate_suffix = ws_truncate_suffix crc, st_snapshot = ws_snapshot, st_first_index = ws_first_index,
     st_compact = ws_compact crc, st_apply_snapshot = ws_apply_snapshot crc\<rparr>"

section \<open>The mirror is an in-memory storage\<close>

definition ws_view :: "wal_storage \<Rightarrow> mem_storage" where
  "ws_view s = \<lparr>ms_hard = ws_hard s, ms_log = ws_log s, ms_snap = ws_snap s\<rparr>"

lemma ws_view_sel [simp]:
  "ms_hard (ws_view s) = ws_hard s" "ms_log (ws_view s) = ws_log s" "ms_snap (ws_view s) = ws_snap s"
  "mem_base (ws_view s) = ws_base s"
  by (simp_all add: ws_view_def mem_base_def ws_base_def split: option.split)

lemma ws_view_upd [simp]:
  "ws_view (s\<lparr>ws_log := es\<rparr>) = (ws_view s)\<lparr>ms_log := es\<rparr>"
  "ws_view (s\<lparr>ws_hard := hs\<rparr>) = (ws_view s)\<lparr>ms_hard := hs\<rparr>"
  "ws_view (s\<lparr>ws_snap := sn\<rparr>) = (ws_view s)\<lparr>ms_snap := sn\<rparr>"
  "ws_view (s\<lparr>ws_writer := w\<rparr>) = ws_view s" "ws_view (s\<lparr>ws_hard_file := f\<rparr>) = ws_view s"
  "ws_view (s\<lparr>ws_snap_file := f\<rparr>) = ws_view s"
  by (simp_all add: ws_view_def)

lemma rewrite_log_view [simp]: "ws_view (rewrite_log crc s) = ws_view s"
  by (simp add: rewrite_log_def)

interpretation wal_st: raft_storage "wal_ops crc" ws_view
proof
  show "ws_view (st_truncate_suffix (wal_ops crc) s i) = mem_truncate_suffix (ws_view s) i" for s i
    by (auto simp: wal_ops_def ws_truncate_suffix_def mem_truncate_suffix_def Let_def min_def)
  show "ws_view (st_compact (wal_ops crc) s i t vs ls d) = mem_compact (ws_view s) i t vs ls d" for s i t vs ls d
    by (simp add: wal_ops_def ws_compact_def ws_compact_snap_def mem_compact_def Let_def)
  show "st_entries (wal_ops crc) s = mem_entries (ws_view s)" for s
    by (simp only: fun_eq_iff wal_ops_def ws_entries_def mem_entries_def ws_view_sel storage.simps simp_thms)
qed (simp_all add: wal_ops_def fun_eq_iff ws_hard_state_def ws_save_hard_state_def ws_append_def ws_snapshot_def
    ws_first_index_def ws_apply_snapshot_def ws_apply_snapshot_snap_def ws_term_def ws_last_index_def
    mem_hard_state_def mem_save_hard_state_def mem_append_def mem_snapshot_def mem_first_index_def
    mem_apply_snapshot_def mem_term_def mem_last_index_def Let_def)

section \<open>Round trips of the files\<close>

definition log_entry_fits :: "entry \<Rightarrow> bool" where
  "log_entry_fits e \<longleftrightarrow> e_term e < 2 ^ 64 \<and> e_index e < 2 ^ 64 \<and> payload_fits (encode_log_entry e)"

definition snapshot_fits :: "snapshot \<Rightarrow> bool" where
  "snapshot_fits s \<longleftrightarrow> sn_last_included_index s < 2 ^ 64 \<and> sn_last_included_term s < 2 ^ 64 \<and>
     fits_u32 (sn_conf_state s) \<and> fits_u32 (sn_learners s)"

lemma log_entry_roundtrip [codec_simps]:
  "log_entry_fits e \<Longrightarrow> decode_log_entry (word_of_nat (e_index e)) (encode_log_entry e) = Some e"
proof -
  assume f: "log_entry_fits e"
  let ?t = "u64_to_be (word_of_nat (e_term e))" and ?y = "[case e_type e of Normal \<Rightarrow> 0 | ConfChangeEntry \<Rightarrow> (1 :: byte)]"
  have "slice (encode_log_entry e) 0 8 = ?t" by (simp add: encode_log_entry_def)
  moreover have "encode_log_entry e ! 8 = hd ?y" by (simp add: encode_log_entry_def nth_append)
  moreover have "drop 9 (encode_log_entry e) = e_data e" by (simp add: encode_log_entry_def)
  moreover have "\<not> length (encode_log_entry e) < 9" by (simp add: encode_log_entry_def)
  ultimately show ?thesis
    using f by (simp add: decode_log_entry_def log_entry_fits_def unat_u64_of_nat split: entry_type.split)
qed

lemma hard_state_roundtrip [codec_simps]:
  "hs_current_term hs < 2 ^ 64 \<Longrightarrow> decode_hard_state (encode_hard_state hs) = hs"
proof -
  assume f: "hs_current_term hs < 2 ^ 64"
  let ?b = "encode_hard_state hs"
  have t: "slice ?b 0 8 = u64_to_be (word_of_nat (hs_current_term hs))" by (simp add: encode_hard_state_def)
  have l: "length ?b = 17" by (simp add: encode_hard_state_def split: option.split)
  show ?thesis
  proof (cases "hs_voted_for hs")
    case None
    then have "?b ! 8 = 0" by (simp add: encode_hard_state_def nth_append)
    then show ?thesis using f t l None by (simp add: decode_hard_state_def unat_u64_of_nat)
  next
    case (Some v)
    then have "?b ! 8 = 1" by (simp add: encode_hard_state_def nth_append)
    moreover have "slice ?b 9 17 = u64_to_be v"
      using slice_end [of "u64_to_be (word_of_nat (hs_current_term hs)) @ [1]" 9 "u64_to_be v" 17] Some
      by (simp add: encode_hard_state_def)
    ultimately show ?thesis using f t l Some by (simp add: decode_hard_state_def unat_u64_of_nat)
  qed
qed

lemma read_ids_at:
  assumes "length pre = p" "fits_u32 ids"
  shows "read_ids (pre @ u32_to_be (word_of_nat (length ids)) @ concat (map u64_to_be ids) @ post) p
    = Some (ids, p + 4 + 8 * length ids)"
proof -
  let ?n = "u32_to_be (word_of_nat (length ids))" and ?v = "concat (map u64_to_be ids)"
  have "slice (pre @ ?n @ ?v @ post) p (p + 4) = ?n" using assms by (intro slice_mid) simp_all
  moreover have "read_u64s ((pre @ ?n) @ ?v @ post) (length ids) (p + 4) = Some (ids, p + 4 + 8 * length ids)"
    using assms by (intro read_u64s_at) simp
  ultimately show ?thesis using assms by (simp add: read_ids_def unat_u32_of_nat)
qed

lemma snapshot_roundtrip [codec_simps]:
  assumes "snapshot_fits s"
  shows "decode_snapshot (encode_snapshot s) = Some s"
proof -
  let ?i = "u64_to_be (word_of_nat (sn_last_included_index s))" and ?t = "u64_to_be (word_of_nat (sn_last_included_term s))"
  let ?n = "u32_to_be (word_of_nat (length (sn_conf_state s)))" and ?v = "concat (map u64_to_be (sn_conf_state s))"
  let ?m = "u32_to_be (word_of_nat (length (sn_learners s)))" and ?l = "concat (map u64_to_be (sn_learners s))"
  let ?b = "encode_snapshot s" and ?p = "16 + 4 + 8 * length (sn_conf_state s)"
  let ?q = "?p + 4 + 8 * length (sn_learners s)"
  have b: "?b = ?i @ ?t @ ?n @ ?v @ ?m @ ?l @ sn_data s" by (simp add: encode_snapshot_def)
  have i: "slice ?b 0 8 = ?i" by (simp add: b)
  have t: "slice ?b 8 16 = ?t" unfolding b by (rule slice_mid) simp_all
  have v: "read_ids ?b 16 = Some (sn_conf_state s, ?p)"
    using read_ids_at [of "?i @ ?t" 16 "sn_conf_state s" "?m @ ?l @ sn_data s"] assms
    by (simp add: b snapshot_fits_def)
  have l: "read_ids ?b ?p = Some (sn_learners s, ?q)"
    using read_ids_at [of "?i @ ?t @ ?n @ ?v" ?p "sn_learners s" "sn_data s"] assms
    by (simp add: b snapshot_fits_def)
  have d: "drop ?q ?b = sn_data s" by (simp add: b)
  have len: "\<not> length ?b < 24" by (simp add: b)
  show ?thesis
    unfolding decode_snapshot_def i t using v l d len assms
    by (simp add: unat_u64_of_nat snapshot_fits_def)
qed

section \<open>What is on disk\<close>

definition log_rec :: "entry \<Rightarrow> u64 \<times> bytes" where
  "log_rec e = (word_of_nat (e_index e), encode_log_entry e)"

definition ws_dir :: "wal_storage \<Rightarrow> raft_dir" where
  "ws_dir s = \<lparr>rd_log = Some (ww_file (ws_writer s)), rd_hard = ws_hard_file s, rd_snap = ws_snap_file s\<rparr>"

definition wal_durable :: "(bytes \<Rightarrow> u32) \<Rightarrow> wal_storage \<Rightarrow> bool" where
  "wal_durable crc s \<longleftrightarrow> ww_file (ws_writer s) = wal_image crc (map log_rec (ws_log s)) \<and>
     (\<forall>e \<in> set (ws_log s). log_entry_fits e \<and> ws_base s < e_index e) \<and>
     (ws_hard_file s = None \<and> ws_hard s = hard_state_default \<or> ws_hard_file s = Some (encode_hard_state (ws_hard s))) \<and>
     hs_current_term (ws_hard s) < 2 ^ 64 \<and>
     ws_snap_file s = map_option encode_snapshot (ws_snap s) \<and> (\<forall>sn. ws_snap s = Some sn \<longrightarrow> snapshot_fits sn)"

lemma wal_write_entries_file:
  "ww_file (wal_write_entries crc w es) = ww_file w @ wal_image crc (map log_rec es)"
proof (induction es arbitrary: w)
  case (Cons e es)
  then show ?case
    by (simp add: wal_write_entries_def) (simp add: wal_append_def log_rec_def [of e] Let_def)
qed (simp add: wal_write_entries_def)

lemma rewrite_log_file: "ww_file (ws_writer (rewrite_log crc s)) = wal_image crc (map log_rec (ws_log s))"
  by (simp add: rewrite_log_def wal_open_append_def Let_def wal_write_entries_file) (simp add: wal_create_def)

lemma replay_log_records:
  assumes "wal_records crc buf pos = (map log_rec es, n)" "\<forall>e \<in> set es. log_entry_fits e"
  shows "replay_log crc base buf pos = (filter (\<lambda>e. base < e_index e) es, n)"
  using assms
proof (induction es arbitrary: pos)
  case Nil
  then show ?case
    by (subst replay_log.simps) (subst (asm) wal_records.simps, auto split: option.splits prod.splits)
next
  case (Cons e es)
  obtain pos' where nx: "next_record crc buf pos = Some (log_rec e, pos')"
    and rest: "wal_records crc buf pos' = (map log_rec es, n)"
    using Cons.prems(1) by (subst (asm) wal_records.simps) (auto split: option.splits prod.splits)
  have "decode_log_entry (fst (log_rec e)) (snd (log_rec e)) = Some e"
    using Cons.prems(2) by (simp add: log_rec_def log_entry_roundtrip)
  with nx Cons.IH [OF rest] Cons.prems(2) show ?case
    by (subst replay_log.simps) (simp add: log_rec_def)
qed

lemma ws_view_open_cut:
  assumes dur: "wal_durable crc s" and es: "\<forall>e \<in> set es. log_entry_fits e"
  shows "\<exists>k. (\<forall>j \<le> length es. length (wal_image crc (map log_rec (take j es))) \<le> n \<longrightarrow> j \<le> k) \<and>
    (let s' = wal_storage_open crc ((ws_dir s)\<lparr>rd_log := Some (take n (wal_image crc (map log_rec es)))\<rparr>)
     in ws_view s' = (ws_view s)\<lparr>ms_log := filter (\<lambda>e. ws_base s < e_index e) (take k es)\<rparr> \<and>
        ww_file (ws_writer s') = wal_image crc (map log_rec (take k es)) \<and>
        ws_hard_file s' = ws_hard_file s \<and> ws_snap_file s' = ws_snap_file s)"
proof -
  obtain k where k: "wal_records crc (take n (wal_image crc (map log_rec es))) 0
      = (map log_rec (take k es), length (wal_image crc (map log_rec (take k es))))"
    "take (length (wal_image crc (map log_rec (take k es)))) (take n (wal_image crc (map log_rec es)))
      = wal_image crc (map log_rec (take k es))"
    "\<forall>j \<le> length es. length (wal_image crc (map log_rec (take j es))) \<le> n \<longrightarrow> j \<le> k"
    using wal_records_cut_take [of "map log_rec es" crc n] es
    by (auto simp: take_map log_rec_def log_entry_fits_def)
  have rp: "replay_log crc (ws_base s) (take n (wal_image crc (map log_rec es))) 0
      = (filter (\<lambda>e. ws_base s < e_index e) (take k es), length (wal_image crc (map log_rec (take k es))))"
    using es by (intro replay_log_records [OF k(1)]) (meson in_set_takeD)
  have sn: "Option.bind (ws_snap_file s) decode_snapshot = ws_snap s"
    using dur by (cases "ws_snap s") (auto simp: wal_durable_def snapshot_roundtrip)
  have hd: "(case ws_hard_file s of Some b \<Rightarrow> decode_hard_state b | None \<Rightarrow> hard_state_default) = ws_hard s"
    using dur by (auto simp: wal_durable_def hard_state_roundtrip split: option.splits)
  show ?thesis
    using k(2,3) rp sn hd
    by (intro exI [of _ k])
      (simp add: wal_storage_open_def ws_dir_def ws_base_def [symmetric] ws_view_def wal_open_append_def Let_def)
qed

text \<open>Reopening after a clean stop gives the same storage back.\<close>

lemma wal_reopen:
  assumes dur: "wal_durable crc s"
  shows "ws_view (wal_storage_open crc (ws_dir s)) = ws_view s" "wal_durable crc (wal_storage_open crc (ws_dir s))"
proof -
  let ?s = "wal_storage_open crc (ws_dir s)" and ?img = "wal_image crc (map log_rec (ws_log s))"
  have img: "ww_file (ws_writer s) = ?img" and ok: "\<forall>e \<in> set (ws_log s). log_entry_fits e \<and> ws_base s < e_index e"
    using dur by (simp_all add: wal_durable_def)
  then have "(ws_dir s)\<lparr>rd_log := Some (take (length ?img) ?img)\<rparr> = ws_dir s" by (simp add: ws_dir_def)
  with ws_view_open_cut [OF dur, of "ws_log s" "length ?img"] ok obtain k where
    k: "\<forall>j \<le> length (ws_log s). length (wal_image crc (map log_rec (take j (ws_log s)))) \<le> length ?img \<longrightarrow> j \<le> k"
    and v: "ws_view ?s = (ws_view s)\<lparr>ms_log := filter (\<lambda>e. ws_base s < e_index e) (take k (ws_log s))\<rparr>"
      "ww_file (ws_writer ?s) = wal_image crc (map log_rec (take k (ws_log s)))"
      "ws_hard_file ?s = ws_hard_file s" "ws_snap_file ?s = ws_snap_file s"
    by (auto simp: Let_def)
  have "take k (ws_log s) = ws_log s" using k by auto
  moreover have "filter (\<lambda>e. ws_base s < e_index e) (ws_log s) = ws_log s" using ok by (simp add: filter_id_conv)
  ultimately show view: "ws_view ?s = ws_view s" using v(1) by (simp add: ws_view_def)
  then have "ws_hard ?s = ws_hard s" "ws_log ?s = ws_log s" "ws_snap ?s = ws_snap s" "ws_base ?s = ws_base s"
    by (metis ws_view_sel)+
  then show "wal_durable crc ?s"
    using dur v \<open>take k (ws_log s) = ws_log s\<close> by (simp add: wal_durable_def)
qed

text \<open>Every method keeps the directory in step with the mirror.\<close>

lemma wal_durable_save:
  "wal_durable crc s \<Longrightarrow> hs_current_term hs < 2 ^ 64 \<Longrightarrow> wal_durable crc (ws_save_hard_state s hs)"
  by (simp add: wal_durable_def ws_save_hard_state_def ws_base_def)

lemma wal_durable_append:
  "wal_durable crc s \<Longrightarrow> \<forall>e \<in> set es. log_entry_fits e \<and> ws_base s < e_index e \<Longrightarrow> wal_durable crc (ws_append crc s es)"
  by (auto simp: wal_durable_def ws_append_def ws_base_def wal_write_entries_file)

lemma wal_durable_rewrite:
  assumes "wal_durable crc s" "ws_hard s' = ws_hard s" "ws_hard_file s' = ws_hard_file s"
    and "ws_snap_file s' = map_option encode_snapshot (ws_snap s')" "\<forall>sn. ws_snap s' = Some sn \<longrightarrow> snapshot_fits sn"
    and "\<forall>e \<in> set (ws_log s'). log_entry_fits e \<and> ws_base s' < e_index e"
  shows "wal_durable crc (rewrite_log crc s')"
  using assms unfolding wal_durable_def rewrite_log_file by (simp add: rewrite_log_def ws_base_def)

lemma wal_durable_truncate:
  assumes "wal_durable crc s"
  shows "wal_durable crc (ws_truncate_suffix crc s i)"
proof -
  have "wal_durable crc (rewrite_log crc (s\<lparr>ws_log := take keep (ws_log s)\<rparr>))" for keep
    using assms by (intro wal_durable_rewrite [OF assms]) (auto simp: wal_durable_def ws_base_def dest: in_set_takeD)
  then show ?thesis using assms by (simp add: ws_truncate_suffix_def Let_def)
qed

lemma drop_contiguous_filter:
  assumes "contiguous base es" "base \<le> idx"
  shows "filter (\<lambda>e. idx < e_index e) es = drop (min (idx - base) (length es)) es"
proof -
  let ?k = "min (idx - base) (length es)"
  have "filter (\<lambda>e. idx < e_index e) (take ?k es) = []"
    using assms by (auto simp: filter_empty_conv in_set_conv_nth contiguous_nth)
  moreover have "filter (\<lambda>e. idx < e_index e) (drop ?k es) = drop ?k es"
    using assms by (auto simp: filter_id_conv in_set_conv_nth contiguous_nth)
  ultimately show ?thesis
    by (metis append_Nil append_take_drop_id filter_append)
qed

lemma wal_durable_compact:
  assumes "wal_durable crc s" "mem_wf (ws_view s)" "idx < 2 ^ 64" "term < 2 ^ 64" "fits_u32 conf" "fits_u32 learners"
  shows "wal_durable crc (ws_compact crc s idx term conf learners data)"
proof (cases "idx \<le> ws_base s")
  case False
  let ?s = "ws_compact_snap s idx term conf learners data"
  have "ws_log ?s = filter (\<lambda>e. idx < e_index e) (ws_log s)"
    using drop_contiguous_filter [of "ws_base s" "ws_log s" idx] assms(2) False
    by (simp add: ws_compact_snap_def mem_wf_def Let_def)
  then have "\<forall>e \<in> set (ws_log ?s). log_entry_fits e \<and> ws_base ?s < e_index e"
    using assms(1) by (simp add: wal_durable_def) (simp add: ws_base_def ws_compact_snap_def Let_def)
  then have "wal_durable crc (rewrite_log crc ?s)"
    using assms(3-) by (intro wal_durable_rewrite [OF assms(1)]) (simp_all add: ws_compact_snap_def Let_def snapshot_fits_def)
  then show ?thesis using False by (simp add: ws_compact_def)
qed (use assms in \<open>simp add: ws_compact_def\<close>)

lemma wal_durable_apply_snapshot:
  "wal_durable crc s \<Longrightarrow> snapshot_fits sn \<Longrightarrow> wal_durable crc (ws_apply_snapshot crc s sn)"
  unfolding ws_apply_snapshot_def
  by (rule wal_durable_rewrite) (simp_all add: ws_apply_snapshot_snap_def)

lemma wal_durable_empty: "wal_durable crc (wal_storage_open crc \<lparr>rd_log = None, rd_hard = None, rd_snap = None\<rparr>)"
  by (simp add: wal_storage_open_def wal_durable_def wal_open_append_def hard_state_default_def)

section \<open>Crashes\<close>

text \<open>A crash while entries are appended: what was synced before is kept, and of the new entries a
  prefix.\<close>

lemma crash_in_append:
  assumes "wal_durable crc s" "\<forall>e \<in> set es. log_entry_fits e \<and> ws_base s < e_index e"
    and "length (ww_file (ws_writer s)) \<le> n"
  shows "\<exists>k. ws_view (wal_storage_open crc ((ws_dir s)\<lparr>rd_log := Some (take n (ww_file (ws_writer (ws_append crc s es))))\<rparr>))
    = mem_append (ws_view s) (take k es)"
proof -
  let ?all = "ws_log s @ es"
  have img: "ww_file (ws_writer (ws_append crc s es)) = wal_image crc (map log_rec ?all)"
    using assms(1) by (simp add: ws_append_def wal_write_entries_file wal_durable_def)
  have ok: "\<forall>e \<in> set ?all. log_entry_fits e \<and> ws_base s < e_index e"
    using assms(1,2) by (auto simp: wal_durable_def)
  obtain k where k: "\<forall>j \<le> length ?all. length (wal_image crc (map log_rec (take j ?all))) \<le> n \<longrightarrow> j \<le> k"
    and v: "ws_view (wal_storage_open crc ((ws_dir s)\<lparr>rd_log := Some (take n (wal_image crc (map log_rec ?all)))\<rparr>))
      = (ws_view s)\<lparr>ms_log := filter (\<lambda>e. ws_base s < e_index e) (take k ?all)\<rparr>"
    using ws_view_open_cut [OF assms(1), of ?all n] ok by (auto simp: Let_def)
  have "length (ws_log s) \<le> k"
    using k [rule_format, of "length (ws_log s)"] assms(1,3) by (simp add: wal_durable_def)
  then have split: "take k ?all = ws_log s @ take (k - length (ws_log s)) es" by simp
  have "filter (\<lambda>e. ws_base s < e_index e) (take k ?all) = take k ?all"
  proof (rule filter_True)
    show "\<forall>e \<in> set (take k ?all). ws_base s < e_index e" using ok by (meson in_set_takeD)
  qed
  then have "(ws_view s)\<lparr>ms_log := filter (\<lambda>e. ws_base s < e_index e) (take k ?all)\<rparr>
      = mem_append (ws_view s) (take (k - length (ws_log s)) es)"
    unfolding split by (simp add: mem_append_def)
  then show ?thesis unfolding img v by blast
qed

text \<open>A restart that finds a new snapshot next to the old log keeps the entries above the snapshot.\<close>

lemma open_new_snapshot:
  assumes "wal_durable crc s" "snapshot_fits sn"
  shows "ws_view (wal_storage_open crc ((ws_dir s)\<lparr>rd_snap := Some (encode_snapshot sn)\<rparr>))
    = (ws_view s)\<lparr>ms_log := filter (\<lambda>e. sn_last_included_index sn < e_index e) (ws_log s), ms_snap := Some sn\<rparr>"
proof -
  let ?img = "wal_image crc (map log_rec (ws_log s))" and ?s = "ws_apply_snapshot crc s sn"
  have dur: "wal_durable crc ?s" and fit: "\<forall>e \<in> set (ws_log s). log_entry_fits e" and img: "ww_file (ws_writer s) = ?img"
    using wal_durable_apply_snapshot [OF assms] assms(1) by (simp_all add: wal_durable_def)
  have view: "ws_view ?s = (ws_view s)\<lparr>ms_log := [], ms_snap := Some sn\<rparr>" "ws_base ?s = sn_last_included_index sn"
    by (simp_all add: ws_apply_snapshot_def ws_apply_snapshot_snap_def) (simp add: rewrite_log_def ws_base_def)
  have dir: "(ws_dir ?s)\<lparr>rd_log := Some (take (length ?img) ?img)\<rparr> = (ws_dir s)\<lparr>rd_snap := Some (encode_snapshot sn)\<rparr>"
    by (simp add: ws_dir_def img) (simp add: ws_apply_snapshot_def rewrite_log_def ws_apply_snapshot_snap_def)
  obtain k where k: "\<forall>j \<le> length (ws_log s). length (wal_image crc (map log_rec (take j (ws_log s)))) \<le> length ?img \<longrightarrow> j \<le> k"
    and v: "ws_view (wal_storage_open crc ((ws_dir s)\<lparr>rd_snap := Some (encode_snapshot sn)\<rparr>))
      = (ws_view ?s)\<lparr>ms_log := filter (\<lambda>e. ws_base ?s < e_index e) (take k (ws_log s))\<rparr>"
    using ws_view_open_cut [OF dur fit, of "length ?img"] unfolding dir Let_def by blast
  have "take k (ws_log s) = ws_log s" using k by auto
  then show ?thesis unfolding v view by simp
qed

text \<open>A crash between the two steps of a compaction: the superseded records are filtered out, so the
  compaction has happened.\<close>

lemma crash_in_compact:
  assumes "wal_durable crc s" "mem_wf (ws_view s)" "ws_base s < idx" "idx < 2 ^ 64" "term < 2 ^ 64"
    and "fits_u32 conf" "fits_u32 learners"
  shows "ws_view (wal_storage_open crc (ws_dir (ws_compact_snap s idx term conf learners data)))
    = mem_compact (ws_view s) idx term conf learners data"
proof -
  let ?sn = "\<lparr>sn_last_included_index = idx, sn_last_included_term = term, sn_conf_state = conf,
    sn_learners = learners, sn_data = data\<rparr>"
  have "ws_dir (ws_compact_snap s idx term conf learners data) = (ws_dir s)\<lparr>rd_snap := Some (encode_snapshot ?sn)\<rparr>"
    by (simp add: ws_dir_def ws_compact_snap_def Let_def)
  then show ?thesis
    using open_new_snapshot [OF assms(1), of ?sn] drop_contiguous_filter [of "ws_base s" "ws_log s" idx] assms(2-)
    by (simp add: snapshot_fits_def mem_compact_def mem_wf_def Let_def)
qed

text \<open>A crash between the two steps of installing a leader's snapshot: entries of the old log above the
  snapshot survive, although the installation was to discard them.\<close>

lemma crash_in_apply_snapshot:
  assumes "wal_durable crc s" "snapshot_fits sn"
  shows "ws_view (wal_storage_open crc (ws_dir (ws_apply_snapshot_snap s sn)))
    = (mem_apply_snapshot (ws_view s) sn)\<lparr>ms_log := filter (\<lambda>e. sn_last_included_index sn < e_index e) (ws_log s)\<rparr>"
proof -
  have "ws_dir (ws_apply_snapshot_snap s sn) = (ws_dir s)\<lparr>rd_snap := Some (encode_snapshot sn)\<rparr>"
    by (simp add: ws_dir_def ws_apply_snapshot_snap_def)
  then show ?thesis using open_new_snapshot [OF assms] by (simp add: mem_apply_snapshot_def)
qed

end
