(* ===== verification/Raft_Props.thy ===== *)
theory Raft_Props
  imports Raft_Election Raft_Refine Raft_Wal
begin

text \<open>
  The properties of the Raft core and of its durable storage: a node on the durable storage behaves
  as one on the in-memory storage, the storage survives restarts and crashes, the commit index and
  the confirmed reads mean what they should, and committed entries are handed out once and in order.
\<close>

section \<open>Sequences of storage calls\<close>

datatype store_call = SaveHard hard_state | AppendLog "entry list" | TruncateFrom nat
  | CompactTo nat nat "node_id list" "node_id list" bytes | ApplySnap snapshot

fun wal_call :: "(bytes \<Rightarrow> u32) \<Rightarrow> store_call \<Rightarrow> wal_storage \<Rightarrow> wal_storage" where
  "wal_call crc (SaveHard hs) s = ws_save_hard_state s hs"
| "wal_call crc (AppendLog es) s = ws_append crc s es"
| "wal_call crc (TruncateFrom i) s = ws_truncate_suffix crc s i"
| "wal_call crc (CompactTo i t vs ls d) s = ws_compact crc s i t vs ls d"
| "wal_call crc (ApplySnap sn) s = ws_apply_snapshot crc s sn"

fun mem_call :: "store_call \<Rightarrow> mem_storage \<Rightarrow> mem_storage" where
  "mem_call (SaveHard hs) s = mem_save_hard_state s hs"
| "mem_call (AppendLog es) s = mem_append s es"
| "mem_call (TruncateFrom i) s = mem_truncate_suffix s i"
| "mem_call (CompactTo i t vs ls d) s = mem_compact s i t vs ls d"
| "mem_call (ApplySnap sn) s = mem_apply_snapshot s sn"

text \<open>The duties of a caller: appended entries continue the log, a compaction stays inside it, and
  every number fits its field.\<close>

fun call_ok :: "mem_storage \<Rightarrow> store_call \<Rightarrow> bool" where
  "call_ok s (SaveHard hs) \<longleftrightarrow> hs_current_term hs < 2 ^ 64"
| "call_ok s (AppendLog es) \<longleftrightarrow> contiguous (mem_last_index s) es \<and> (\<forall>e \<in> set es. log_entry_fits e)"
| "call_ok s (TruncateFrom i) \<longleftrightarrow> True"
| "call_ok s (CompactTo i t vs ls d) \<longleftrightarrow> i \<le> mem_last_index s \<and> i < 2 ^ 64 \<and> t < 2 ^ 64 \<and> fits_u32 vs \<and> fits_u32 ls"
| "call_ok s (ApplySnap sn) \<longleftrightarrow> snapshot_fits sn"

fun calls_ok :: "mem_storage \<Rightarrow> store_call list \<Rightarrow> bool" where
  "calls_ok s [] \<longleftrightarrow> True"
| "calls_ok s (c # cs) \<longleftrightarrow> call_ok s c \<and> calls_ok (mem_call c s) cs"

lemma wal_call_view: "ws_view (wal_call crc c s) = mem_call c (ws_view s)"
  using wal_st.view_laws [of crc] by (cases c) (simp_all add: wal_ops_def)

lemma mem_call_wf:
  assumes "mem_wf s" "call_ok s c"
  shows "mem_wf (mem_call c s)"
proof (cases c)
  case (AppendLog es)
  then show ?thesis
    using assms mem_last_index_wf [OF assms(1)]
    by (simp add: mem_append_def mem_wf_def mem_base_def contiguous_append)
next
  case (TruncateFrom i)
  then show ?thesis using assms by (simp add: mem_truncate_suffix_def mem_wf_def mem_base_def contiguous_take Let_def)
next
  case (CompactTo i t vs ls d)
  then show ?thesis
    using assms mem_last_index_wf [OF assms(1)] contiguous_drop [of "mem_base s" "ms_log s" "i - mem_base s"]
    by (auto simp: mem_compact_def mem_wf_def Let_def) (simp add: mem_base_def)
qed (use assms in \<open>simp_all add: mem_save_hard_state_def mem_apply_snapshot_def mem_wf_def mem_base_def\<close>)

lemma appended_above_base:
  assumes "mem_wf (ws_view s)" "contiguous (mem_last_index (ws_view s)) es" "e \<in> set es"
  shows "ws_base s < e_index e"
  using assms mem_last_index_wf [OF assms(1)] by (auto simp: in_set_conv_nth contiguous_nth)

lemma wal_call_durable:
  assumes "wal_durable crc s" "mem_wf (ws_view s)" "call_ok (ws_view s) c"
  shows "wal_durable crc (wal_call crc c s)"
proof (cases c)
  case (AppendLog es)
  then show ?thesis using assms appended_above_base [OF assms(2), of es] by (simp add: wal_durable_append)
qed (use assms in \<open>simp_all add: wal_durable_save wal_durable_truncate wal_durable_compact wal_durable_apply_snapshot\<close>)

lemma mem_calls_wf: "mem_wf s \<Longrightarrow> calls_ok s cs \<Longrightarrow> mem_wf (fold mem_call cs s)"
  by (induction cs arbitrary: s) (simp_all add: mem_call_wf)

lemma calls_ok_append: "calls_ok s (cs @ ds) \<longleftrightarrow> calls_ok s cs \<and> calls_ok (fold mem_call cs s) ds"
  by (induction cs arbitrary: s) simp_all

lemma wal_calls:
  assumes "wal_durable crc s" "mem_wf (ws_view s)" "calls_ok (ws_view s) cs"
  shows "wal_durable crc (fold (wal_call crc) cs s)" "ws_view (fold (wal_call crc) cs s) = fold mem_call cs (ws_view s)"
  using assms
  by (induction cs arbitrary: s) (simp_all add: wal_call_durable wal_call_view mem_call_wf)

abbreviation empty_raft_dir :: raft_dir where
  "empty_raft_dir \<equiv> \<lparr>rd_log = None, rd_hard = None, rd_snap = None\<rparr>"

lemma empty_view: "ws_view (wal_storage_open crc empty_raft_dir) = mem_new"
  by (simp add: wal_storage_open_def ws_view_def mem_new_def)

lemma mem_new_wf [simp]: "mem_wf mem_new"
  by (simp add: mem_wf_def mem_new_def)

abbreviation wal_after :: "(bytes \<Rightarrow> u32) \<Rightarrow> store_call list \<Rightarrow> wal_storage" where
  "wal_after crc cs \<equiv> fold (wal_call crc) cs (wal_storage_open crc empty_raft_dir)"

lemma wal_after_durable:
  assumes "calls_ok mem_new cs"
  shows "wal_durable crc (wal_after crc cs)" "ws_view (wal_after crc cs) = fold mem_call cs mem_new"
    "mem_wf (fold mem_call cs mem_new)"
  using wal_calls [OF wal_durable_empty [of crc], of cs] mem_calls_wf [OF mem_new_wf assms] assms
  by (simp_all add: empty_view)

text \<open>The durable Raft storage. After any sequence of storage calls that respect the contract of
  the trait, the storage answers as the in-memory storage after the same calls, and reopening its
  directory gives the same hard state, log and snapshot back.\<close>

theorem durable_storage_reopens:
  assumes "calls_ok mem_new cs"
  shows "ws_view (wal_after crc cs) = fold mem_call cs mem_new \<and>
    ws_view (wal_storage_open crc (ws_dir (wal_after crc cs))) = fold mem_call cs mem_new"
  using wal_reopen(1) [OF wal_after_durable(1) [OF assms]] wal_after_durable(2) [OF assms, of crc] by simp

text \<open>A run that uses every call.\<close>

definition sample_calls :: "store_call list" where
  "sample_calls =
     [SaveHard \<lparr>hs_current_term = 1, hs_voted_for = Some 2\<rparr>,
      AppendLog [entry_normal 1 1 [7], entry_normal 1 2 [8], entry_normal 1 3 []],
      TruncateFrom 3, CompactTo 1 1 [1, 2, 3] [4] [9], AppendLog [entry_normal 2 3 [5]]]"

lemma sample_calls_ok: "calls_ok mem_new sample_calls"
  by (simp add: sample_calls_def mem_save_hard_state_def mem_append_def mem_truncate_suffix_def mem_compact_def
      mem_new_def mem_last_index_def mem_base_def contiguous_def entry_normal_def log_entry_fits_def encode_log_entry_def
      payload_fits_def SEQ_LEN_def less_Suc_eq Let_def)

lemma sample_result:
  "fold mem_call sample_calls mem_new = \<lparr>ms_hard = \<lparr>hs_current_term = 1, hs_voted_for = Some 2\<rparr>,
     ms_log = [entry_normal 1 2 [8], entry_normal 2 3 [5]],
     ms_snap = Some \<lparr>sn_last_included_index = 1, sn_last_included_term = 1, sn_conf_state = [1, 2, 3],
       sn_learners = [4], sn_data = [9]\<rparr>\<rparr>"
  by (simp add: sample_calls_def mem_save_hard_state_def mem_append_def mem_truncate_suffix_def mem_compact_def
      mem_new_def mem_base_def Let_def)

theorem durable_storage_reopens_witness:
  "ms_log (ws_view (wal_storage_open (\<lambda>_. 0) (ws_dir (wal_after (\<lambda>_. 0) sample_calls))))
     = [entry_normal 1 2 [8], entry_normal 2 3 [5]]"
  using durable_storage_reopens [OF sample_calls_ok, of "\<lambda>_. 0"] by (simp add: sample_result)

text \<open>C20: Crashes of the durable Raft storage. When an append is cut short at any byte, reopening gives
  the storage before it with some prefix of the new entries; when a compaction is cut short between
  writing the snapshot and rewriting the log, reopening gives the storage after it.\<close>

theorem durable_storage_crash:
  assumes "calls_ok mem_new (cs @ [c])"
  shows "(\<forall>es n. c = AppendLog es \<longrightarrow> length (ww_file (ws_writer (wal_after crc cs))) \<le> n \<longrightarrow>
      (\<exists>k. ws_view (wal_storage_open crc ((ws_dir (wal_after crc cs))\<lparr>rd_log :=
              Some (take n (ww_file (ws_writer (wal_after crc (cs @ [c])))))\<rparr>))
        = fold mem_call (cs @ [AppendLog (take k es)]) mem_new)) \<and>
    (\<forall>i t vs ls d. c = CompactTo i t vs ls d \<longrightarrow> ws_base (wal_after crc cs) < i \<longrightarrow>
      ws_view (wal_storage_open crc (ws_dir (ws_compact_snap (wal_after crc cs) i t vs ls d)))
        = fold mem_call (cs @ [c]) mem_new)"
proof -
  let ?s = "wal_after crc cs"
  have ok: "calls_ok mem_new cs" "call_ok (fold mem_call cs mem_new) c" using assms by (simp_all add: calls_ok_append)
  note dur = wal_after_durable(1,2) [OF ok(1), of crc] and wf = wal_after_durable(3) [OF ok(1)]
  have "\<exists>k. ws_view (wal_storage_open crc ((ws_dir ?s)\<lparr>rd_log :=
              Some (take n (ww_file (ws_writer (wal_after crc (cs @ [c])))))\<rparr>))
        = fold mem_call (cs @ [AppendLog (take k es)]) mem_new"
    if c: "c = AppendLog es" and n: "length (ww_file (ws_writer ?s)) \<le> n" for es n
  proof -
    have "\<forall>e \<in> set es. log_entry_fits e \<and> ws_base ?s < e_index e"
      using ok(2) c wf appended_above_base [of ?s es] unfolding dur(2) by simp
    from crash_in_append [OF dur(1) this n] c dur(2) show ?thesis by simp
  qed
  moreover have "ws_view (wal_storage_open crc (ws_dir (ws_compact_snap ?s i t vs ls d))) = fold mem_call (cs @ [c]) mem_new"
    if "c = CompactTo i t vs ls d" "ws_base ?s < i" for i t vs ls d
    using crash_in_compact [OF dur(1), of i t vs ls d] dur(2) wf ok(2) that by simp
  ultimately show ?thesis by blast
qed

theorem durable_storage_crash_witness:
  "\<exists>k. ws_view (wal_storage_open (\<lambda>_. 0) ((ws_dir (wal_after (\<lambda>_. 0) []))\<lparr>rd_log :=
        Some (take 9 (ww_file (ws_writer (wal_after (\<lambda>_. 0) [AppendLog [entry_normal 1 1 [7]]]))))\<rparr>))
     = fold mem_call [AppendLog (take k [entry_normal 1 1 [7]])] mem_new"
proof -
  have "calls_ok mem_new ([] @ [AppendLog [entry_normal 1 1 [7]]])"
    by (simp add: mem_new_def mem_last_index_def mem_base_def contiguous_def entry_normal_def log_entry_fits_def
        encode_log_entry_def payload_fits_def SEQ_LEN_def)
  moreover have "length (ww_file (ws_writer (wal_after (\<lambda>_. 0) []))) \<le> 9"
    by (simp add: wal_storage_open_def wal_open_append_def Let_def)
  ultimately show ?thesis
    using durable_storage_crash [of "[]" "AppendLog [entry_normal 1 1 [7]]" "\<lambda>_. 0"] by simp
qed

text \<open>A follower that crashes while it installs a snapshot of its leader, between writing the
  snapshot and rewriting the log, restarts with the entries of its old log above the snapshot, which
  the installation was to discard: its last log term can be below the term of the snapshot.\<close>

theorem crashed_install_keeps_old_entries:
  assumes "calls_ok mem_new (cs @ [ApplySnap sn])"
  shows "ms_log (ws_view (wal_storage_open crc (ws_dir (ws_apply_snapshot_snap (wal_after crc cs) sn))))
      = filter (\<lambda>e. sn_last_included_index sn < e_index e) (ms_log (fold mem_call cs mem_new)) \<and>
    ms_log (fold mem_call (cs @ [ApplySnap sn]) mem_new) = []"
proof -
  have "calls_ok mem_new cs" "snapshot_fits sn" using assms by (simp_all add: calls_ok_append)
  with crash_in_apply_snapshot [OF wal_after_durable(1), of cs sn crc] wal_after_durable(2) [of cs crc] show ?thesis
    by (simp add: mem_apply_snapshot_def) (metis ws_view_sel(2))
qed

theorem crashed_install_keeps_old_entries_witness:
  "mem_last_index (ws_view (wal_storage_open (\<lambda>_. 0) (ws_dir (ws_apply_snapshot_snap (wal_after (\<lambda>_. 0) sample_calls)
     \<lparr>sn_last_included_index = 2, sn_last_included_term = 5, sn_conf_state = [1], sn_learners = [], sn_data = []\<rparr>)))) = 3"
proof -
  let ?sn = "\<lparr>sn_last_included_index = 2, sn_last_included_term = 5, sn_conf_state = [1], sn_learners = [], sn_data = []\<rparr>"
  have "calls_ok mem_new (sample_calls @ [ApplySnap ?sn])"
    using sample_calls_ok by (simp add: calls_ok_append snapshot_fits_def)
  from crashed_install_keeps_old_entries [OF this, of "\<lambda>_. 0"] show ?thesis
    by (simp add: sample_result mem_last_index_def entry_normal_def)
qed

section \<open>The node\<close>


text \<open>Whether a leader may commit index \<open>n\<close>: the entry is of its own term and a majority of the voters
  has it.\<close>

definition may_commit :: "mem_storage raft_node \<Rightarrow> nat \<Rightarrow> bool" where
  "may_commit nd n \<longleftrightarrow> rn_commit_index nd < n \<and> n \<le> mem_last_index (rn_storage nd) \<and>
     mem_term (rn_storage nd) n = Some (rn_current_term nd) \<and>
     length (rn_voters nd) div 2 < length (filter (\<lambda>v. case rn_match_index nd v of Some m \<Rightarrow> n \<le> m | None \<Rightarrow> False) (rn_voters nd))"

lemma or_zero_le: "0 < n \<Longrightarrow> n \<le> or_zero x \<longleftrightarrow> (case x of Some m \<Rightarrow> n \<le> m | None \<Rightarrow> False)"
  by (cases x) (simp_all add: or_zero_def)

lemma commit_loop_spec:
  fixes nd :: "mem_storage raft_node"
  defines "P \<equiv> \<lambda>k. rn_commit_index nd < k \<and> mem_term (rn_storage nd) k = Some (rn_current_term nd) \<and> majority nd \<le> match_count nd k"
    and "c \<equiv> \<lambda>n. rn_commit_index (commit_loop mem_ops nd n)"
  shows "(c n = rn_commit_index nd \<and> (\<forall>k \<le> n. \<not> P k)) \<or> (c n \<le> n \<and> P (c n) \<and> (\<forall>k \<le> n. P k \<longrightarrow> k \<le> c n))"
proof (induction n)
  case 0
  then show ?case by (simp add: c_def P_def commit_loop.simps)
next
  case (Suc n)
  show ?case
  proof (cases "P (Suc n)")
    case True
    then have "c (Suc n) = Suc n" unfolding c_def P_def by (subst commit_loop.simps) simp
    with True show ?thesis by simp
  next
    case False
    then have "c (Suc n) = c n"
      unfolding c_def P_def by (subst commit_loop.simps) (auto simp: commit_loop.simps [of mem_ops nd n])
    moreover have "k \<le> Suc n \<and> P k \<longleftrightarrow> k \<le> n \<and> P k" for k using False by (metis le_SucE le_SucI)
    ultimately show ?thesis using Suc.IH by (metis le_SucI)
  qed
qed

text \<open>C21: The commit rule. Counting acknowledgements moves the commit index of a leader to the highest
  index that may be committed, an entry of its own term that a majority of the voters has, and leaves
  it alone when there is none; so it never goes back.\<close>

theorem commit_index_advances:
  "(if \<exists>n. may_commit nd n
    then may_commit nd (rn_commit_index (maybe_advance_commit mem_ops nd)) \<and>
      (\<forall>n. may_commit nd n \<longrightarrow> n \<le> rn_commit_index (maybe_advance_commit mem_ops nd))
    else rn_commit_index (maybe_advance_commit mem_ops nd) = rn_commit_index nd)"
proof -
  have P: "may_commit nd n \<longleftrightarrow> n \<le> mem_last_index (rn_storage nd) \<and> rn_commit_index nd < n \<and>
      mem_term (rn_storage nd) n = Some (rn_current_term nd) \<and> majority nd \<le> match_count nd n" for n
  proof (cases n)
    case (Suc m)
    have "match_count nd n = length (filter (\<lambda>v. case rn_match_index nd v of Some m \<Rightarrow> n \<le> m | None \<Rightarrow> False) (rn_voters nd))"
      unfolding match_count_def using Suc by (simp only: or_zero_le zero_less_Suc)
    then show ?thesis by (auto simp: may_commit_def majority_def)
  qed (simp add: may_commit_def)
  show ?thesis
    using commit_loop_spec [of nd "mem_last_index (rn_storage nd)"] unfolding P maybe_advance_commit_def
    by (auto simp: mem_ops_def)
qed

text \<open>A leader of three voters in term 1 with two entries, both acknowledged by one follower, and a read
  of round 1 that the same follower has answered.\<close>

definition led_node :: "mem_storage raft_node" where
  "led_node = (node_init mem_ops (config_new 1 [1, 2, 3])
     \<lparr>ms_hard = \<lparr>hs_current_term = 1, hs_voted_for = Some 1\<rparr>, ms_log = [entry_normal 1 1 [7], entry_normal 1 2 [8]], ms_snap = None\<rparr>)
     \<lparr>rn_role := Leader, rn_match_index := [1 \<mapsto> 2, 2 \<mapsto> 2, 3 \<mapsto> 0],
      rn_acked_round := [2 \<mapsto> 1], rn_pending_reads := [(9, 1), (10, 2)]\<rparr>"

lemma led_node_sel:
  "rn_commit_index led_node = 0" "rn_voters led_node = [1, 2, 3]" "rn_current_term led_node = 1" "rn_id led_node = 1"
  "rn_match_index led_node = [1 \<mapsto> 2, 2 \<mapsto> 2, 3 \<mapsto> 0]" "ms_snap (rn_storage led_node) = None"
  "ms_log (rn_storage led_node) = [entry_normal 1 1 [7], entry_normal 1 2 [8]]"
  "rn_pending_reads led_node = [(9, 1), (10, 2)]" "rn_ready_reads led_node = []" "rn_role led_node = Leader"
  "rn_acked_round led_node = [2 \<mapsto> 1]"
  by (simp_all add: led_node_def node_init_def config_new_def mem_hard_state_def Let_def)

lemma led_node_terms:
  "mem_last_index (rn_storage led_node) = 2" "mem_term (rn_storage led_node) 2 = Some 1"
  by (simp_all add: mem_last_index_def mem_term_def mem_base_def log_get_def led_node_sel entry_normal_def)

theorem commit_index_advances_witness: "rn_commit_index (maybe_advance_commit mem_ops led_node) = 2"
proof -
  have "may_commit led_node 2" by (simp add: may_commit_def led_node_sel led_node_terms)
  moreover have "may_commit led_node n \<Longrightarrow> n \<le> 2" for n by (simp add: may_commit_def led_node_terms)
  ultimately show ?thesis using commit_index_advances [of led_node] by (metis le_antisym)
qed

text \<open>C22: Linearizable reads. When a message answer or a commit lets reads through, the contexts handed
  to the caller are a prefix of the pending ones, in order, each with the present commit index, and only
  when the leader has committed an entry of its own term and a majority of the voters, itself included,
  has answered in the round of the read or a later one.\<close>

theorem reads_confirmed_by_majority:
  "\<exists>k. rn_pending_reads nd = take k (rn_pending_reads nd) @ rn_pending_reads (advance_reads mem_ops nd) \<and>
    rn_ready_reads (advance_reads mem_ops nd) =
      rn_ready_reads nd @ map (\<lambda>(ctx, _). (ctx, rn_commit_index nd)) (take k (rn_pending_reads nd)) \<and>
    (\<forall>(ctx, round) \<in> set (take k (rn_pending_reads nd)).
       rn_role nd = Leader \<and> mem_term (rn_storage nd) (rn_commit_index nd) = Some (rn_current_term nd) \<and>
       length (rn_voters nd) div 2 < length (filter (\<lambda>v. v = rn_id nd \<or> (\<exists>r. rn_acked_round nd v = Some r \<and> round \<le> r)) (rn_voters nd)))"
proof (cases "rn_role nd \<noteq> Leader \<or> rn_pending_reads nd = [] \<or> mem_term (rn_storage nd) (rn_commit_index nd) \<noteq> Some (rn_current_term nd)")
  case True
  then show ?thesis by (intro exI [of _ 0]) (simp add: advance_reads_def)
next
  case False
  define c where "c = confirmed_reads nd"
  have pre: "take (length c) (rn_pending_reads nd) = c"
    unfolding c_def confirmed_reads_def by (metis append_eq_conv_conj takeWhile_dropWhile_id)
  then have split: "c @ drop (length c) (rn_pending_reads nd) = rn_pending_reads nd" by (metis append_take_drop_id)
  have ack: "read_acks nd r = length (filter (\<lambda>v. v = rn_id nd \<or> (\<exists>q. rn_acked_round nd v = Some q \<and> r \<le> q)) (rn_voters nd))" for r
    unfolding read_acks_def by (rule arg_cong [where f = length], rule filter_cong) (auto split: option.split)
  have "majority nd \<le> read_acks nd r" if "(ctx, r) \<in> set c" for ctx r
    using that unfolding c_def confirmed_reads_def by (auto dest: set_takeWhileD)
  then show ?thesis
    using False pre split
    by (intro exI [of _ "length c"])
      (auto simp: advance_reads_def c_def [symmetric] ack majority_def Let_def less_eq_Suc_le)
qed

theorem reads_confirmed_by_majority_witness:
  "rn_ready_reads (advance_reads mem_ops (led_node\<lparr>rn_commit_index := 2\<rparr>)) = [(9, 2)]"
proof -
  let ?nd = "led_node\<lparr>rn_commit_index := 2\<rparr>" and ?p = "[(9, 1), (10, 2)] :: (u64 \<times> nat) list"
  have "rn_pending_reads (advance_reads mem_ops ?nd) = [(10, 2)]"
    by (simp add: advance_reads_def confirmed_reads_def read_acks_def majority_def led_node_sel led_node_terms Let_def)
  with reads_confirmed_by_majority [of ?nd] obtain k where
    "?p = take k ?p @ [(10, 2)]" and r: "rn_ready_reads (advance_reads mem_ops ?nd) = map (\<lambda>(ctx, _). (ctx, 2)) (take k ?p)"
    by (auto simp: led_node_sel)
  then have "take k ?p = [(9, 1)]" by simp
  then show ?thesis unfolding r by simp
qed

text \<open>Committed entries are handed out once and in order. Whatever the node hands out at one call
  continues, index by index, what it handed out before, and reaches exactly to the commit index; the
  next call without a new commit hands out nothing.\<close>

theorem committed_handed_out_in_order:
  assumes "mem_wf (rn_storage nd)" "mem_base (rn_storage nd) \<le> rn_last_applied nd"
    and "rn_last_applied nd \<le> rn_commit_index nd" "rn_commit_index nd \<le> mem_last_index (rn_storage nd)"
  shows "map e_index (snd (take_committed mem_ops nd)) = [rn_last_applied nd + 1 ..< rn_commit_index nd + 1] \<and>
    (\<forall>e \<in> set (snd (take_committed mem_ops nd)). log_get (ms_log (rn_storage nd)) (e_index e - mem_base (rn_storage nd) - 1) = Some e) \<and>
    snd (take_committed mem_ops (fst (take_committed mem_ops nd))) = []"
proof (cases "rn_commit_index nd \<le> rn_last_applied nd")
  case True
  then show ?thesis using assms(3) by (simp add: take_committed_def)
next
  case False
  let ?st = "rn_storage nd" and ?a = "rn_last_applied nd" and ?c = "rn_commit_index nd"
  define es where "es = slice (ms_log ?st) (?a - mem_base ?st) (?c - mem_base ?st)"
  have c: "?c - mem_base ?st \<le> length (ms_log ?st)"
    using assms(4) mem_last_index_wf [OF assms(1)] by simp
  have take: "take_committed mem_ops nd = (nd\<lparr>rn_last_applied := ?c\<rparr>, es)"
    using False assms(2) c by (simp add: take_committed_def mem_entries_def es_def slice_def Let_def)
  have len: "length es = ?c - ?a" using c assms(2) by (simp add: es_def slice_def)
  have nth: "es ! i = ms_log ?st ! (?a - mem_base ?st + i)" if "i < ?c - ?a" for i
    using that c assms(2) by (simp add: es_def slice_def)
  have idx: "e_index (es ! i) = ?a + i + 1" if "i < ?c - ?a" for i
    using that nth contiguous_nth [of "mem_base ?st" "ms_log ?st" "?a - mem_base ?st + i"] assms(1,2) c
    by (simp add: mem_wf_def)
  have "map e_index es = [?a + 1 ..< ?c + 1]"
  proof (rule nth_equalityI)
    show "length (map e_index es) = length [?a + 1 ..< ?c + 1]" by (simp add: len del: upt_Suc)
    show "map e_index es ! i = [?a + 1 ..< ?c + 1] ! i" if "i < length (map e_index es)" for i
      using that len idx [of i] nth_upt [of "?a + 1" i "?c + 1"] by (simp del: upt_Suc)
  qed
  moreover have "log_get (ms_log ?st) (e_index e - mem_base ?st - 1) = Some e" if e_in: "e \<in> set es" for e
  proof -
    obtain i where i: "i < ?c - ?a" and e: "e = es ! i" using e_in len unfolding in_set_conv_nth by auto
    have "?a - mem_base ?st + i < length (ms_log ?st)" "e_index (es ! i) - mem_base ?st - 1 = ?a - mem_base ?st + i"
      using i c assms(2) idx [OF i] by simp_all
    then show ?thesis unfolding e log_get_def by (simp add: nth [OF i])
  qed
  ultimately show ?thesis unfolding take by (simp add: take_committed_def)
qed

theorem committed_handed_out_in_order_witness:
  "map e_index (snd (take_committed mem_ops (led_node\<lparr>rn_commit_index := 2\<rparr>))) = [1, 2]"
proof -
  have "rn_last_applied led_node = 0" by (simp add: led_node_def node_init_def Let_def)
  moreover have "mem_wf (rn_storage led_node)"
    by (simp add: mem_wf_def contiguous_def mem_base_def led_node_sel entry_normal_def less_Suc_eq)
  ultimately show ?thesis
    using committed_handed_out_in_order [of "led_node\<lparr>rn_commit_index := 2\<rparr>"]
    by (simp add: led_node_terms mem_base_def led_node_sel upt_rec)
qed

text \<open>C23: A node that restarts forgets its commit index, so a delayed snapshot of its leader, older than
  what the node has, is installed again: its log, with entries it has acknowledged, is dropped and its
  own newer snapshot is replaced.\<close>

theorem stale_snapshot_after_restart:
  assumes "msg_body m = InstallSnapshot li lt vs ls d" "hs_current_term (ms_hard st) \<le> msg_term m"
    and "0 < li" "li < mem_last_index st"
  shows "mem_last_index (rn_storage (step mem_ops (node_new mem_ops cfg st) m)) = li \<and>
    ms_log (rn_storage (step mem_ops (node_new mem_ops cfg st) m)) = [] \<and>
    mem_last_index (rn_storage (step mem_ops (node_new mem_ops cfg st) m)) < mem_last_index (rn_storage (node_new mem_ops cfg st))"
proof -
  let ?nd = "node_new mem_ops cfg st"
  have nd: "rn_storage ?nd = st" "rn_current_term ?nd = hs_current_term (ms_hard st)" "rn_commit_index ?nd = 0"
    by (simp_all add: node_new_def node_init_def mem_hard_state_def Let_def)
  have st: "ms_log (rn_storage (handle_install_snapshot mem_ops n i t sn)) = [] \<and>
      ms_snap (rn_storage (handle_install_snapshot mem_ops n i t sn)) = Some sn"
    if "rn_current_term n \<le> t" "rn_commit_index n < sn_last_included_index sn" for n i t sn
    using that by (simp add: handle_install_snapshot_def mem_apply_snapshot_def Let_def)
  define nd' where "nd' = step mem_ops ?nd m"
  have "ms_log (rn_storage nd') = [] \<and> map_option sn_last_included_index (ms_snap (rn_storage nd')) = Some li"
    unfolding nd'_def step_def Let_def assms(1)
    using assms(2,3) nd st by (cases "rn_current_term ?nd < msg_term m") (simp_all add: become_follower_def Let_def)
  then have "ms_log (rn_storage nd') = [] \<and> mem_last_index (rn_storage nd') = li"
    by (auto simp: mem_last_index_def mem_base_def)
  then show ?thesis unfolding nd'_def using assms(4) nd(1) by simp
qed

theorem stale_snapshot_after_restart_witness:
  "mem_last_index (rn_storage (step mem_ops (node_new mem_ops (config_new 1 [1, 2, 3]) (rn_storage led_node))
     \<lparr>msg_from = 2, msg_to = 1, msg_term = 1, msg_body = InstallSnapshot 1 1 [1, 2, 3] [] []\<rparr>)) = 1"
proof -
  have "hs_current_term (ms_hard (rn_storage led_node)) = 1"
    by (simp add: led_node_def node_init_def Let_def)
  then show ?thesis
    using stale_snapshot_after_restart [of "\<lparr>msg_from = 2, msg_to = 1, msg_term = 1, msg_body = InstallSnapshot 1 1 [1, 2, 3] [] []\<rparr>"
        1 1 "[1, 2, 3]" "[]" "[]" "rn_storage led_node" "config_new 1 [1, 2, 3]"]
    by (simp add: led_node_terms)
qed

text \<open>The records of the Raft log directory decode to what was encoded, when the numbers fit their
  fields: log entries, the hard state, snapshots and the payload of a membership change.\<close>

theorem raft_records_roundtrip:
  "(log_entry_fits e \<longrightarrow> decode_log_entry (word_of_nat (e_index e)) (encode_log_entry e) = Some e) \<and>
   (hs_current_term hs < 2 ^ 64 \<longrightarrow> decode_hard_state (encode_hard_state hs) = hs) \<and>
   (snapshot_fits sn \<longrightarrow> decode_snapshot (encode_snapshot sn) = Some sn) \<and>
   (fits_u32 voters \<longrightarrow> fits_u32 learners \<longrightarrow> cc_decode (cc_encode cc voters learners) = Some (cc, voters, learners))"
  by (simp add: log_entry_roundtrip hard_state_roundtrip snapshot_roundtrip cc_roundtrip)

theorem raft_records_roundtrip_witness:
  "decode_hard_state (encode_hard_state \<lparr>hs_current_term = 3, hs_voted_for = Some 2\<rparr>) = \<lparr>hs_current_term = 3, hs_voted_for = Some 2\<rparr> \<and>
   cc_decode (cc_encode (AddLearner 4) [1, 2] [4]) = Some (AddLearner 4, [1, 2], [4])"
  using raft_records_roundtrip [of "entry_normal 1 1 []" "\<lparr>hs_current_term = 3, hs_voted_for = Some 2\<rparr>"
      "\<lparr>sn_last_included_index = 0, sn_last_included_term = 0, sn_conf_state = [], sn_learners = [], sn_data = []\<rparr>"
      "[1, 2]" "[4]" "AddLearner 4"] by simp

end
