(* ===== verification/Pd_Persist.thy ===== *)
theory Pd_Persist
  imports Encoding
begin

text \<open>
  The byte codec of the placement driver (\<open>pd/src/persist.rs\<close>): big-endian numbers and
  length-prefixed strings read at a cursor, \<open>None\<close> when the buffer ends too soon, and the check of
  \<open>String::from_utf8\<close>. The locale \<open>byte_codec\<close> is what a record type owes to the lists and
  records built from it: whatever was put is got back from any place of any buffer, with the cursor
  behind it. A Rust \<open>String\<close> is the list of its UTF-8 bytes.
\<close>

datatype io_error = IoFailed | InvalidData string | InvalidInput string

type_synonym 'a reader = "bytes \<Rightarrow> nat \<Rightarrow> ('a \<times> nat) option"

section \<open>The codec\<close>

definition put_bytes :: "bytes \<Rightarrow> bytes" where
  "put_bytes bs = u32_to_be (word_of_nat (length bs)) @ bs"

definition get_u32 :: "u32 reader" where
  "get_u32 buf pos = (if pos + 4 \<le> length buf then Some (u32_of_be (slice buf pos (pos + 4)), pos + 4) else None)"

definition get_u64 :: "u64 reader" where
  "get_u64 buf pos = (if pos + 8 \<le> length buf then Some (u64_of_be (slice buf pos (pos + 8)), pos + 8) else None)"

definition get_bytes :: "bytes reader" where
  "get_bytes buf pos = do {
     (len, pos) \<leftarrow> get_u32 buf pos;
     let fin = pos + unat len;
     if fin \<le> length buf then Some (slice buf pos fin, fin) else None
   }"

definition get_byte :: "byte reader" where
  "get_byte buf pos = (if pos < length buf then Some (buf ! pos, pos + 1) else None)"

text \<open>A loop \<open>for _ in 0..n\<close> over one reader.\<close>

fun get_many :: "'a reader \<Rightarrow> nat \<Rightarrow> 'a list reader" where
  "get_many get 0 buf pos = Some ([], pos)"
| "get_many get (Suc n) buf pos = do {
     (x, pos) \<leftarrow> get buf pos;
     (xs, pos) \<leftarrow> get_many get n buf pos;
     Some (x # xs, pos)
   }"

section \<open>UTF-8\<close>

text \<open>Well-formed byte sequences: no overlong forms, no surrogates, nothing above U+10FFFF.\<close>

definition utf8_cont :: "byte \<Rightarrow> bool" where
  "utf8_cont b \<longleftrightarrow> 0x80 \<le> b \<and> b \<le> 0xBF"

fun utf8_second3 :: "byte \<Rightarrow> byte \<Rightarrow> bool" where
  "utf8_second3 a b \<longleftrightarrow> (if a = 0xE0 then 0xA0 \<le> b \<and> b \<le> 0xBF else if a = 0xED then 0x80 \<le> b \<and> b \<le> 0x9F else utf8_cont b)"

fun utf8_second4 :: "byte \<Rightarrow> byte \<Rightarrow> bool" where
  "utf8_second4 a b \<longleftrightarrow> (if a = 0xF0 then 0x90 \<le> b \<and> b \<le> 0xBF else if a = 0xF4 then 0x80 \<le> b \<and> b \<le> 0x8F else utf8_cont b)"

fun valid_utf8 :: "bytes \<Rightarrow> bool" where
  "valid_utf8 [] \<longleftrightarrow> True"
| "valid_utf8 (a # bs) \<longleftrightarrow>
     (if a < 0x80 then valid_utf8 bs
      else if 0xC2 \<le> a \<and> a \<le> 0xDF
      then (case bs of b # cs \<Rightarrow> utf8_cont b \<and> valid_utf8 cs | [] \<Rightarrow> False)
      else if 0xE0 \<le> a \<and> a \<le> 0xEF
      then (case bs of b # c # ds \<Rightarrow> utf8_second3 a b \<and> utf8_cont c \<and> valid_utf8 ds | _ \<Rightarrow> False)
      else if 0xF0 \<le> a \<and> a \<le> 0xF4
      then (case bs of b # c # d # es \<Rightarrow> utf8_second4 a b \<and> utf8_cont c \<and> utf8_cont d \<and> valid_utf8 es | _ \<Rightarrow> False)
      else False)"

definition from_utf8 :: "bytes \<Rightarrow> bytes option" where
  "from_utf8 bs = (if valid_utf8 bs then Some bs else None)"

definition get_string :: "bytes reader" where
  "get_string buf pos = do {
     (bs, pos) \<leftarrow> get_bytes buf pos;
     s \<leftarrow> from_utf8 bs;
     Some (s, pos)
   }"

section \<open>What a reader promises\<close>

text \<open>The rest of the buffer at a cursor.\<close>

definition at_rest :: "bytes \<Rightarrow> nat \<Rightarrow> bytes \<Rightarrow> bool" where
  "at_rest buf pos rest \<longleftrightarrow> pos \<le> length buf \<and> drop pos buf = rest"

definition reads :: "'a reader \<Rightarrow> bytes \<Rightarrow> 'a \<Rightarrow> bool" where
  "reads get bs x \<longleftrightarrow> (\<forall>buf pos rest. at_rest buf pos (bs @ rest) \<longrightarrow> get buf pos = Some (x, pos + length bs))"

lemma at_rest_start [simp]: "at_rest buf 0 buf"
  by (simp add: at_rest_def)

lemma readsD: "reads get bs x \<Longrightarrow> at_rest buf pos (bs @ rest) \<Longrightarrow> get buf pos = Some (x, pos + length bs)"
  unfolding reads_def by blast

lemma at_rest_slice:
  assumes "at_rest buf pos (bs @ rest)" "length bs = n"
  shows "slice buf pos (pos + n) = bs" "pos + n \<le> length buf"
proof -
  show "slice buf pos (pos + n) = bs" using assms by (simp add: slice_def at_rest_def)
  have "length (drop pos buf) = length bs + length rest" "pos \<le> length buf"
    using assms(1) by (simp_all add: at_rest_def)
  then show "pos + n \<le> length buf" using assms(2) by (simp add: le_diff_conv2)
qed

lemma at_rest_next:
  assumes "at_rest buf pos (bs @ rest)"
  shows "at_rest buf (pos + length bs) rest"
proof -
  have "drop (length bs) (drop pos buf) = rest" using assms by (simp add: at_rest_def del: drop_drop)
  then have "drop (pos + length bs) buf = rest" by (simp add: add.commute)
  then show ?thesis using at_rest_slice(2) [OF assms refl] by (simp add: at_rest_def)
qed

lemma reads_u32: "reads get_u32 (u32_to_be w) w"
  unfolding reads_def get_u32_def using at_rest_slice [of _ _ "u32_to_be w" _ 4] by simp

lemma reads_u64: "reads get_u64 (u64_to_be w) w"
  unfolding reads_def get_u64_def using at_rest_slice [of _ _ "u64_to_be w" _ 8] by simp

lemma reads_byte: "reads get_byte [b] b"
proof -
  have "pos < length buf" "buf ! pos = b" if "at_rest buf pos ([b] @ rest)" for buf pos rest
    using that by (auto simp: at_rest_def intro: nth_via_drop) (metis drop_all leI list.distinct(1))
  then show ?thesis unfolding reads_def get_byte_def by fastforce
qed

lemma reads_bytes:
  assumes "fits_u32 bs"
  shows "reads get_bytes (put_bytes bs) bs"
  unfolding reads_def
proof (intro allI impI)
  fix buf pos rest
  assume "at_rest buf pos (put_bytes bs @ rest)"
  then have a: "at_rest buf pos (u32_to_be (word_of_nat (length bs)) @ (bs @ rest))" by (simp add: put_bytes_def)
  have "at_rest buf (pos + 4) (bs @ rest)" using at_rest_next [OF a] by simp
  then show "get_bytes buf pos = Some (bs, pos + length (put_bytes bs))"
    using readsD [OF reads_u32 a] at_rest_slice [of buf "pos + 4" bs rest] assms
    by (simp add: get_bytes_def put_bytes_def Let_def)
qed

lemma reads_string: "fits_u32 bs \<Longrightarrow> valid_utf8 bs \<Longrightarrow> reads get_string (put_bytes bs) bs"
  using reads_bytes [of bs] by (simp add: reads_def get_string_def from_utf8_def)

locale byte_codec =
  fixes put :: "'a \<Rightarrow> bytes" and get :: "'a reader" and fits :: "'a \<Rightarrow> bool"
  assumes reads_put: "fits x \<Longrightarrow> reads get (put x) x"
begin

lemma list_reads:
  assumes "\<forall>x \<in> set xs. fits x"
  shows "reads (get_many get (length xs)) (concat (map put xs)) xs"
  using assms
proof (induction xs)
  case Nil
  then show ?case by (simp add: reads_def)
next
  case (Cons x xs)
  show ?case
    unfolding reads_def
  proof (intro allI impI)
    fix buf pos rest
    assume "at_rest buf pos (concat (map put (x # xs)) @ rest)"
    then have a: "at_rest buf pos (put x @ (concat (map put xs) @ rest))" by simp
    have "get buf pos = Some (x, pos + length (put x))"
      using readsD [OF reads_put a] Cons.prems by simp
    moreover have "get_many get (length xs) buf (pos + length (put x))
        = Some (xs, pos + length (put x) + length (concat (map put xs)))"
      using readsD [OF Cons.IH at_rest_next [OF a]] Cons.prems by simp
    ultimately show "get_many get (length (x # xs)) buf pos
        = Some (x # xs, pos + length (concat (map put (x # xs))))" by simp
  qed
qed

end

interpretation u64_codec: byte_codec u64_to_be get_u64 "\<lambda>_. True"
  by unfold_locales (simp add: reads_u64)

interpretation string_codec: byte_codec put_bytes get_string "\<lambda>bs. fits_u32 bs \<and> valid_utf8 bs"
  by unfold_locales (simp add: reads_string)

end
