(* ===== verification/Tso.thy ===== *)
theory Tso
  imports Pd_Persist
begin

text \<open>
  The timestamp oracle (\<open>pd/src/tso.rs\<close>): hybrid timestamps of milliseconds and a logical counter,
  reserved in windows whose upper end is persisted before a timestamp of the window is handed out.
  Numbers are 64-bit words with the wrap-around of a release build. The wall clock and the outcome
  of the file write are inputs of an allocation. The main result is that over any sequence of
  allocations, failed writes and restarts the ranges handed out are disjoint and increasing.
\<close>

definition WINDOW :: u64 where "WINDOW = 2 ^ 16"

definition LOGICAL_BITS :: nat where "LOGICAL_BITS = 18"

definition ts_split :: "u64 \<Rightarrow> u64 \<times> u64" where
  "ts_split ts = (drop_bit LOGICAL_BITS ts, and ts (push_bit LOGICAL_BITS 1 - 1))"

text \<open>The state of an oracle; \<open>tso_durable\<close> tells whether it has a path, \<open>tso_file\<close> is the file's
  content.\<close>

record tso =
  tso_next :: u64
  tso_high :: u64
  tso_durable :: bool
  tso_file :: "bytes option"

definition tso_ephemeral :: tso where
  "tso_ephemeral = \<lparr>tso_next = 1, tso_high = 0, tso_durable = False, tso_file = None\<rparr>"

definition tso_open :: "bytes option \<Rightarrow> tso" where
  "tso_open f =
     (let (n, u) = (case f of
            Some bs \<Rightarrow> if length bs \<ge> 8 then (let upper = u64_of_be (slice bs 0 8) in (upper, upper)) else (1, 0)
          | None \<Rightarrow> (1, 0))
      in \<lparr>tso_next = n, tso_high = u, tso_durable = True, tso_file = f\<rparr>)"

text \<open>The hybrid step of an allocation.\<close>

definition tso_pull :: "u64 \<Rightarrow> tso \<Rightarrow> tso" where
  "tso_pull now t =
     (let physical_floor = push_bit LOGICAL_BITS now
      in if physical_floor > tso_next t then t\<lparr>tso_next := physical_floor\<rparr> else t)"

definition tso_alloc :: "bool \<Rightarrow> u64 \<Rightarrow> u64 \<Rightarrow> tso \<Rightarrow> tso \<times> (io_error + u64)" where
  "tso_alloc io now count t =
     (let count = max count 1;
          t = tso_pull now t;
          new_upper = tso_next t + count + WINDOW
      in if tso_next t + count > tso_high t
         then
           if tso_durable t
           then
             if io
             then (t\<lparr>tso_file := Some (u64_to_be new_upper), tso_high := new_upper, tso_next := tso_next t + count\<rparr>,
                   Inr (tso_next t))
             else (t, Inl IoFailed)
           else (t\<lparr>tso_high := new_upper, tso_next := tso_next t + count\<rparr>, Inr (tso_next t))
         else (t\<lparr>tso_next := tso_next t + count\<rparr>, Inr (tso_next t)))"

definition tso_now :: "bool \<Rightarrow> u64 \<Rightarrow> tso \<Rightarrow> tso \<times> (io_error + u64)" where
  "tso_now io now t = tso_alloc io now 1 t"

section \<open>Runs\<close>

text \<open>Allocations and restarts of a durable oracle, and the ranges that were handed out.\<close>

datatype tso_event = Alloc bool u64 u64 | Reopen

fun tso_run :: "tso_event list \<Rightarrow> tso \<Rightarrow> (u64 \<times> u64) list" where
  "tso_run [] t = []"
| "tso_run (Alloc io now count # es) t = (case tso_alloc io now count t of
     (t', Inl _) \<Rightarrow> tso_run es t'
   | (t', Inr first) \<Rightarrow> (first, max count 1) # tso_run es t')"
| "tso_run (Reopen # es) t = tso_run es (tso_open (tso_file t))"

fun event_cost :: "tso_event \<Rightarrow> nat" where
  "event_cost (Alloc io now count) = unat count + 1 + 2 ^ 16"
| "event_cost Reopen = 0"

fun event_clock :: "tso_event \<Rightarrow> nat" where
  "event_clock (Alloc io now count) = unat now"
| "event_clock Reopen = 0"

text \<open>\<open>lo\<close> bounds what was handed out so far from above, \<open>hi\<close> bounds the state.\<close>

definition tso_inv :: "nat \<Rightarrow> nat \<Rightarrow> tso \<Rightarrow> bool" where
  "tso_inv lo hi t \<longleftrightarrow> tso_durable t \<and> lo \<le> unat (tso_next t) \<and> unat (tso_next t) \<le> hi \<and> unat (tso_high t) \<le> hi \<and>
     2 ^ 63 \<le> hi \<and>
     (tso_file t = Some (u64_to_be (tso_high t)) \<and> lo \<le> unat (tso_high t) \<or> tso_file t = None \<and> tso_high t = 0 \<and> lo \<le> 1)"

lemma unat_add_small: "unat x + unat y < 2 ^ 64 \<Longrightarrow> unat (x + y) = unat x + unat (y :: u64)"
  by (simp add: unat_word_ariths)

lemma unat_window [simp]: "unat WINDOW = 2 ^ 16"
  by (simp add: WINDOW_def)

lemma unat_floor: "unat now < 2 ^ 45 \<Longrightarrow> unat (push_bit LOGICAL_BITS (now :: u64)) = unat now * 2 ^ 18"
  by (simp add: LOGICAL_BITS_def push_bit_eq_mult unat_word_ariths)

lemma tso_pull_sel [simp]:
  "tso_high (tso_pull now t) = tso_high t" "tso_durable (tso_pull now t) = tso_durable t"
  "tso_file (tso_pull now t) = tso_file t" "tso_next (tso_pull now t) = max (push_bit LOGICAL_BITS now) (tso_next t)"
  by (auto simp: tso_pull_def Let_def max_def)

lemma tso_pull_inv:
  assumes "tso_inv lo hi t" "unat now < 2 ^ 45"
  shows "tso_inv lo hi (tso_pull now t)"
proof -
  have "unat (push_bit LOGICAL_BITS now) \<le> hi" using assms by (simp add: unat_floor tso_inv_def)
  then show ?thesis using assms(1) by (auto simp: tso_inv_def max_def word_le_nat_alt)
qed

lemma unat_max_one: "unat (max count 1) \<le> unat count + 1" "1 \<le> unat (max (count :: u64) 1)"
  by (auto simp: max_def word_le_nat_alt)

lemma tso_alloc_inv:
  assumes "tso_inv lo hi t" "unat now < 2 ^ 45" "hi + unat count + 1 + 2 ^ 16 < 2 ^ 64"
    and "tso_alloc io now count t = (t', r)"
  shows "case r of Inl _ \<Rightarrow> tso_inv lo (hi + unat count + 1 + 2 ^ 16) t'
    | Inr first \<Rightarrow> lo \<le> unat first \<and> tso_inv (unat first + unat (max count 1)) (hi + unat count + 1 + 2 ^ 16) t'"
proof -
  let ?u = "tso_pull now t" and ?c = "max count 1"
  define f c where "f = tso_next ?u" and "c = ?c"
  have inv: "tso_inv lo hi ?u" using assms(1,2) by (rule tso_pull_inv)
  then have b: "unat f \<le> hi" "lo \<le> unat f" by (simp_all only: tso_inv_def f_def)
  have c: "unat c \<le> unat count + 1" unfolding c_def by (rule unat_max_one)
  have n: "unat (f + c) = unat f + unat c" using b c assms(3) by (intro unat_add_small) simp
  then have w: "unat (f + c + WINDOW) = unat f + unat c + 2 ^ 16"
    using b c assms(3) by (subst unat_add_small) simp_all
  have al: "tso_alloc io now count t =
      (if f + c > tso_high ?u
       then if io then (?u\<lparr>tso_file := Some (u64_to_be (f + c + WINDOW)), tso_high := f + c + WINDOW, tso_next := f + c\<rparr>, Inr f)
         else (?u, Inl IoFailed)
       else (?u\<lparr>tso_next := f + c\<rparr>, Inr f))"
    using inv unfolding tso_alloc_def Let_def f_def c_def tso_inv_def by simp
  have "tso_inv lo (hi + unat count + 1 + 2 ^ 16) ?u" using inv unfolding tso_inv_def by linarith
  moreover have "tso_inv (unat f + unat c) (hi + unat count + 1 + 2 ^ 16)
      (?u\<lparr>tso_file := Some (u64_to_be (f + c + WINDOW)), tso_high := f + c + WINDOW, tso_next := f + c\<rparr>)"
    using inv n w b c unfolding tso_inv_def by simp
  moreover have "tso_inv (unat f + unat c) (hi + unat count + 1 + 2 ^ 16) (?u\<lparr>tso_next := f + c\<rparr>)"
    if "\<not> f + c > tso_high ?u"
  proof -
    have "unat f + unat c \<le> unat (tso_high ?u)" using that n by (simp only: not_less word_le_nat_alt)
    moreover have "1 \<le> unat c" unfolding c_def by (rule unat_max_one)
    ultimately show ?thesis using inv n b c unfolding tso_inv_def by auto
  qed
  ultimately show ?thesis using assms(4) b unfolding al c_def [symmetric] by (auto split: if_splits)
qed

lemma tso_open_some [simp]:
  "tso_open (Some (u64_to_be w)) = \<lparr>tso_next = w, tso_high = w, tso_durable = True, tso_file = Some (u64_to_be w)\<rparr>"
  using slice_start [of "u64_to_be w" 8 "[]"] by (simp add: tso_open_def)

lemma tso_open_none [simp]: "tso_open None = \<lparr>tso_next = 1, tso_high = 0, tso_durable = True, tso_file = None\<rparr>"
  by (simp add: tso_open_def)

lemma tso_reopen_inv: "tso_inv lo hi t \<Longrightarrow> tso_inv lo hi (tso_open (tso_file t))"
  by (auto simp: tso_inv_def)

lemma tso_run_grants:
  assumes "tso_inv lo hi t" "\<forall>e \<in> set es. event_clock e < 2 ^ 45" "hi + sum_list (map event_cost es) < 2 ^ 64"
  shows "sorted_wrt (\<lambda>(a, m) (b, n). unat a + unat m \<le> unat b) (tso_run es t)"
    and "(b, n) \<in> set (tso_run es t) \<Longrightarrow> lo \<le> unat b"
proof -
  have "sorted_wrt (\<lambda>(a, m) (b, n). unat a + unat m \<le> unat b) (tso_run es t) \<and> (\<forall>(b, n) \<in> set (tso_run es t). lo \<le> unat b)"
    using assms
  proof (induction es t arbitrary: lo hi rule: tso_run.induct)
    case (2 io now count es t)
    obtain t' r where al: "tso_alloc io now count t = (t', r)" by fastforce
    let ?hi = "hi + unat count + 1 + 2 ^ 16"
    have hi: "?hi + sum_list (map event_cost es) < 2 ^ 64" and now: "unat now < 2 ^ 45" using 2(4,5) by simp_all
    have inv: "case r of Inl _ \<Rightarrow> tso_inv lo ?hi t'
        | Inr first \<Rightarrow> lo \<le> unat first \<and> tso_inv (unat first + unat (max count 1)) ?hi t'"
      using tso_alloc_inv [OF 2(3) now _ al] hi by simp
    show ?case
    proof (cases r)
      case (Inl e)
      with inv 2(1) [OF al [symmetric], of e lo ?hi] al hi 2(4) show ?thesis by simp
    next
      case (Inr first)
      with inv have "tso_inv (unat first + unat (max count 1)) ?hi t'" "lo \<le> unat first" by simp_all
      with 2(2) [OF al [symmetric] Inr this(1)] al hi 2(4) Inr show ?thesis by fastforce
    qed
  next
    case (3 es t)
    show ?case using 3(1) [OF tso_reopen_inv [OF 3(2)]] 3(3,4) by simp
  qed simp
  then show "sorted_wrt (\<lambda>(a, m) (b, n). unat a + unat m \<le> unat b) (tso_run es t)"
    and "(b, n) \<in> set (tso_run es t) \<Longrightarrow> lo \<le> unat b" by auto
qed

text \<open>C24: Timestamps. Over any sequence of allocations, failed writes of the watermark, crashes and
  restarts of the oracle, every range handed out lies above all earlier ones, so no timestamp is
  handed out twice and none goes back, whatever the wall clock does. The clock stays below \<open>2 ^ 45\<close>
  milliseconds and fewer than \<open>2 ^ 63\<close> timestamps are reserved, so the 64-bit counter does not wrap.\<close>

theorem timestamps_increase:
  assumes "\<forall>e \<in> set es. event_clock e < 2 ^ 45" "sum_list (map event_cost es) < 2 ^ 63"
  shows "sorted_wrt (\<lambda>(a, m) (b, n). unat a + unat m \<le> unat b) (tso_run es (tso_open None))"
proof (rule tso_run_grants)
  show "tso_inv 1 (2 ^ 63) (tso_open None)" by (simp add: tso_inv_def tso_open_def)
qed (use assms in simp_all)

theorem timestamps_increase_witness:
  "tso_run [Alloc True 1 3, Reopen, Alloc False 2 1, Alloc True 0 1] (tso_open None) = [(0x40000, 3), (0x80000, 1)] \<and>
   sorted_wrt (\<lambda>(a, m) (b, n). unat a + unat m \<le> unat b) [(0x40000 :: u64, 3 :: u64), (0x80000, 1)]"
proof -
  let ?es = "[Alloc True 1 3, Reopen, Alloc False 2 1, Alloc True 0 1]"
  have run: "tso_run ?es (tso_open None) = [(0x40000, 3), (0x80000, 1)]"
    by (simp add: tso_alloc_def tso_pull_def LOGICAL_BITS_def WINDOW_def max_def word_le_nat_alt Let_def)
  show ?thesis using timestamps_increase [of ?es] unfolding run by simp
qed

lemma ts_split_parts:
  "unat (fst (ts_split ts)) = unat ts div 2 ^ 18" "unat (snd (ts_split ts)) = unat ts mod 2 ^ 18"
proof -
  have "push_bit LOGICAL_BITS 1 - 1 = (mask 18 :: u64)" by (simp add: LOGICAL_BITS_def mask_eq_exp_minus_1 push_bit_of_1)
  then have "snd (ts_split ts) = take_bit 18 ts" unfolding ts_split_def by (simp only: snd_conv take_bit_eq_mask)
  then have "unat (snd (ts_split ts)) = take_bit 18 (unat ts)" by (simp only: unsigned_take_bit_eq)
  then show "unat (snd (ts_split ts)) = unat ts mod 2 ^ 18" by (simp only: take_bit_eq_mod)
  show "unat (fst (ts_split ts)) = unat ts div 2 ^ 18"
    by (simp add: ts_split_def LOGICAL_BITS_def drop_bit_eq_div unat_div_distrib)
qed

text \<open>C25: Bounds of one allocation. A timestamp is at least the wall clock's, its physical part is at
  least the clock's milliseconds, the watermark is above the whole range that was handed out, and both
  halves of a timestamp put together give it back.\<close>

theorem timestamp_bounds:
  assumes "tso_alloc io now count t = (t', Inr first)" "unat now < 2 ^ 45"
    and "unat (tso_next t) < 2 ^ 63" "unat count < 2 ^ 62"
  shows "unat now * 2 ^ 18 \<le> unat first \<and> now \<le> fst (ts_split first) \<and>
    unat first + unat (max count 1) \<le> unat (tso_high t') \<and> unat (tso_next t') = unat first + unat (max count 1) \<and>
    unat (fst (ts_split first)) * 2 ^ 18 + unat (snd (ts_split first)) = unat first"
proof -
  define f c where "f = tso_next (tso_pull now t)" and "c = max count 1"
  have f: "unat now * 2 ^ 18 \<le> unat f" "unat f < 2 ^ 63"
    using assms(2,3) unat_floor [OF assms(2)] by (auto simp: f_def max_def word_le_nat_alt)
  have c: "unat c \<le> 2 ^ 62" using unat_max_one(1) [of count] assms(4) by (simp add: c_def)
  have n: "unat (f + c) = unat f + unat c" using f c by (intro unat_add_small) simp
  then have w: "unat (f + c + WINDOW) = unat f + unat c + 2 ^ 16" using f c by (subst unat_add_small) simp_all
  have r: "first = f" "tso_next t' = f + c" "tso_high t' = f + c + WINDOW \<or> \<not> f + c > tso_high t \<and> tso_high t' = tso_high t"
    using assms(1) unfolding tso_alloc_def Let_def f_def [symmetric] c_def [symmetric] by (auto split: if_splits)
  then have "unat f + unat c \<le> unat (tso_high t')" using n w by (auto simp: not_less word_le_nat_alt)
  moreover have "unat now \<le> unat f div 2 ^ 18" using div_le_mono [OF f(1), of "2 ^ 18"] by simp
  ultimately show ?thesis
    unfolding r(1,2) c_def [symmetric] n word_le_nat_alt ts_split_parts using f(1) by simp
qed

theorem timestamp_bounds_witness:
  "fst (ts_split 0x40000) = 1 \<and> 1 \<le> fst (ts_split 0x40000) \<and> unat (tso_next (fst (tso_alloc True 1 3 (tso_open None)))) = 0x40003"
proof -
  have al: "tso_alloc True 1 3 (tso_open None) = (fst (tso_alloc True 1 3 (tso_open None)), Inr 0x40000)"
    by (simp add: tso_alloc_def tso_pull_def LOGICAL_BITS_def WINDOW_def max_def word_le_nat_alt Let_def)
  have "fst (ts_split 0x40000) = 1" by (simp add: ts_split_def LOGICAL_BITS_def)
  then show ?thesis using timestamp_bounds [OF al] by (simp add: tso_open_def)
qed

end
