(* ===== verification/Regions.thy ===== *)
theory Regions
  imports Pd_Persist "HOL-Library.Sublist"
begin

text \<open>
  Regions and the registry that owns them (\<open>pd/src/region.rs\<close>): half-open key ranges with an id and
  an epoch, routing, split and merge, adoption of an assignment, the table image on disk, and the
  numeric table prefixes that fix region boundaries. The outcome of a file write is an input of the
  operations that persist; a failed write leaves the change in memory, as the code does.
\<close>

section \<open>Regions and tables\<close>

record region =
  rg_id :: u64
  rg_start :: bytes
  rg_end :: bytes
  rg_epoch :: u64

definition region_contains :: "region \<Rightarrow> bytes \<Rightarrow> bool" where
  "region_contains r key \<longleftrightarrow> rg_start r \<le> key \<and> (rg_end r = [] \<or> key < rg_end r)"

definition whole_keyspace :: "u64 \<Rightarrow> region" where
  "whole_keyspace i = \<lparr>rg_id = i, rg_start = [], rg_end = [], rg_epoch = 1\<rparr>"

definition region_id :: "u64 \<Rightarrow> u64 \<Rightarrow> u64" where
  "region_id node local_id = or (push_bit 32 node) (and local_id 0xFFFFFFFF)"

type_synonym table_id = u32

definition DEFAULT_TABLE_ID :: table_id where "DEFAULT_TABLE_ID = 0"

definition DEFAULT_TABLE_NAME :: bytes where
  "DEFAULT_TABLE_NAME = [0x64, 0x65, 0x66, 0x61, 0x75, 0x6C, 0x74]"

definition TABLE_PREFIX_LEN :: nat where "TABLE_PREFIX_LEN = 4"

definition table_prefix :: "table_id \<Rightarrow> bytes" where
  "table_prefix t = u32_to_be t"

definition table_key :: "table_id \<Rightarrow> bytes \<Rightarrow> bytes" where
  "table_key t user_key = table_prefix t @ user_key"

definition table_range :: "table_id \<Rightarrow> bytes \<times> bytes" where
  "table_range t = (table_prefix t, if t = - 1 then [] else table_prefix (t + 1))"

definition table_id_of :: "bytes \<Rightarrow> table_id" where
  "table_id_of stored = (if length stored < TABLE_PREFIX_LEN then DEFAULT_TABLE_ID
     else u32_of_be (take TABLE_PREFIX_LEN stored))"

definition strip_table_prefix :: "bytes \<Rightarrow> bytes" where
  "strip_table_prefix stored = drop TABLE_PREFIX_LEN stored"

definition name_prefix :: "bytes \<Rightarrow> bytes" where
  "name_prefix name = (if name = [] then [] else name @ [0x2F])"

text \<open>The loop of \<open>prefix_successor\<close>, on the prefix read from its end.\<close>

fun bump_last :: "bytes \<Rightarrow> bytes option" where
  "bump_last [] = None"
| "bump_last (b # rest) = (if b < 0xFF then Some (rev ((b + 1) # rest)) else bump_last rest)"

definition prefix_successor :: "bytes \<Rightarrow> bytes option" where
  "prefix_successor pre = bump_last (rev pre)"

section \<open>The registry\<close>

record registry =
  rr_regions :: "region list"
  rr_next_id :: u64
  rr_durable :: bool
  rr_file :: "bytes option"

definition registry_in_memory :: registry where
  "registry_in_memory = \<lparr>rr_regions = [whole_keyspace 1], rr_next_id = 2, rr_durable = False, rr_file = None\<rparr>"

definition registry_empty :: registry where
  "registry_empty = \<lparr>rr_regions = [], rr_next_id = 1, rr_durable = False, rr_file = None\<rparr>"

definition put_region :: "region \<Rightarrow> bytes" where
  "put_region r = u64_to_be (rg_id r) @ u64_to_be (rg_epoch r) @ put_bytes (rg_start r) @ put_bytes (rg_end r)"

definition get_region :: "region reader" where
  "get_region buf pos = do {
     (i, pos) \<leftarrow> get_u64 buf pos;
     (epoch, pos) \<leftarrow> get_u64 buf pos;
     (start, pos) \<leftarrow> get_bytes buf pos;
     (fin, pos) \<leftarrow> get_bytes buf pos;
     Some (\<lparr>rg_id = i, rg_start = start, rg_end = fin, rg_epoch = epoch\<rparr>, pos)
   }"

definition encode_regions :: "region list \<times> u64 \<Rightarrow> bytes" where
  "encode_regions s = u64_to_be (snd s) @ u32_to_be (word_of_nat (length (fst s))) @ concat (map put_region (fst s))"

definition decode_regions :: "bytes \<Rightarrow> (region list \<times> u64) option" where
  "decode_regions buf = do {
     (next_id, pos) \<leftarrow> get_u64 buf 0;
     (count, pos) \<leftarrow> get_u32 buf pos;
     (regions, pos) \<leftarrow> get_many get_region (unat count) buf pos;
     Some (regions, next_id)
   }"

definition registry_persist :: "bool \<Rightarrow> registry \<Rightarrow> registry \<times> (io_error + unit)" where
  "registry_persist io g =
     (if \<not> rr_durable g then (g, Inr ())
      else if io then (g\<lparr>rr_file := Some (encode_regions (rr_regions g, rr_next_id g))\<rparr>, Inr ())
      else (g, Inl IoFailed))"

definition registry_open_inner :: "bool \<Rightarrow> bytes option \<Rightarrow> bool \<Rightarrow> u64 \<Rightarrow> io_error + registry" where
  "registry_open_inner io f bootstrap empty_next_id =
     res_bind
       (case f of
          Some bs \<Rightarrow> ok_or (decode_regions bs) (InvalidData ''region table corrupt'')
        | None \<Rightarrow> Inr (if bootstrap then ([whole_keyspace 1], 2) else ([], empty_next_id)))
       (\<lambda>(rs, n). case registry_persist io \<lparr>rr_regions = rs, rr_next_id = n, rr_durable = True, rr_file = f\<rparr> of
          (g, Inr _) \<Rightarrow> Inr g
        | (g, Inl e) \<Rightarrow> Inl e)"

definition registry_open :: "bool \<Rightarrow> bytes option \<Rightarrow> io_error + registry" where
  "registry_open io f = registry_open_inner io f True 2"

definition registry_open_empty :: "bool \<Rightarrow> bytes option \<Rightarrow> u64 \<Rightarrow> io_error + registry" where
  "registry_open_empty io f node = registry_open_inner io f False (region_id node 1)"

definition registry_route :: "registry \<Rightarrow> bytes \<Rightarrow> region option" where
  "registry_route g key = find (\<lambda>r. region_contains r key) (rr_regions g)"

definition registry_by_id :: "registry \<Rightarrow> u64 \<Rightarrow> region option" where
  "registry_by_id g i = find (\<lambda>r. rg_id r = i) (rr_regions g)"

text \<open>\<open>Iterator::position\<close>.\<close>

fun position :: "('a \<Rightarrow> bool) \<Rightarrow> 'a list \<Rightarrow> nat option" where
  "position P [] = None"
| "position P (x # xs) = (if P x then Some 0 else map_option Suc (position P xs))"

definition registry_split :: "bool \<Rightarrow> registry \<Rightarrow> bytes \<Rightarrow> registry \<times> (io_error + region \<times> region)" where
  "registry_split io g split_key = (case position (\<lambda>r. region_contains r split_key) (rr_regions g) of
     None \<Rightarrow> (g, Inl (InvalidInput ''split_key is outside every region''))
   | Some idx \<Rightarrow>
       let target = rr_regions g ! idx
       in if split_key \<le> rg_start target
          then (g, Inl (InvalidInput ''split_key must be strictly greater than the region start''))
          else
            let new_epoch = rg_epoch target + 1;
                left = \<lparr>rg_id = rg_id target, rg_start = rg_start target, rg_end = split_key, rg_epoch = new_epoch\<rparr>;
                right = \<lparr>rg_id = rr_next_id g, rg_start = split_key, rg_end = rg_end target, rg_epoch = new_epoch\<rparr>;
                g = g\<lparr>rr_next_id := rr_next_id g + 1,
                      rr_regions := take idx (rr_regions g) @ [left, right] @ drop (idx + 1) (rr_regions g)\<rparr>
            in case registry_persist io g of
                 (g, Inl e) \<Rightarrow> (g, Inl e)
               | (g, Inr _) \<Rightarrow> (g, Inr (left, right)))"

definition registry_merge :: "bool \<Rightarrow> registry \<Rightarrow> bytes \<Rightarrow> registry \<times> (io_error + region)" where
  "registry_merge io g boundary = (case position (\<lambda>r. rg_start r = boundary) (rr_regions g) of
     None \<Rightarrow> (g, Inl (InvalidInput ''boundary is not a region start''))
   | Some idx \<Rightarrow>
       if idx = 0
       then (g, Inl (InvalidInput ''the left-most region has no left neighbour to merge with''))
       else
         let left = rr_regions g ! (idx - 1);
             right = rr_regions g ! idx;
             merged = \<lparr>rg_id = rg_id left, rg_start = rg_start left, rg_end = rg_end right,
                       rg_epoch = max (rg_epoch left) (rg_epoch right) + 1\<rparr>;
             g = g\<lparr>rr_regions := take (idx - 1) (rr_regions g) @ [merged] @ drop (idx + 1) (rr_regions g)\<rparr>
         in case registry_persist io g of
              (g, Inl e) \<Rightarrow> (g, Inl e)
            | (g, Inr _) \<Rightarrow> (g, Inr merged))"

definition registry_replace :: "registry \<Rightarrow> region list \<Rightarrow> registry" where
  "registry_replace g regions =
     (let regions = sort_key rg_start regions
      in g\<lparr>rr_next_id := max (rr_next_id g) (if regions = [] then 1 else Max ((\<lambda>r. rg_id r + 1) ` set regions)),
           rr_regions := regions\<rparr>)"

definition registry_adopt :: "bool \<Rightarrow> registry \<Rightarrow> region list \<Rightarrow> registry \<times> (io_error + unit)" where
  "registry_adopt io g regions = registry_persist io (registry_replace g regions)"

definition registry_decode_from :: "registry \<Rightarrow> bytes \<Rightarrow> registry \<times> bool" where
  "registry_decode_from g bs = (case decode_regions bs of
     Some (rs, n) \<Rightarrow> (g\<lparr>rr_regions := rs, rr_next_id := n\<rparr>, True)
   | None \<Rightarrow> (g, False))"

section \<open>Tilings of the keyspace\<close>

text \<open>Adjacent regions from \<open>lo\<close> up to \<open>hi\<close>, and regions that cover every key from \<open>lo\<close> on, each once.\<close>

fun chain :: "bytes \<Rightarrow> region list \<Rightarrow> bytes \<Rightarrow> bool" where
  "chain lo [] hi \<longleftrightarrow> lo = hi"
| "chain lo (r # rs) hi \<longleftrightarrow> rg_start r = lo \<and> lo < rg_end r \<and> chain (rg_end r) rs hi"

fun tiles :: "bytes \<Rightarrow> region list \<Rightarrow> bool" where
  "tiles lo [] \<longleftrightarrow> False"
| "tiles lo (r # rs) \<longleftrightarrow> rg_start r = lo \<and> (if rs = [] then rg_end r = [] else lo < rg_end r \<and> tiles (rg_end r) rs)"

lemma tiles_append:
  "tiles lo (xs @ r # ys) \<longleftrightarrow> chain lo xs (rg_start r) \<and> tiles (rg_start r) (r # ys)"
  by (induction xs arbitrary: lo) (auto simp: neq_Nil_conv)

lemma chain_le: "chain lo rs hi \<Longrightarrow> lo \<le> hi"
  by (induction rs arbitrary: lo) (auto, meson less_le_not_le order.trans)

lemma chain_below: "chain lo rs hi \<Longrightarrow> r \<in> set rs \<Longrightarrow> hi \<le> key \<Longrightarrow> \<not> region_contains r key"
proof (induction rs arbitrary: lo)
  case (Cons q rs)
  have "rg_end q \<le> hi" using Cons.prems(1) chain_le [of "rg_end q" rs hi] by simp
  then show ?case using Cons by (auto simp: region_contains_def)
qed simp

lemma tiles_above: "tiles lo rs \<Longrightarrow> r \<in> set rs \<Longrightarrow> lo \<le> rg_start r"
  by (induction rs arbitrary: lo) (auto split: if_splits, meson less_le_not_le order.trans)

lemma tiles_member:
  assumes "tiles lo (xs @ r # ys)" "region_contains r key" "q \<in> set xs \<or> q \<in> set ys"
  shows "\<not> region_contains q key"
proof (cases "q \<in> set xs")
  case True
  then show ?thesis
    using chain_below [of lo xs "rg_start r" q key] assms(1,2) by (simp add: tiles_append region_contains_def)
next
  case False
  then have "q \<in> set ys" "tiles (rg_end r) ys" "rg_end r \<noteq> []" using assms(1,3)
    by (auto simp: tiles_append split: if_splits)
  then have "rg_end r \<le> rg_start q" "key < rg_end r" using tiles_above assms(2) by (auto simp: region_contains_def)
  then show ?thesis by (auto simp: region_contains_def)
qed

lemma tiles_total: "tiles lo rs \<Longrightarrow> lo \<le> key \<Longrightarrow> \<exists>r \<in> set rs. region_contains r key"
proof (induction rs arbitrary: lo)
  case (Cons r rs)
  then show ?case by (cases "key < rg_end r") (auto simp: region_contains_def not_less split: if_splits)
qed simp

lemma position_split:
  "position P rs = Some i \<Longrightarrow> \<exists>xs y ys. rs = xs @ y # ys \<and> length xs = i \<and> P y \<and> (\<forall>x \<in> set xs. \<not> P x)"
proof (induction rs arbitrary: i)
  case (Cons r rs)
  show ?case
  proof (cases "P r")
    case False
    then obtain j where j: "position P rs = Some j" "i = Suc j" using Cons.prems by auto
    obtain xs y ys where "rs = xs @ y # ys" "length xs = j" "P y" "\<forall>x \<in> set xs. \<not> P x" using Cons.IH [OF j(1)] by blast
    then show ?thesis using False j(2) by (intro exI [of _ "r # xs"] exI [of _ y] exI [of _ ys]) simp
  qed (use Cons.prems in \<open>auto intro: exI [of _ "[]"]\<close>)
qed simp

lemma position_append: "\<forall>u \<in> set us. \<not> P u \<Longrightarrow> P v \<Longrightarrow> position P (us @ v # vs) = Some (length us)"
  by (induction us) auto

lemma position_None: "position P rs = None \<longleftrightarrow> (\<forall>x \<in> set rs. \<not> P x)"
  by (induction rs) auto

lemma find_split: "rs = xs @ r # ys \<Longrightarrow> P r \<Longrightarrow> \<forall>x \<in> set xs. \<not> P x \<Longrightarrow> find P rs = Some r"
  by (induction xs arbitrary: rs) auto

lemma tiles_start_unique:
  assumes "tiles lo (xs @ r # ys)" "q \<in> set xs"
  shows "rg_start q < rg_start r"
proof -
  have "chain lo xs (rg_start r)" using assms(1) by (simp add: tiles_append)
  then show ?thesis using assms(2)
  proof (induction xs arbitrary: lo)
    case (Cons p xs)
    then have "rg_end p \<le> rg_start r" using chain_le by auto
    then show ?case using Cons by (cases "q = p") auto
  qed simp
qed

section \<open>The registry's invariant\<close>

definition registry_ok :: "registry \<Rightarrow> bool" where
  "registry_ok g \<longleftrightarrow> tiles [] (rr_regions g) \<and> distinct (map rg_id (rr_regions g)) \<and>
     (\<forall>r \<in> set (rr_regions g). rg_id r < rr_next_id g)"

lemma registry_ok_in_memory: "registry_ok registry_in_memory"
  by (simp add: registry_ok_def registry_in_memory_def whole_keyspace_def)

lemma route_tiles:
  assumes "tiles [] (xs @ r # ys)" "region_contains r key" "rr_regions g = xs @ r # ys"
  shows "registry_route g key = Some r"
  unfolding registry_route_def using assms tiles_member [OF assms(1,2)] by (intro find_split) auto

lemma route_unique:
  assumes "tiles [] (rr_regions g)"
  shows "registry_route g key = Some r \<longleftrightarrow> r \<in> set (rr_regions g) \<and> region_contains r key"
proof
  assume "registry_route g key = Some r"
  then show "r \<in> set (rr_regions g) \<and> region_contains r key" by (auto simp: registry_route_def find_Some_iff)
next
  assume "r \<in> set (rr_regions g) \<and> region_contains r key"
  then show "registry_route g key = Some r"
    using assms route_tiles split_list [of r "rr_regions g"] by metis
qed

lemma route_total: "tiles [] (rr_regions g) \<Longrightarrow> \<exists>r. registry_route g key = Some r"
  using tiles_total [of "[]" "rr_regions g" key] route_unique by fastforce

lemma split_position:
  assumes "tiles [] rs"
  obtains xs r ys where "rs = xs @ r # ys" "region_contains r key"
    "position (\<lambda>r. region_contains r key) rs = Some (length xs)"
proof -
  obtain r where "r \<in> set rs" "region_contains r key" using tiles_total [OF assms, of key] by auto
  then obtain i where i: "position (\<lambda>r. region_contains r key) rs = Some i"
    using position_None [of "\<lambda>r. region_contains r key" rs] by (cases "position (\<lambda>r. region_contains r key) rs") auto
  show thesis using position_split [OF i] i that by blast
qed

definition split_left :: "region \<Rightarrow> bytes \<Rightarrow> region" where
  "split_left t key = \<lparr>rg_id = rg_id t, rg_start = rg_start t, rg_end = key, rg_epoch = rg_epoch t + 1\<rparr>"

definition split_right :: "registry \<Rightarrow> region \<Rightarrow> bytes \<Rightarrow> region" where
  "split_right g t key = \<lparr>rg_id = rr_next_id g, rg_start = key, rg_end = rg_end t, rg_epoch = rg_epoch t + 1\<rparr>"

lemma persist_sel [simp]:
  "rr_regions (fst (registry_persist io g)) = rr_regions g" "rr_next_id (fst (registry_persist io g)) = rr_next_id g"
  "rr_durable (fst (registry_persist io g)) = rr_durable g"
  by (simp_all add: registry_persist_def)

lemma split_regions:
  assumes "rr_regions g = xs @ t # ys" "position (\<lambda>r. region_contains r key) (rr_regions g) = Some (length xs)"
    and "rg_start t < key"
  shows "rr_regions (fst (registry_split io g key)) = xs @ [split_left t key, split_right g t key] @ ys"
    and "rr_next_id (fst (registry_split io g key)) = rr_next_id g + 1"
    and "snd (registry_split io g key) = Inl IoFailed \<or>
      snd (registry_split io g key) = Inr (split_left t key, split_right g t key)"
proof -
  let ?g = "g\<lparr>rr_next_id := rr_next_id g + 1, rr_regions := xs @ [split_left t key, split_right g t key] @ ys\<rparr>"
  have s: "registry_split io g key = (case registry_persist io ?g of
      (g', Inl e) \<Rightarrow> (g', Inl e) | (g', Inr _) \<Rightarrow> (g', Inr (split_left t key, split_right g t key)))"
    unfolding registry_split_def Let_def split_left_def split_right_def using assms by (simp add: not_le [symmetric])
  obtain g' r where p: "registry_persist io ?g = (g', r)" by fastforce
  then have "rr_regions g' = xs @ [split_left t key, split_right g t key] @ ys" "rr_next_id g' = rr_next_id g + 1"
    using persist_sel [of io ?g] by simp_all
  moreover have "r = Inl IoFailed \<or> r = Inr ()" using p by (auto simp: registry_persist_def split: if_splits)
  ultimately show "rr_regions (fst (registry_split io g key)) = xs @ [split_left t key, split_right g t key] @ ys"
    "rr_next_id (fst (registry_split io g key)) = rr_next_id g + 1"
    "snd (registry_split io g key) = Inl IoFailed \<or>
      snd (registry_split io g key) = Inr (split_left t key, split_right g t key)"
    unfolding s p by auto
qed

lemma tiles_split:
  assumes "tiles [] (xs @ t # ys)" "region_contains t key" "rg_start t < key"
  shows "tiles [] (xs @ [split_left t key, split_right g t key] @ ys)"
  using assms
  by (auto simp: tiles_append split_left_def split_right_def region_contains_def split: if_splits)

lemma split_contains:
  assumes "rg_start t < key" "region_contains t key"
  shows "region_contains (split_left t key) k \<longleftrightarrow> region_contains t k \<and> k < key"
    and "region_contains (split_right g t key) k \<longleftrightarrow> region_contains t k \<and> key \<le> k"
  using assms by (auto simp: region_contains_def split_left_def split_right_def)

lemma u64_less_Suc: "(w :: u64) \<noteq> - 1 \<Longrightarrow> w < w + 1"
  using unat_u64_lt [of w] unat_u64_max by (simp add: word_less_nat_alt unat_word_ariths word_unat_eq_iff)

lemma registry_ok_split:
  assumes ok: "registry_ok g" and room: "rr_next_id g \<noteq> - 1"
  shows "registry_ok (fst (registry_split io g key))"
proof -
  obtain xs t ys where rs: "rr_regions g = xs @ t # ys" "region_contains t key"
    and pos: "position (\<lambda>r. region_contains r key) (rr_regions g) = Some (length xs)"
    using split_position ok unfolding registry_ok_def by metis
  show ?thesis
  proof (cases "rg_start t < key")
    case True
    then show ?thesis
      using ok u64_less_Suc [OF room] tiles_split [of xs t ys key g] rs True unfolding registry_ok_def split_regions [OF rs(1) pos True]
      by (auto simp: split_left_def split_right_def intro: less_trans)
  next
    case False
    then show ?thesis using ok rs pos by (simp add: registry_split_def Let_def not_less)
  qed
qed

lemma split_target:
  assumes ok: "registry_ok g" and t: "registry_route g key = Some t"
  obtains xs ys where "rr_regions g = xs @ t # ys" "tiles [] (xs @ t # ys)" "region_contains t key"
    "position (\<lambda>r. region_contains r key) (rr_regions g) = Some (length xs)"
proof -
  have tl: "tiles [] (rr_regions g)" using ok by (simp add: registry_ok_def)
  then obtain xs r ys where rs: "rr_regions g = xs @ r # ys" "region_contains r key"
    "position (\<lambda>r. region_contains r key) (rr_regions g) = Some (length xs)" by (rule split_position)
  then have "r = t" using route_tiles [of xs r ys key g] tl t by simp
  then show thesis using that rs tl by simp
qed

lemma split_route:
  assumes ok: "registry_ok g" and t: "registry_route g key = Some t" "rg_start t < key"
  shows "registry_route (fst (registry_split io g key)) k =
    (if region_contains t k then Some (if k < key then split_left t key else split_right g t key) else registry_route g k)"
proof -
  obtain xs ys where rs: "rr_regions g = xs @ t # ys" "tiles [] (xs @ t # ys)" "region_contains t key"
    and pos: "position (\<lambda>r. region_contains r key) (rr_regions g) = Some (length xs)"
    using split_target [OF ok t(1)] by metis
  let ?g = "fst (registry_split io g key)"
  have rs': "rr_regions ?g = xs @ [split_left t key, split_right g t key] @ ys"
    by (rule split_regions [OF rs(1) pos t(2)])
  then have tl': "tiles [] (rr_regions ?g)" using tiles_split [OF rs(2,3) t(2)] by simp
  have tl: "tiles [] (rr_regions g)" using rs by simp
  show ?thesis
  proof (cases "region_contains t k")
    case True
    then have "registry_route ?g k = Some (if k < key then split_left t key else split_right g t key)"
      unfolding route_unique [OF tl'] using rs' split_contains [OF t(2) rs(3)] by (simp add: not_less)
    then show ?thesis using True by simp
  next
    case False
    obtain r where r: "registry_route g k = Some r" using route_total [OF tl] by blast
    then have "r \<in> set xs \<union> set ys" "region_contains r k" using False rs(1) unfolding route_unique [OF tl] by auto
    then have "registry_route ?g k = Some r" unfolding route_unique [OF tl'] using rs' by auto
    then show ?thesis using False r by simp
  qed
qed

lemma merge_regions:
  assumes "rr_regions g = xs @ [l, r] @ ys" "position (\<lambda>q. rg_start q = key) (rr_regions g) = Some (Suc (length xs))"
  shows "rr_regions (fst (registry_merge io g key)) = xs @ \<lparr>rg_id = rg_id l, rg_start = rg_start l, rg_end = rg_end r,
    rg_epoch = max (rg_epoch l) (rg_epoch r) + 1\<rparr> # ys"
proof -
  have "rr_regions g ! length xs = l" "rr_regions g ! Suc (length xs) = r" using assms(1) by (simp_all add: nth_append)
  then show ?thesis
    unfolding registry_merge_def assms(2) using assms(1) by (simp add: registry_persist_def Let_def)
qed



section \<open>The table image\<close>

definition region_fits :: "region \<Rightarrow> bool" where
  "region_fits r \<longleftrightarrow> fits_u32 (rg_start r) \<and> fits_u32 (rg_end r)"

lemma reads_region:
  assumes "region_fits r"
  shows "reads get_region (put_region r) r"
  unfolding reads_def
proof (intro allI impI)
  fix buf pos rest
  assume "at_rest buf pos (put_region r @ rest)"
  then have a: "at_rest buf pos (u64_to_be (rg_id r) @ u64_to_be (rg_epoch r) @ put_bytes (rg_start r) @ put_bytes (rg_end r) @ rest)"
    by (simp add: put_region_def)
  note b = at_rest_next [OF a] note c = at_rest_next [OF b] note d = at_rest_next [OF c]
  have "fits_u32 (rg_start r)" "fits_u32 (rg_end r)" using assms by (simp_all add: region_fits_def)
  then show "get_region buf pos = Some (r, pos + length (put_region r))"
    using readsD [OF reads_u64 a] readsD [OF reads_u64 b] readsD [OF reads_bytes c] readsD [OF reads_bytes d]
    by (simp add: get_region_def put_region_def)
qed

interpretation region_codec: byte_codec put_region get_region region_fits
  by unfold_locales (rule reads_region)

definition regions_fit :: "region list \<Rightarrow> bool" where
  "regions_fit rs \<longleftrightarrow> fits_u32 rs \<and> (\<forall>r \<in> set rs. region_fits r)"

text \<open>Bytes behind the image do not matter: the decoder stops after the last region.\<close>

lemma decode_encode_regions:
  assumes "regions_fit rs"
  shows "decode_regions (encode_regions (rs, n) @ rest) = Some (rs, n)"
proof -
  let ?buf = "encode_regions (rs, n) @ rest"
  have a: "at_rest ?buf 0 (u64_to_be n @ u32_to_be (word_of_nat (length rs)) @ concat (map put_region rs) @ rest)"
    by (simp add: encode_regions_def at_rest_def)
  note b = at_rest_next [OF a] note c = at_rest_next [OF b]
  have f: "\<forall>r \<in> set rs. region_fits r" "fits_u32 rs" using assms by (simp_all add: regions_fit_def)
  show ?thesis
    using readsD [OF reads_u64 a] readsD [OF reads_u32 b] readsD [OF region_codec.list_reads [OF f(1)] c] f(2)
    by (simp add: decode_regions_def)
qed

lemma registry_reopens:
  assumes "regions_fit (rr_regions g)" "rr_file g = Some (encode_regions (rr_regions g, rr_next_id g))" "rr_durable g"
  shows "registry_open True (rr_file g) = Inr g"
  using assms decode_encode_regions [OF assms(1), of "rr_next_id g" "[]"]
  by (cases g) (simp add: registry_open_def registry_open_inner_def registry_persist_def)

section \<open>Prefix ranges\<close>

lemma prefix_le: "prefix p k \<Longrightarrow> p \<le> (k :: bytes)"
  by (auto simp: prefix_def)

lemma singleton_range:
  "[b] \<le> k \<longleftrightarrow> (\<exists>c cs. k = c # cs \<and> b \<le> (c :: byte))"
  "k < [b] \<longleftrightarrow> k = [] \<or> (\<exists>c cs. k = c # cs \<and> c < (b :: byte))"
proof -
  show "[b] \<le> k \<longleftrightarrow> (\<exists>c cs. k = c # cs \<and> b \<le> c)" by (cases k) auto
  show "k < [b] \<longleftrightarrow> k = [] \<or> (\<exists>c cs. k = c # cs \<and> c < b)" by (cases k) auto
qed

text \<open>The keys from a prefix up to its successor are the keys that extend the prefix.\<close>

lemma prefix_successor_range:
  "prefix p k \<longleftrightarrow> p \<le> k \<and> (case prefix_successor p of Some e \<Rightarrow> k < e | None \<Rightarrow> True)"
proof (induction p rule: rev_induct)
  case Nil
  then show ?case by (simp add: prefix_successor_def)
next
  case (snoc b p)
  show ?case
  proof (cases "b < 0xFF")
    case True
    then have s: "prefix_successor (p @ [b]) = Some (p @ [b + 1])" by (simp add: prefix_successor_def)
    have b: "c < b + 1 \<longleftrightarrow> c \<le> b" for c
      using True unat_byte_lt [of b] by (simp add: word_less_nat_alt word_le_nat_alt unat_word_ariths less_Suc_eq_le)
    have "prefix p k" if "p @ [b] \<le> k" "k < p @ [b + 1]"
      using that
    proof (induction p arbitrary: k)
      case (Cons a p)
      then obtain c cs where k: "k = c # cs" by (cases k) auto
      with Cons show ?case by auto
    qed simp
    then show ?thesis
      unfolding s by (auto simp: prefix_def singleton_range b)
  next
    case False
    then have ff: "b = 0xFF" using unat_byte_lt [of b] by (simp add: not_less word_le_nat_alt word_unat_eq_iff)
    then have "prefix_successor (p @ [b]) = prefix_successor p" by (simp add: prefix_successor_def)
    moreover have "p \<le> k" if "p @ [b] \<le> k" using that list_le_append [of p "[b]"] by (rule order.trans [rotated])
    moreover have "0xFF \<le> c \<longleftrightarrow> c = 0xFF" for c :: byte
      using unat_byte_lt [of c] by (auto simp: word_le_nat_alt word_unat_eq_iff)
    ultimately show ?thesis
      using snoc.IH unfolding ff by (auto simp: prefix_def singleton_range)
  qed
qed

lemma table_key_roundtrip [simp]:
  "table_id_of (table_key t k) = t" "strip_table_prefix (table_key t k) = k"
  by (simp_all add: table_id_of_def strip_table_prefix_def table_key_def table_prefix_def TABLE_PREFIX_LEN_def)

text \<open>Prefixes compare with a stored key as table ids do.\<close>

lemma table_prefix_key:
  assumes "length key \<ge> 4"
  shows "table_prefix v \<le> key \<longleftrightarrow> v \<le> table_id_of key" and "key < table_prefix v \<longleftrightarrow> table_id_of key < v"
proof -
  define h where "h = take 4 key"
  have k: "key = h @ drop 4 key" and len: "length h = 4" using assms by (simp_all add: h_def)
  have hw: "u32_to_be (u32_of_be h) = h"
    using be_bytes_be_value [of h] be_value_less [of h] len by (simp add: u32_to_be_def u32_of_be_def unat_of_nat)
  define w where "w = u32_of_be h"
  have "key < u32_to_be v @ [] \<longleftrightarrow> h < u32_to_be v \<or> h = u32_to_be v \<and> drop 4 key < []"
    unfolding less_append_cases [symmetric, OF trans [OF len u32_to_be_length [symmetric]]] using k by simp
  then have lt: "key < u32_to_be v \<longleftrightarrow> w < v" using hw u32_to_be_less_iff [of w v] by (simp add: w_def)
  have w: "table_id_of key = w" using assms by (simp add: table_id_of_def TABLE_PREFIX_LEN_def w_def h_def)
  show "key < table_prefix v \<longleftrightarrow> table_id_of key < v" using lt w by (simp add: table_prefix_def)
  show "table_prefix v \<le> key \<longleftrightarrow> v \<le> table_id_of key" using lt w by (metis not_less table_prefix_def)
qed

text \<open>A stored key lies in the range of table \<open>t\<close> exactly when it carries the prefix of \<open>t\<close>.\<close>

lemma table_range_member:
  assumes "length key \<ge> 4"
  shows "(fst (table_range t) \<le> key \<and> (snd (table_range t) = [] \<or> key < snd (table_range t))) \<longleftrightarrow> table_id_of key = t"
proof -
  let ?w = "table_id_of key"
  have m: "unat (- 1 :: u32) = 4294967295" by (simp add: unsigned_minus_1_eq_mask mask_eq_exp_minus_1)
  have "?w < t + 1 \<longleftrightarrow> ?w \<le> t" if "t \<noteq> - 1"
    using that unat_u32_lt [of t] m by (auto simp: word_less_nat_alt word_le_nat_alt unat_word_ariths word_unat_eq_iff)
  moreover have "- 1 \<le> ?w \<longleftrightarrow> ?w = - 1" using unat_u32_lt [of ?w] m by (auto simp: word_le_nat_alt word_unat_eq_iff)
  moreover have "table_prefix v \<noteq> []" for v using u32_to_be_length [of v] by (auto simp: table_prefix_def)
  ultimately show ?thesis
    unfolding table_range_def fst_conv snd_conv using table_prefix_key [OF assms] by auto
qed

end
