(* ===== verification/Membership.thy ===== *)
theory Membership
  imports Regions
begin

text \<open>
  Cluster membership and placement (\<open>pd/src/cluster.rs\<close>): what the placement driver knows of each
  data node, the answer to a heartbeat, the failure detector's sweep, routing over live nodes, and
  the image of this view in a snapshot. A \<open>BTreeMap\<close> is an association list in key order.
\<close>

datatype regime = Cp | Ap

definition regime_tag :: "regime \<Rightarrow> byte" where
  "regime_tag r = (case r of Cp \<Rightarrow> 0 | Ap \<Rightarrow> 1)"

definition regime_of :: "byte \<Rightarrow> regime option" where
  "regime_of tag = (if tag = 0 then Some Cp else if tag = 1 then Some Ap else None)"

record pd_table =
  tb_id :: table_id
  tb_name :: bytes
  tb_regime :: regime

record replica_set =
  rp_region :: region
  rp_regime :: regime
  rp_voters :: "u64 list"
  rp_desired :: "u64 list"

definition replica_bare :: "region \<Rightarrow> replica_set" where
  "replica_bare r = \<lparr>rp_region = r, rp_regime = Cp, rp_voters = [], rp_desired = []\<rparr>"

record placed_region =
  pl_region :: region
  pl_node :: u64
  pl_address :: bytes
  pl_regime :: regime
  pl_voters :: "u64 list"

record node_state =
  ns_address :: bytes
  ns_last_seen :: u64
  ns_down :: bool
  ns_regions :: "replica_set list"

record membership =
  mb_nodes :: "(u64 \<times> node_state) list"
  mb_seed :: "(region \<times> u64) list"

section \<open>The image of the view\<close>

definition put_replica_set :: "replica_set \<Rightarrow> bytes" where
  "put_replica_set rs = u64_to_be (rg_id (rp_region rs)) @ u64_to_be (rg_epoch (rp_region rs)) @
     put_bytes (rg_start (rp_region rs)) @ put_bytes (rg_end (rp_region rs)) @ [regime_tag (rp_regime rs)] @
     u32_to_be (word_of_nat (length (rp_voters rs))) @ concat (map u64_to_be (rp_voters rs))"

definition get_replica_set :: "replica_set reader" where
  "get_replica_set buf pos = do {
     (i, pos) \<leftarrow> get_u64 buf pos;
     (epoch, pos) \<leftarrow> get_u64 buf pos;
     (start, pos) \<leftarrow> get_bytes buf pos;
     (fin, pos) \<leftarrow> get_bytes buf pos;
     (tag, pos) \<leftarrow> get_byte buf pos;
     regime \<leftarrow> regime_of tag;
     (n, pos) \<leftarrow> get_u32 buf pos;
     (voters, pos) \<leftarrow> get_many get_u64 (unat n) buf pos;
     Some (\<lparr>rp_region = \<lparr>rg_id = i, rg_start = start, rg_end = fin, rg_epoch = epoch\<rparr>, rp_regime = regime,
            rp_voters = voters, rp_desired = []\<rparr>, pos)
   }"

definition put_node_state :: "u64 \<times> node_state \<Rightarrow> bytes" where
  "put_node_state x = (case x of (i, n) \<Rightarrow>
     u64_to_be i @ put_bytes (ns_address n) @ u64_to_be (ns_last_seen n) @ [if ns_down n then 1 else 0] @
     u32_to_be (word_of_nat (length (ns_regions n))) @ concat (map put_replica_set (ns_regions n)))"

definition get_node_state :: "(u64 \<times> node_state) reader" where
  "get_node_state buf pos = do {
     (i, pos) \<leftarrow> get_u64 buf pos;
     (address, pos) \<leftarrow> get_string buf pos;
     (last_seen, pos) \<leftarrow> get_u64 buf pos;
     (down, pos) \<leftarrow> get_byte buf pos;
     (n, pos) \<leftarrow> get_u32 buf pos;
     (regions, pos) \<leftarrow> get_many get_replica_set (unat n) buf pos;
     Some ((i, \<lparr>ns_address = address, ns_last_seen = last_seen, ns_down = (down \<noteq> 0), ns_regions = regions\<rparr>), pos)
   }"

definition membership_encode :: "membership \<Rightarrow> bytes" where
  "membership_encode m = u32_to_be (word_of_nat (length (mb_nodes m))) @ concat (map put_node_state (mb_nodes m))"

definition btree_of :: "('k :: linorder \<times> 'v) list \<Rightarrow> ('k \<times> 'v) list" where
  "btree_of xs = fold (\<lambda>(k, v). al_insert k v) xs []"

definition membership_decode :: "membership \<Rightarrow> bytes \<Rightarrow> (membership \<times> nat) option" where
  "membership_decode m buf = do {
     (n, pos) \<leftarrow> get_u32 buf 0;
     (nodes, pos) \<leftarrow> get_many get_node_state (unat n) buf pos;
     Some (m\<lparr>mb_nodes := btree_of nodes\<rparr>, pos)
   }"

section \<open>Operations\<close>

definition membership_new :: membership where
  "membership_new = \<lparr>mb_nodes = [], mb_seed = []\<rparr>"

definition membership_seeded :: "(region \<times> u64) list \<Rightarrow> membership" where
  "membership_seeded seed = \<lparr>mb_nodes = [], mb_seed = seed\<rparr>"

definition assign :: "membership \<Rightarrow> u64 \<Rightarrow> region list" where
  "assign m node =
     (let seeded = map fst (filter (\<lambda>(_, n). n = node) (mb_seed m))
      in if seeded \<noteq> [] then seeded
         else if (\<exists>(_, n) \<in> set (mb_nodes m). ns_regions n \<noteq> []) \<or> mb_seed m \<noteq> [] then []
         else [\<lparr>rg_id = 1, rg_start = [], rg_end = [], rg_epoch = 1\<rparr>])"

definition mb_heartbeat :: "membership \<Rightarrow> u64 \<Rightarrow> bytes \<Rightarrow> replica_set list \<Rightarrow> u64 \<Rightarrow> membership \<times> replica_set list" where
  "mb_heartbeat m node address reported now =
     (let existing = (case map_of (mb_nodes m) node of Some n \<Rightarrow> ns_regions n | None \<Rightarrow> []);
          assigned = (if reported \<noteq> [] then reported
                      else if existing \<noteq> [] then existing
                      else map replica_bare (assign m node))
      in (m\<lparr>mb_nodes := al_insert node \<lparr>ns_address = address, ns_last_seen = now, ns_down = False, ns_regions = assigned\<rparr>
              (mb_nodes m)\<rparr>, assigned))"

definition node_addrs :: "membership \<Rightarrow> (u64 \<times> bytes) list" where
  "node_addrs m = map (\<lambda>(i, n). (i, ns_address n)) (mb_nodes m)"

definition live_nodes :: "membership \<Rightarrow> u64 list" where
  "live_nodes m = map fst (filter (\<lambda>(_, n). \<not> ns_down n) (mb_nodes m))"

text \<open>\<open>now.saturating_sub(last_seen) > timeout_ms\<close>\<close>

definition silent :: "u64 \<Rightarrow> u64 \<Rightarrow> node_state \<Rightarrow> bool" where
  "silent now timeout_ms n \<longleftrightarrow> unat now - unat (ns_last_seen n) > unat timeout_ms"

definition mb_sweep :: "membership \<Rightarrow> u64 \<Rightarrow> u64 \<Rightarrow> membership \<times> u64 list" where
  "mb_sweep m now timeout_ms =
     (m\<lparr>mb_nodes := map (\<lambda>(i, n). (i, if \<not> ns_down n \<and> silent now timeout_ms n then n\<lparr>ns_down := True\<rparr> else n)) (mb_nodes m)\<rparr>,
      map fst (filter (\<lambda>(_, n). \<not> ns_down n \<and> silent now timeout_ms n) (mb_nodes m)))"

definition placed :: "u64 \<Rightarrow> node_state \<Rightarrow> replica_set \<Rightarrow> placed_region" where
  "placed i n rs = \<lparr>pl_region = rp_region rs, pl_node = i, pl_address = ns_address n,
     pl_regime = rp_regime rs, pl_voters = rp_voters rs\<rparr>"

fun route_nodes :: "(u64 \<times> node_state) list \<Rightarrow> bytes \<Rightarrow> placed_region option" where
  "route_nodes [] key = None"
| "route_nodes ((i, n) # ns) key =
     (if ns_down n then route_nodes ns key
      else case find (\<lambda>rs. region_contains (rp_region rs) key) (ns_regions n) of
             Some rs \<Rightarrow> Some (placed i n rs)
           | None \<Rightarrow> route_nodes ns key)"

definition mb_route :: "membership \<Rightarrow> bytes \<Rightarrow> placed_region option" where
  "mb_route m key = route_nodes (mb_nodes m) key"

definition mb_list :: "membership \<Rightarrow> placed_region list" where
  "mb_list m = sort_key (\<lambda>p. rg_start (pl_region p))
     (concat (map (\<lambda>(i, n). map (placed i n) (ns_regions n)) (filter (\<lambda>(_, n). \<not> ns_down n) (mb_nodes m))))"

definition is_down :: "membership \<Rightarrow> u64 \<Rightarrow> bool" where
  "is_down m node = (case map_of (mb_nodes m) node of Some n \<Rightarrow> ns_down n | None \<Rightarrow> False)"

section \<open>Round trip of the image\<close>

lemma regime_tag_roundtrip [simp]: "regime_of (regime_tag r) = Some r"
  by (cases r) (simp_all add: regime_of_def regime_tag_def)

definition replica_fits :: "replica_set \<Rightarrow> bool" where
  "replica_fits rs \<longleftrightarrow> region_fits (rp_region rs) \<and> fits_u32 (rp_voters rs) \<and> rp_desired rs = []"

lemma reads_replica_set:
  assumes "replica_fits rs"
  shows "reads get_replica_set (put_replica_set rs) rs"
  unfolding reads_def
proof (intro allI impI)
  fix buf pos rest
  assume "at_rest buf pos (put_replica_set rs @ rest)"
  then have a: "at_rest buf pos (u64_to_be (rg_id (rp_region rs)) @ u64_to_be (rg_epoch (rp_region rs)) @
     put_bytes (rg_start (rp_region rs)) @ put_bytes (rg_end (rp_region rs)) @ [regime_tag (rp_regime rs)] @
     u32_to_be (word_of_nat (length (rp_voters rs))) @ concat (map u64_to_be (rp_voters rs)) @ rest)"
    by (simp add: put_replica_set_def)
  note b = at_rest_next [OF a] note c = at_rest_next [OF b] note d = at_rest_next [OF c]
  note e = at_rest_next [OF d] note f = at_rest_next [OF e] note g = at_rest_next [OF f]
  have fits: "fits_u32 (rg_start (rp_region rs))" "fits_u32 (rg_end (rp_region rs))" "fits_u32 (rp_voters rs)" "rp_desired rs = []"
    using assms by (simp_all add: replica_fits_def region_fits_def)
  have "get_many get_u64 (length (rp_voters rs)) buf (pos + length (u64_to_be (rg_id (rp_region rs))) +
        length (u64_to_be (rg_epoch (rp_region rs))) + length (put_bytes (rg_start (rp_region rs))) +
        length (put_bytes (rg_end (rp_region rs))) + length [regime_tag (rp_regime rs)] + length (u32_to_be (word_of_nat (length (rp_voters rs)))))
      = Some (rp_voters rs, pos + length (put_replica_set rs))"
    using readsD [OF u64_codec.list_reads g] by (simp add: put_replica_set_def)
  then show "get_replica_set buf pos = Some (rs, pos + length (put_replica_set rs))"
    using readsD [OF reads_u64 a] readsD [OF reads_u64 b] readsD [OF reads_bytes c] readsD [OF reads_bytes d]
      readsD [OF reads_byte e] readsD [OF reads_u32 f] fits
    by (simp add: get_replica_set_def)
qed

interpretation replica_codec: byte_codec put_replica_set get_replica_set replica_fits
  by unfold_locales (rule reads_replica_set)

definition node_fits :: "u64 \<times> node_state \<Rightarrow> bool" where
  "node_fits x \<longleftrightarrow> fits_u32 (ns_address (snd x)) \<and> valid_utf8 (ns_address (snd x)) \<and> fits_u32 (ns_regions (snd x)) \<and>
     (\<forall>rs \<in> set (ns_regions (snd x)). replica_fits rs)"

lemma reads_node_state:
  assumes "node_fits x"
  shows "reads get_node_state (put_node_state x) x"
  unfolding reads_def
proof (intro allI impI)
  fix buf pos rest
  obtain i n where x: "x = (i, n)" by fastforce
  let ?bit = "[if ns_down n then 1 else 0 :: byte]" and ?len = "u32_to_be (word_of_nat (length (ns_regions n)))"
  assume "at_rest buf pos (put_node_state x @ rest)"
  then have a: "at_rest buf pos (u64_to_be i @ put_bytes (ns_address n) @ u64_to_be (ns_last_seen n) @ ?bit @ ?len @
     concat (map put_replica_set (ns_regions n)) @ rest)"
    by (simp add: put_node_state_def x)
  note b = at_rest_next [OF a] note c = at_rest_next [OF b] note d = at_rest_next [OF c]
  note e = at_rest_next [OF d] note f = at_rest_next [OF e]
  have fits: "fits_u32 (ns_address n)" "valid_utf8 (ns_address n)" "fits_u32 (ns_regions n)" "\<forall>rs \<in> set (ns_regions n). replica_fits rs"
    using assms by (simp_all add: node_fits_def x)
  have "get_many get_replica_set (length (ns_regions n)) buf (pos + length (u64_to_be i) + length (put_bytes (ns_address n)) +
        length (u64_to_be (ns_last_seen n)) + length ?bit + length ?len)
      = Some (ns_regions n, pos + length (put_node_state x))"
    using readsD [OF replica_codec.list_reads [OF fits(4)] f] by (simp add: put_node_state_def x)
  then show "get_node_state buf pos = Some (x, pos + length (put_node_state x))"
    using readsD [OF reads_u64 a] readsD [OF reads_string [OF fits(1,2)] b] readsD [OF reads_u64 c]
      readsD [OF reads_byte d] readsD [OF reads_u32 e] fits(3)
    by (simp add: get_node_state_def x)
qed

interpretation node_codec: byte_codec put_node_state get_node_state node_fits
  by unfold_locales (rule reads_node_state)

lemma al_insert_last: "\<forall>k' \<in> fst ` set xs. k' < k \<Longrightarrow> al_insert k v xs = xs @ [(k, v)]"
  by (induction xs) auto

lemma btree_of_sorted: "strict_keys xs \<Longrightarrow> btree_of xs = xs"
proof (induction xs rule: rev_induct)
  case (snoc x xs)
  then have "strict_keys xs" "\<forall>k' \<in> fst ` set xs. k' < fst x"
    by (auto simp: sorted_wrt_append)
  with snoc.IH show ?case by (cases x) (simp add: btree_of_def al_insert_last)
qed (simp add: btree_of_def)

text \<open>What the image can hold: at most \<open>u32::MAX\<close> of everything it counts.\<close>

definition membership_fits :: "membership \<Rightarrow> bool" where
  "membership_fits m \<longleftrightarrow> strict_keys (mb_nodes m) \<and> fits_u32 (mb_nodes m) \<and> (\<forall>x \<in> set (mb_nodes m). node_fits x)"

lemma membership_decode_encode:
  assumes "membership_fits m"
  shows "membership_decode m' (membership_encode m @ rest) = Some (m'\<lparr>mb_nodes := mb_nodes m\<rparr>, length (membership_encode m))"
proof -
  let ?buf = "membership_encode m @ rest"
  have a: "at_rest ?buf 0 (u32_to_be (word_of_nat (length (mb_nodes m))) @ concat (map put_node_state (mb_nodes m)) @ rest)"
    by (simp add: membership_encode_def at_rest_def)
  note b = at_rest_next [OF a]
  show ?thesis
    using readsD [OF reads_u32 a] readsD [OF node_codec.list_reads b] assms
    by (simp add: membership_decode_def membership_fits_def btree_of_sorted) (simp add: membership_encode_def)
qed

section \<open>Liveness and placement\<close>

definition node_up :: "membership \<Rightarrow> u64 \<Rightarrow> bool" where
  "node_up m node \<longleftrightarrow> (\<exists>n. map_of (mb_nodes m) node = Some n \<and> \<not> ns_down n)"

lemma live_nodes_up: "strict_keys (mb_nodes m) \<Longrightarrow> set (live_nodes m) = {node. node_up m node}"
  by (auto simp: live_nodes_def node_up_def map_of_eq_Some_iff [OF strict_keys_distinct] image_iff)

lemma heartbeat_revives: "node_up (fst (mb_heartbeat m node address reported now)) node"
  by (simp add: mb_heartbeat_def node_up_def Let_def)

lemma heartbeat_others: "i \<noteq> node \<Longrightarrow> map_of (mb_nodes (fst (mb_heartbeat m node address reported now))) i = map_of (mb_nodes m) i"
  by (simp add: mb_heartbeat_def Let_def)

lemma heartbeat_sorted: "strict_keys (mb_nodes m) \<Longrightarrow> strict_keys (mb_nodes (fst (mb_heartbeat m node address reported now)))"
  by (simp add: mb_heartbeat_def Let_def)

lemma sweep_map_of:
  "map_of (mb_nodes (fst (mb_sweep m now timeout_ms))) i =
     map_option (\<lambda>n. if \<not> ns_down n \<and> silent now timeout_ms n then n\<lparr>ns_down := True\<rparr> else n) (map_of (mb_nodes m) i)"
  unfolding mb_sweep_def fst_conv membership.select_convs membership.update_convs
  by (induction "mb_nodes m") (auto simp: map_of_map comp_def)

lemma sweep_up:
  "node_up (fst (mb_sweep m now timeout_ms)) i \<longleftrightarrow>
     (\<exists>n. map_of (mb_nodes m) i = Some n \<and> \<not> ns_down n \<and> \<not> silent now timeout_ms n)"
  by (cases "map_of (mb_nodes m) i") (simp_all add: node_up_def sweep_map_of)

lemma find_SomeD: "find P xs = Some x \<Longrightarrow> x \<in> set xs \<and> P x"
  by (induction xs) (auto split: if_splits)

lemma route_nodes_sound:
  "route_nodes ns key = Some p \<Longrightarrow>
     \<exists>n rs. (pl_node p, n) \<in> set ns \<and> \<not> ns_down n \<and> rs \<in> set (ns_regions n) \<and> p = placed (pl_node p) n rs \<and>
            region_contains (pl_region p) key"
proof (induction ns key rule: route_nodes.induct)
  case (2 i n ns key)
  show ?case
  proof (cases "ns_down n \<or> find (\<lambda>rs. region_contains (rp_region rs) key) (ns_regions n) = None")
    case True
    with 2 show ?thesis by (cases "ns_down n") auto
  next
    case False
    then obtain rs where "find (\<lambda>rs. region_contains (rp_region rs) key) (ns_regions n) = Some rs" by auto
    moreover from find_SomeD [OF this] have "rs \<in> set (ns_regions n)" "region_contains (rp_region rs) key" by auto
    ultimately show ?thesis using False 2(3) by (intro exI [of _ n] exI [of _ rs]) (auto simp: placed_def)
  qed
qed simp

lemma route_nodes_complete:
  "route_nodes ns key = None \<longleftrightarrow>
     (\<forall>(i, n) \<in> set ns. ns_down n \<or> (\<forall>rs \<in> set (ns_regions n). \<not> region_contains (rp_region rs) key))"
  by (induction ns key rule: route_nodes.induct) (auto simp: find_None_iff split: option.splits dest: find_SomeD)

text \<open>Without a seed at most one node is ever handed the whole key space: once any node holds a
  region, a node that reports none is assigned none.\<close>

lemma bootstrap_once:
  assumes "mb_seed m = []" "map_of (mb_nodes m) other = Some n" "ns_regions n \<noteq> []" "other \<noteq> node"
  shows "snd (mb_heartbeat m node address [] now) =
    (case map_of (mb_nodes m) node of Some n \<Rightarrow> ns_regions n | None \<Rightarrow> [])"
  using assms map_of_SomeD [OF assms(2)]
  by (auto simp: mb_heartbeat_def assign_def Let_def split: option.splits)

end
