(* ===== verification/Pd_Fsm.thy ===== *)
theory Pd_Fsm
  imports Membership
begin

text \<open>
  The replicated state machine of the placement driver (\<open>pd/src/replicated.rs\<close>): the commands of
  its log and their codec, the state they act on (the timestamp high-water, the placement view, the
  region table, the table catalog, each region's voters and each node's store), the effect of one
  committed entry, the assignment handed to a node, and the snapshot of the whole state.
\<close>

section \<open>Commands\<close>

datatype pd_cmd =
    ReserveTs u64
  | DeclareTable bytes regime
  | Heartbeat u64 bytes "replica_set list" u64 bytes

fun pd_cmd_encode :: "pd_cmd \<Rightarrow> bytes" where
  "pd_cmd_encode (ReserveTs upper) = [1] @ u64_to_be upper"
| "pd_cmd_encode (DeclareTable name regime) = [3] @ put_bytes name @ [regime_tag regime]"
| "pd_cmd_encode (Heartbeat node address regions now store_id) =
     [2] @ u64_to_be node @ u64_to_be now @ put_bytes address @
     u32_to_be (word_of_nat (length regions)) @ concat (map put_replica_set regions) @ put_bytes store_id"

definition pd_cmd_decode :: "bytes \<Rightarrow> pd_cmd option" where
  "pd_cmd_decode buf = do {
     (tag, pos) \<leftarrow> get_byte buf 0;
     if tag = 1 then do {
       (upper, pos) \<leftarrow> get_u64 buf pos;
       Some (ReserveTs upper)
     } else if tag = 3 then do {
       (name, pos) \<leftarrow> get_string buf pos;
       (b, pos) \<leftarrow> get_byte buf pos;
       regime \<leftarrow> regime_of b;
       Some (DeclareTable name regime)
     } else if tag = 2 then do {
       (node, pos) \<leftarrow> get_u64 buf pos;
       (now, pos) \<leftarrow> get_u64 buf pos;
       (address, pos) \<leftarrow> get_string buf pos;
       (n, pos) \<leftarrow> get_u32 buf pos;
       (regions, pos) \<leftarrow> get_many get_replica_set (unat n) buf pos;
       (store_id, pos) \<leftarrow> (if pos < length buf then get_string buf pos else Some ([], pos));
       Some (Heartbeat node address regions now store_id)
     } else None
   }"

section \<open>State\<close>

definition DEFAULT_REPLICAS :: nat where "DEFAULT_REPLICAS = 3"

record pd_fsm =
  pf_members :: membership
  pf_tso_upper :: u64
  pf_regions :: registry
  pf_catalog :: "pd_table list"
  pf_next_table_id :: table_id
  pf_version :: u64
  pf_region_members :: "(u64 \<times> u64 list) list"
  pf_stores :: "(u64 \<times> bytes) list"
  pf_replicas :: nat

definition pd_fsm_new :: pd_fsm where
  "pd_fsm_new = \<lparr>pf_members = membership_new, pf_tso_upper = 0, pf_regions = registry_in_memory,
     pf_catalog = [\<lparr>tb_id = DEFAULT_TABLE_ID, tb_name = DEFAULT_TABLE_NAME, tb_regime = Cp\<rparr>],
     pf_next_table_id = DEFAULT_TABLE_ID + 1, pf_version = 1, pf_region_members = [], pf_stores = [],
     pf_replicas = DEFAULT_REPLICAS\<rparr>"

definition set_replicas :: "pd_fsm \<Rightarrow> nat \<Rightarrow> pd_fsm" where
  "set_replicas f n = f\<lparr>pf_replicas := max n 1\<rparr>"

text \<open>The entry of a region in \<open>region_members\<close>, as \<open>entry(id).or_default()\<close> reads it.\<close>

definition members_of :: "(u64 \<times> u64 list) list \<Rightarrow> u64 \<Rightarrow> u64 list" where
  "members_of members i = (case map_of members i of Some vs \<Rightarrow> vs | None \<Rightarrow> [])"

fun found_region :: "u64 list \<Rightarrow> region \<Rightarrow> (u64 \<times> u64 list) list \<times> bool \<Rightarrow> (u64 \<times> u64 list) list \<times> bool" where
  "found_region founding region (members, founded) =
     (if members_of members (rg_id region) = [] then (al_insert (rg_id region) founding members, True)
      else (members, founded))"

definition found_unfounded_regions :: "pd_fsm \<Rightarrow> pd_fsm \<times> bool" where
  "found_unfounded_regions f =
     (let live = live_nodes (pf_members f)
      in if live = [] then (f, False)
         else let (members, founded) = fold (found_region (take (pf_replicas f) live)) (rr_regions (pf_regions f)) (pf_region_members f, False)
              in (f\<lparr>pf_region_members := members\<rparr>, founded))"

fun adopt_report :: "u64 \<Rightarrow> u64 list \<Rightarrow> replica_set \<Rightarrow> (u64 \<times> u64 list) list \<times> bool \<Rightarrow> (u64 \<times> u64 list) list \<times> bool" where
  "adopt_report node known rs (members, grown) =
     (if node \<notin> set (rp_voters rs) \<or> rg_id (rp_region rs) \<notin> set known then (members, grown)
      else let current = members_of members (rg_id (rp_region rs))
           in if length (rp_voters rs) > length current \<and> set current \<subseteq> set (rp_voters rs)
              then (al_insert (rg_id (rp_region rs)) (sort (rp_voters rs)) members, True)
              else (al_insert (rg_id (rp_region rs)) current members, grown))"

definition adopt_grown_voters :: "pd_fsm \<Rightarrow> u64 \<Rightarrow> replica_set list \<Rightarrow> pd_fsm \<times> bool" where
  "adopt_grown_voters f node reported =
     (let (members, grown) = fold (adopt_report node (map rg_id (rr_regions (pf_regions f)))) reported (pf_region_members f, False)
      in (f\<lparr>pf_region_members := members\<rparr>, grown))"

fun desired_voters :: "nat \<Rightarrow> u64 list \<Rightarrow> u64 list \<Rightarrow> u64 list" where
  "desired_voters replicas members [] = members"
| "desired_voters replicas members (i # live) =
     (if length members \<ge> replicas then members
      else desired_voters replicas (if i \<in> set members then members else members @ [i]) live)"

definition declare_table :: "pd_fsm \<Rightarrow> bytes \<Rightarrow> regime \<Rightarrow> pd_fsm" where
  "declare_table f name regime =
     (if name = [] \<or> name = DEFAULT_TABLE_NAME then f
      else if name \<in> tb_name ` set (pf_catalog f) then f
      else let i = pf_next_table_id f
           in if i = - 1 then f
              else f\<lparr>pf_next_table_id := i + 1,
                     pf_catalog := pf_catalog f @ [\<lparr>tb_id = i, tb_name = name, tb_regime = regime\<rparr>],
                     pf_regions := fst (registry_split True (pf_regions f) (table_prefix i)),
                     pf_version := pf_version f + 1\<rparr>)"

section \<open>Applying a committed entry\<close>

definition bind_store :: "u64 \<Rightarrow> bytes \<Rightarrow> pd_fsm \<Rightarrow> pd_fsm" where
  "bind_store node store_id f =
     (if store_id = [] \<or> node \<in> fst ` set (pf_stores f) then f
      else f\<lparr>pf_stores := al_insert node store_id (pf_stores f)\<rparr>)"

definition apply_heartbeat :: "pd_fsm \<Rightarrow> u64 \<Rightarrow> bytes \<Rightarrow> replica_set list \<Rightarrow> u64 \<Rightarrow> bytes \<Rightarrow> pd_fsm" where
  "apply_heartbeat f node address regions now store_id =
     (let f1 = bind_store node store_id f;
          is_new = (node \<notin> fst ` set (node_addrs (pf_members f1)));
          (f2, grown) = adopt_grown_voters f1 node regions;
          f3 = f2\<lparr>pf_members := fst (mb_heartbeat (pf_members f2) node address regions now)\<rparr>;
          (f4, founded) = found_unfounded_regions f3
      in if is_new \<or> grown \<or> founded then f4\<lparr>pf_version := pf_version f4 + 1\<rparr> else f4)"

fun pd_apply_cmd :: "pd_fsm \<Rightarrow> pd_cmd \<Rightarrow> pd_fsm" where
  "pd_apply_cmd f (ReserveTs upper) = f\<lparr>pf_tso_upper := max (pf_tso_upper f) upper\<rparr>"
| "pd_apply_cmd f (Heartbeat node address regions now store_id) = apply_heartbeat f node address regions now store_id"
| "pd_apply_cmd f (DeclareTable name regime) = fst (found_unfounded_regions (declare_table f name regime))"

definition pd_apply :: "pd_fsm \<Rightarrow> bytes \<Rightarrow> pd_fsm" where
  "pd_apply f buf = (case pd_cmd_decode buf of None \<Rightarrow> f | Some cmd \<Rightarrow> pd_apply_cmd f cmd)"

section \<open>Queries\<close>

definition store_conflict :: "pd_fsm \<Rightarrow> u64 \<Rightarrow> bytes \<Rightarrow> bytes option" where
  "store_conflict f node store_id =
     (if store_id = [] then None
      else case map_of (pf_stores f) node of
             Some bound \<Rightarrow> if bound \<noteq> store_id then Some bound else None
           | None \<Rightarrow> None)"

definition regime_for :: "pd_fsm \<Rightarrow> bytes \<Rightarrow> regime" where
  "regime_for f key = (case find (\<lambda>t. tb_id t = table_id_of key) (pf_catalog f) of Some t \<Rightarrow> tb_regime t | None \<Rightarrow> Cp)"

definition assignment :: "pd_fsm \<Rightarrow> replica_set list" where
  "assignment f =
     map (\<lambda>r. let voters = members_of (pf_region_members f) (rg_id r)
              in \<lparr>rp_region = r, rp_regime = regime_for f (rg_start r), rp_voters = voters,
                  rp_desired = desired_voters (pf_replicas f) voters (live_nodes (pf_members f))\<rparr>)
       (rr_regions (pf_regions f))"

definition pd_catalog :: "pd_fsm \<Rightarrow> pd_table list" where
  "pd_catalog f = sort_key tb_name (pf_catalog f)"

definition pd_table_id :: "pd_fsm \<Rightarrow> bytes \<Rightarrow> table_id option" where
  "pd_table_id f name =
     map_option tb_id (find (\<lambda>t. tb_name t = (if name = [] then DEFAULT_TABLE_NAME else name)) (pf_catalog f))"

definition regions_of :: "pd_fsm \<Rightarrow> u64 \<Rightarrow> replica_set list" where
  "regions_of f node =
     map (\<lambda>p. \<lparr>rp_region = pl_region p, rp_regime = pl_regime p, rp_voters = pl_voters p, rp_desired = []\<rparr>)
       (filter (\<lambda>p. pl_node p = node) (mb_list (pf_members f)))"

definition assignment_for :: "pd_fsm \<Rightarrow> u64 \<Rightarrow> replica_set list" where
  "assignment_for f node =
     (if pf_version f = 0 then regions_of f node
      else filter (\<lambda>rs. node \<in> set (rp_voters rs) \<or> node \<in> set (rp_desired rs)) (assignment f))"

section \<open>Snapshots\<close>

definition STORES_TAG :: bytes where
  "STORES_TAG = [0x61, 0x72, 0x63, 0x75, 0x78, 0x53, 0x54, 0x52]"

definition put_table :: "pd_table \<Rightarrow> bytes" where
  "put_table t = put_bytes (tb_name t) @ [regime_tag (tb_regime t)] @ u32_to_be (tb_id t)"

definition put_region_members :: "u64 \<times> u64 list \<Rightarrow> bytes" where
  "put_region_members x = (case x of (region, voters) \<Rightarrow>
     u64_to_be region @ u32_to_be (word_of_nat (length voters)) @ concat (map u64_to_be voters))"

definition put_store :: "u64 \<times> bytes \<Rightarrow> bytes" where
  "put_store x = (case x of (node, store) \<Rightarrow> u64_to_be node @ put_bytes store)"

definition pd_snapshot :: "pd_fsm \<Rightarrow> bytes" where
  "pd_snapshot f = u64_to_be (pf_tso_upper f) @ membership_encode (pf_members f) @
     u64_to_be (pf_version f) @ u32_to_be (pf_next_table_id f) @
     u32_to_be (word_of_nat (length (pf_catalog f))) @ concat (map put_table (pf_catalog f)) @
     u32_to_be (word_of_nat (length (pf_region_members f))) @ concat (map put_region_members (pf_region_members f)) @
     STORES_TAG @ u32_to_be (word_of_nat (length (pf_stores f))) @ concat (map put_store (pf_stores f)) @
     encode_regions (rr_regions (pf_regions f), rr_next_id (pf_regions f))"

definition get_table :: "pd_table reader" where
  "get_table buf pos = do {
     (name, pos) \<leftarrow> get_string buf pos;
     (b, pos) \<leftarrow> get_byte buf pos;
     regime \<leftarrow> regime_of b;
     (i, pos) \<leftarrow> get_u32 buf pos;
     Some (\<lparr>tb_id = i, tb_name = name, tb_regime = regime\<rparr>, pos)
   }"

definition get_region_members :: "(u64 \<times> u64 list) reader" where
  "get_region_members buf pos = do {
     (region, pos) \<leftarrow> get_u64 buf pos;
     (n, pos) \<leftarrow> get_u32 buf pos;
     (voters, pos) \<leftarrow> get_many get_u64 (unat n) buf pos;
     Some ((region, voters), pos)
   }"

definition get_store :: "(u64 \<times> bytes) reader" where
  "get_store buf pos = do {
     (node, pos) \<leftarrow> get_u64 buf pos;
     (store, pos) \<leftarrow> get_string buf pos;
     Some ((node, store), pos)
   }"

definition get_stores :: "(u64 \<times> bytes) list reader" where
  "get_stores buf pos =
     (if take 8 (drop pos buf) = STORES_TAG then do {
        (n, pos) \<leftarrow> get_u32 buf (pos + 8);
        (stores, pos) \<leftarrow> get_many get_store (unat n) buf pos;
        Some (btree_of stores, pos)
      } else Some ([], pos))"

text \<open>The sections of a snapshot after the placement view, up to the region table.\<close>

definition get_sections ::
  "bytes \<Rightarrow> nat \<Rightarrow> (u64 \<times> table_id \<times> pd_table list \<times> (u64 \<times> u64 list) list \<times> (u64 \<times> bytes) list \<times> nat) option" where
  "get_sections buf pos = do {
     (version, pos) \<leftarrow> get_u64 buf pos;
     (next_table_id, pos) \<leftarrow> get_u32 buf pos;
     (n, pos) \<leftarrow> get_u32 buf pos;
     (catalog, pos) \<leftarrow> get_many get_table (unat n) buf pos;
     (n, pos) \<leftarrow> get_u32 buf pos;
     (members, pos) \<leftarrow> get_many get_region_members (unat n) buf pos;
     (stores, pos) \<leftarrow> get_stores buf pos;
     Some (version, next_table_id, catalog, btree_of members, stores, pos)
   }"

definition pd_restore :: "pd_fsm \<Rightarrow> bytes \<Rightarrow> pd_fsm \<times> bool" where
  "pd_restore f buf =
     (if length buf < 8 then (f, False)
      else case membership_decode (pf_members f) (drop 8 buf) of
        None \<Rightarrow> (f, False)
      | Some (m, pos) \<Rightarrow>
          (let f1 = f\<lparr>pf_members := m\<rparr>
           in case get_sections buf (pos + 8) of
                None \<Rightarrow> (f1, False)
              | Some (version, next_table_id, catalog, members, stores, pos) \<Rightarrow>
                  (case registry_decode_from (pf_regions f) (drop pos buf) of
                     (g, False) \<Rightarrow> (f1, False)
                   | (g, True) \<Rightarrow>
                       (f1\<lparr>pf_regions := g, pf_stores := stores, pf_catalog := catalog, pf_region_members := members,
                           pf_version := max (pf_version f) version,
                           pf_next_table_id := max (pf_next_table_id f) next_table_id,
                           pf_tso_upper := max (pf_tso_upper f) (u64_of_be (take 8 buf))\<rparr>, True))))"

end
