(* ===== verification/Pd_Fsm_Props.thy ===== *)
theory Pd_Fsm_Props
  imports Pd_Fsm
begin

text \<open>
  What the log of the placement driver guarantees: every region is a table and every table a region,
  watermarks, store bindings and voter sets only grow, entries may be applied twice, and a snapshot
  restores the whole state.
\<close>

section \<open>The command codec\<close>

definition cmd_fits :: "pd_cmd \<Rightarrow> bool" where
  "cmd_fits c = (case c of
     ReserveTs upper \<Rightarrow> True
   | DeclareTable name regime \<Rightarrow> fits_u32 name \<and> valid_utf8 name
   | Heartbeat node address regions now store_id \<Rightarrow>
       fits_u32 address \<and> valid_utf8 address \<and> fits_u32 regions \<and> (\<forall>rs \<in> set regions. replica_fits rs) \<and>
       fits_u32 store_id \<and> valid_utf8 store_id)"

lemma put_bytes_length [simp]: "length (put_bytes bs) = 4 + length bs"
  by (simp add: put_bytes_def)

lemma at_rest_length: "at_rest buf pos rest \<Longrightarrow> rest \<noteq> [] \<Longrightarrow> pos < length buf"
  by (auto simp: at_rest_def)

lemma decode_encode_heartbeat:
  assumes "cmd_fits (Heartbeat node address regions now store_id)"
  shows "pd_cmd_decode (pd_cmd_encode (Heartbeat node address regions now store_id)) = Some (Heartbeat node address regions now store_id)"
proof -
  let ?buf = "pd_cmd_encode (Heartbeat node address regions now store_id)"
  let ?len = "u32_to_be (word_of_nat (length regions))"
  have a: "at_rest ?buf 0 ([2] @ u64_to_be node @ u64_to_be now @ put_bytes address @ ?len @
     concat (map put_replica_set regions) @ put_bytes store_id @ [])"
    by (simp add: at_rest_def)
  note b = at_rest_next [OF a] note c = at_rest_next [OF b] note d = at_rest_next [OF c]
  note e = at_rest_next [OF d] note f = at_rest_next [OF e] note g = at_rest_next [OF f]
  have fits: "fits_u32 address" "valid_utf8 address" "fits_u32 regions" "\<forall>rs \<in> set regions. replica_fits rs"
    "fits_u32 store_id" "valid_utf8 store_id"
    using assms by (simp_all add: cmd_fits_def)
  have "put_bytes store_id @ [] \<noteq> []" using put_bytes_length [of store_id] by (cases "put_bytes store_id") auto
  note h = at_rest_length [OF g this]
  show ?thesis
    unfolding pd_cmd_decode_def
    using readsD [OF reads_byte a] readsD [OF reads_u64 b] readsD [OF reads_u64 c] readsD [OF reads_string [OF fits(1,2)] d]
      readsD [OF reads_u32 e] readsD [OF replica_codec.list_reads [OF fits(4)] f] readsD [OF reads_string [OF fits(5,6)] g] h fits(3)
    by (simp del: pd_cmd_encode.simps)
qed

lemma pd_cmd_decode_encode: "cmd_fits c \<Longrightarrow> pd_cmd_decode (pd_cmd_encode c) = Some c"
proof (cases c)
  case (ReserveTs upper)
  have a: "at_rest (pd_cmd_encode c) 0 ([1] @ u64_to_be upper @ [])" by (simp add: at_rest_def ReserveTs)
  note b = at_rest_next [OF a]
  show ?thesis unfolding pd_cmd_decode_def using readsD [OF reads_byte a] readsD [OF reads_u64 b]
    by (simp add: ReserveTs del: pd_cmd_encode.simps)
next
  case (DeclareTable name regime)
  assume "cmd_fits c"
  then have fits: "fits_u32 name" "valid_utf8 name" by (simp_all add: cmd_fits_def DeclareTable)
  have a: "at_rest (pd_cmd_encode c) 0 ([3] @ put_bytes name @ [regime_tag regime] @ [])" by (simp add: at_rest_def DeclareTable)
  note b = at_rest_next [OF a] note d = at_rest_next [OF b]
  show ?thesis unfolding pd_cmd_decode_def
    using readsD [OF reads_byte a] readsD [OF reads_string [OF fits] b] readsD [OF reads_byte d]
    by (simp add: DeclareTable del: pd_cmd_encode.simps)
next
  case (Heartbeat node address regions now store_id)
  then show "cmd_fits c \<Longrightarrow> ?thesis" using decode_encode_heartbeat by simp
qed

lemma pd_apply_encode: "cmd_fits c \<Longrightarrow> pd_apply f (pd_cmd_encode c) = pd_apply_cmd f c"
  by (simp add: pd_apply_def pd_cmd_decode_encode)

section \<open>Voter sets only grow\<close>

lemma members_of_al_insert [simp]: "members_of (al_insert k v m) i = (if i = k then v else members_of m i)"
  by (simp add: members_of_def)

text \<open>\<open>members_grow m m'\<close>: no region loses a voter and no entry disappears.\<close>

definition members_grow :: "(u64 \<times> u64 list) list \<Rightarrow> (u64 \<times> u64 list) list \<Rightarrow> bool" where
  "members_grow m m' \<longleftrightarrow> dom (map_of m) \<subseteq> dom (map_of m') \<and>
     (\<forall>i. set (members_of m i) \<subseteq> set (members_of m' i) \<and> length (members_of m i) \<le> length (members_of m' i))"

lemma members_grow_refl [simp]: "members_grow m m"
  by (simp add: members_grow_def)

lemma members_grow_trans: "members_grow a b \<Longrightarrow> members_grow b c \<Longrightarrow> members_grow a c"
  unfolding members_grow_def by (meson order.trans)

lemma found_region_grows:
  "members_grow m (fst (found_region F r (m, b))) \<and> (strict_keys m \<longrightarrow> strict_keys (fst (found_region F r (m, b))))"
  by (auto simp: members_grow_def)

lemma adopt_report_grows:
  "members_grow m (fst (adopt_report node known rs (m, b))) \<and> (strict_keys m \<longrightarrow> strict_keys (fst (adopt_report node known rs (m, b))))"
  by (auto simp: members_grow_def Let_def)

lemma found_fold_grows:
  "members_grow m (fst (fold (found_region F) rs (m, b))) \<and> (strict_keys m \<longrightarrow> strict_keys (fst (fold (found_region F) rs (m, b))))"
proof (induction rs arbitrary: m b)
  case (Cons r rs)
  obtain m' b' where e: "found_region F r (m, b) = (m', b')" by fastforce
  show ?case
    using Cons [of m' b'] found_region_grows [of m F r b] members_grow_trans unfolding fold_simps comp_def e by auto
qed simp

lemma adopt_fold_grows:
  "members_grow m (fst (fold (adopt_report node known) rs (m, b))) \<and>
   (strict_keys m \<longrightarrow> strict_keys (fst (fold (adopt_report node known) rs (m, b))))"
proof (induction rs arbitrary: m b)
  case (Cons r rs)
  obtain m' b' where e: "adopt_report node known r (m, b) = (m', b')" by fastforce
  show ?case
    using Cons [of m' b'] adopt_report_grows [of m node known r b] members_grow_trans unfolding fold_simps comp_def e by auto
qed simp

lemma found_fold:
  "members_of (fst (fold (found_region F) rs (m, b))) i = (if i \<in> rg_id ` set rs \<and> members_of m i = [] then F else members_of m i)"
  "snd (fold (found_region F) rs (m, b)) \<longleftrightarrow> b \<or> (\<exists>r \<in> set rs. members_of m (rg_id r) = [])"
proof -
  show "members_of (fst (fold (found_region F) rs (m, b))) i = (if i \<in> rg_id ` set rs \<and> members_of m i = [] then F else members_of m i)"
    by (induction rs arbitrary: m b) auto
  show "snd (fold (found_region F) rs (m, b)) \<longleftrightarrow> b \<or> (\<exists>r \<in> set rs. members_of m (rg_id r) = [])"
    by (induction rs arbitrary: m b) (auto split: if_splits)
qed

lemma found_sel [simp]:
  "pf_members (fst (found_unfounded_regions f)) = pf_members f" "pf_tso_upper (fst (found_unfounded_regions f)) = pf_tso_upper f"
  "pf_regions (fst (found_unfounded_regions f)) = pf_regions f" "pf_catalog (fst (found_unfounded_regions f)) = pf_catalog f"
  "pf_next_table_id (fst (found_unfounded_regions f)) = pf_next_table_id f" "pf_version (fst (found_unfounded_regions f)) = pf_version f"
  "pf_stores (fst (found_unfounded_regions f)) = pf_stores f" "pf_replicas (fst (found_unfounded_regions f)) = pf_replicas f"
  by (simp_all add: found_unfounded_regions_def Let_def split: prod.splits)

lemma adopt_sel [simp]:
  "pf_members (fst (adopt_grown_voters f n rs)) = pf_members f" "pf_tso_upper (fst (adopt_grown_voters f n rs)) = pf_tso_upper f"
  "pf_regions (fst (adopt_grown_voters f n rs)) = pf_regions f" "pf_catalog (fst (adopt_grown_voters f n rs)) = pf_catalog f"
  "pf_next_table_id (fst (adopt_grown_voters f n rs)) = pf_next_table_id f" "pf_version (fst (adopt_grown_voters f n rs)) = pf_version f"
  "pf_stores (fst (adopt_grown_voters f n rs)) = pf_stores f" "pf_replicas (fst (adopt_grown_voters f n rs)) = pf_replicas f"
  by (simp_all add: adopt_grown_voters_def split: prod.splits)

lemma bind_store_sel [simp]:
  "pf_members (bind_store n s f) = pf_members f" "pf_tso_upper (bind_store n s f) = pf_tso_upper f"
  "pf_regions (bind_store n s f) = pf_regions f" "pf_catalog (bind_store n s f) = pf_catalog f"
  "pf_next_table_id (bind_store n s f) = pf_next_table_id f" "pf_version (bind_store n s f) = pf_version f"
  "pf_region_members (bind_store n s f) = pf_region_members f" "pf_replicas (bind_store n s f) = pf_replicas f"
  by (simp_all add: bind_store_def)

lemma declare_sel [simp]:
  "pf_members (declare_table f n r) = pf_members f" "pf_tso_upper (declare_table f n r) = pf_tso_upper f"
  "pf_region_members (declare_table f n r) = pf_region_members f" "pf_stores (declare_table f n r) = pf_stores f"
  "pf_replicas (declare_table f n r) = pf_replicas f"
  by (simp_all add: declare_table_def Let_def)

lemma found_members_grow:
  "members_grow (pf_region_members f) (pf_region_members (fst (found_unfounded_regions f)))"
  "strict_keys (pf_region_members f) \<Longrightarrow> strict_keys (pf_region_members (fst (found_unfounded_regions f)))"
  using found_fold_grows [of "pf_region_members f" "take (pf_replicas f) (live_nodes (pf_members f))" "rr_regions (pf_regions f)" False]
  by (auto simp: found_unfounded_regions_def Let_def split: prod.splits)

lemma adopt_members_grow:
  "members_grow (pf_region_members f) (pf_region_members (fst (adopt_grown_voters f n rs)))"
  "strict_keys (pf_region_members f) \<Longrightarrow> strict_keys (pf_region_members (fst (adopt_grown_voters f n rs)))"
  using adopt_fold_grows [of "pf_region_members f" n "map rg_id (rr_regions (pf_regions f))" rs False]
  by (auto simp: adopt_grown_voters_def split: prod.splits)

lemma apply_heartbeat_eq:
  "apply_heartbeat f node address regions now store_id =
     (let f1 = bind_store node store_id f;
          f2 = fst (adopt_grown_voters f1 node regions);
          f3 = f2\<lparr>pf_members := fst (mb_heartbeat (pf_members f2) node address regions now)\<rparr>;
          f4 = fst (found_unfounded_regions f3)
      in if node \<notin> fst ` set (mb_nodes (pf_members f)) \<or> snd (adopt_grown_voters f1 node regions) \<or> snd (found_unfounded_regions f3)
         then f4\<lparr>pf_version := pf_version f4 + 1\<rparr> else f4)"
  by (simp add: apply_heartbeat_def node_addrs_def Let_def image_image split_def)

lemma apply_heartbeat_sel [simp]:
  "pf_members (apply_heartbeat f node address regions now store_id) = fst (mb_heartbeat (pf_members f) node address regions now)"
  "pf_tso_upper (apply_heartbeat f node address regions now store_id) = pf_tso_upper f"
  "pf_regions (apply_heartbeat f node address regions now store_id) = pf_regions f"
  "pf_catalog (apply_heartbeat f node address regions now store_id) = pf_catalog f"
  "pf_next_table_id (apply_heartbeat f node address regions now store_id) = pf_next_table_id f"
  "pf_stores (apply_heartbeat f node address regions now store_id) = pf_stores (bind_store node store_id f)"
  "pf_replicas (apply_heartbeat f node address regions now store_id) = pf_replicas f"
  by (simp_all add: apply_heartbeat_eq Let_def)

lemma apply_heartbeat_members_grow:
  "members_grow (pf_region_members f) (pf_region_members (apply_heartbeat f node address regions now store_id))"
  "strict_keys (pf_region_members f) \<Longrightarrow> strict_keys (pf_region_members (apply_heartbeat f node address regions now store_id))"
proof -
  let ?f2 = "fst (adopt_grown_voters (bind_store node store_id f) node regions)"
  let ?f3 = "?f2\<lparr>pf_members := fst (mb_heartbeat (pf_members ?f2) node address regions now)\<rparr>"
  have e: "pf_region_members (apply_heartbeat f node address regions now store_id) = pf_region_members (fst (found_unfounded_regions ?f3))"
    by (simp add: apply_heartbeat_eq Let_def)
  show "members_grow (pf_region_members f) (pf_region_members (apply_heartbeat f node address regions now store_id))"
    using members_grow_trans [OF adopt_members_grow(1) [of "bind_store node store_id f" node regions]] found_members_grow(1) [of ?f3]
    unfolding e by simp
  show "strict_keys (pf_region_members f) \<Longrightarrow> strict_keys (pf_region_members (apply_heartbeat f node address regions now store_id))"
    using adopt_members_grow(2) [of "bind_store node store_id f" node regions] found_members_grow(2) [of ?f3]
    unfolding e by simp
qed

text \<open>The order in which states of the machine follow one another.\<close>

definition fsm_le :: "pd_fsm \<Rightarrow> pd_fsm \<Rightarrow> bool" where
  "fsm_le f f' \<longleftrightarrow> pf_tso_upper f \<le> pf_tso_upper f' \<and> map_of (pf_stores f) \<subseteq>\<^sub>m map_of (pf_stores f') \<and>
     members_grow (pf_region_members f) (pf_region_members f') \<and> pf_next_table_id f \<le> pf_next_table_id f' \<and>
     prefix (pf_catalog f) (pf_catalog f')"

lemma u32_le_Suc: "(w :: u32) \<noteq> - 1 \<Longrightarrow> w \<le> w + 1"
  using unat_u32_lt [of w] unsigned_minus_1_eq_mask [where ?'a = nat and ?'b = 32]
  by (auto simp: word_le_nat_alt unat_word_ariths word_unat_eq_iff mask_eq_exp_minus_1)

lemma bind_store_le: "map_of (pf_stores f) \<subseteq>\<^sub>m map_of (pf_stores (bind_store node store_id f))"
  by (auto simp: bind_store_def map_le_def map_of_eq_None_iff [symmetric] dest: weak_map_of_SomeI)

lemma declare_le: "fsm_le f (declare_table f name regime)"
  using u32_le_Suc [of "pf_next_table_id f"] by (auto simp: fsm_le_def declare_table_def Let_def)

lemma pd_apply_cmd_le: "fsm_le f (pd_apply_cmd f c)"
proof (cases c)
  case (DeclareTable name regime)
  then show ?thesis
    using declare_le [of f name regime] found_members_grow(1) [of "declare_table f name regime"]
    by (simp add: fsm_le_def)
qed (simp_all add: fsm_le_def apply_heartbeat_members_grow bind_store_le)

abbreviation apply_log :: "bytes list \<Rightarrow> pd_fsm \<Rightarrow> pd_fsm" where
  "apply_log entries f \<equiv> fold (\<lambda>e f. pd_apply f e) entries f"

lemma fsm_le_trans: "fsm_le a b \<Longrightarrow> fsm_le b c \<Longrightarrow> fsm_le a c"
  unfolding fsm_le_def by (auto intro: members_grow_trans map_le_trans prefix_order.trans)

lemma apply_log_le: "fsm_le f (apply_log entries f)"
proof (induction entries arbitrary: f)
  case Nil
  show ?case by (simp add: fsm_le_def)
next
  case (Cons e entries)
  have "fsm_le f (pd_apply f e)" using pd_apply_cmd_le by (auto simp: pd_apply_def fsm_le_def split: option.splits)
  with Cons show ?case using fsm_le_trans by auto
qed

section \<open>Applying an entry twice\<close>

lemma al_insert_same: "strict_keys m \<Longrightarrow> map_of m k = Some v \<Longrightarrow> al_insert k v m = m"
  by (induction m) (auto split: if_splits dest!: map_of_SomeD)

lemma al_insert_twice [simp]: "al_insert k v (al_insert k v m) = al_insert k v m"
  by (induction m) auto

text \<open>A report that changes nothing any more.\<close>

definition settled :: "u64 \<Rightarrow> u64 list \<Rightarrow> (u64 \<times> u64 list) list \<Rightarrow> replica_set \<Rightarrow> bool" where
  "settled node known m rs \<longleftrightarrow> (node \<in> set (rp_voters rs) \<and> rg_id (rp_region rs) \<in> set known \<longrightarrow>
     rg_id (rp_region rs) \<in> dom (map_of m) \<and>
     \<not> (length (rp_voters rs) > length (members_of m (rg_id (rp_region rs))) \<and>
        set (members_of m (rg_id (rp_region rs))) \<subseteq> set (rp_voters rs)))"

lemma settled_grow: "settled node known m rs \<Longrightarrow> members_grow m m' \<Longrightarrow> settled node known m' rs"
  unfolding settled_def members_grow_def by (meson le_less_trans order.trans subsetD)

lemma settled_adopt: "settled node known (fst (adopt_report node known rs (m, b))) rs"
  by (auto simp: settled_def Let_def)

lemma settled_noop: "settled node known m rs \<Longrightarrow> strict_keys m \<Longrightarrow> adopt_report node known rs (m, b) = (m, b)"
  by (auto simp: settled_def Let_def members_of_def al_insert_same)

lemma adopt_fold_settles: "\<forall>rs \<in> set reported. settled node known (fst (fold (adopt_report node known) reported (m, b))) rs"
proof (induction reported arbitrary: m b)
  case (Cons rs reported)
  obtain m' b' where e: "adopt_report node known rs (m, b) = (m', b')" by fastforce
  have "settled node known m' rs" using settled_adopt [of node known rs m b] unfolding e by simp
  then show ?case
    using Cons [of m' b'] settled_grow [OF _ conjunct1 [OF adopt_fold_grows [of m' node known reported b']]]
    unfolding fold_simps comp_def e by auto
qed simp

lemma adopt_fold_noop:
  "\<forall>rs \<in> set reported. settled node known m rs \<Longrightarrow> strict_keys m \<Longrightarrow> fold (adopt_report node known) reported (m, b) = (m, b)"
  by (induction reported) (simp_all add: settled_noop del: adopt_report.simps)

lemma found_fold_noop:
  "\<forall>r \<in> set rs. members_of m (rg_id r) \<noteq> [] \<Longrightarrow> fold (found_region F) rs (m, b) = (m, b)"
  by (induction rs) simp_all

definition all_founded :: "pd_fsm \<Rightarrow> bool" where
  "all_founded f \<longleftrightarrow> live_nodes (pf_members f) = [] \<or>
     (\<forall>r \<in> set (rr_regions (pf_regions f)). members_of (pf_region_members f) (rg_id r) \<noteq> [])"

lemma found_noop: "all_founded f \<Longrightarrow> found_unfounded_regions f = (f, False)"
  by (auto simp: all_founded_def found_unfounded_regions_def Let_def found_fold_noop)

lemma found_all:
  assumes "pf_replicas f \<noteq> 0"
  shows "all_founded (fst (found_unfounded_regions f))"
proof (cases "live_nodes (pf_members f) = []")
  case False
  let ?F = "take (pf_replicas f) (live_nodes (pf_members f))" and ?rs = "rr_regions (pf_regions f)"
  obtain m b where e: "fold (found_region ?F) ?rs (pf_region_members f, False) = (m, b)" by fastforce
  have "members_of m (rg_id r) \<noteq> []" if "r \<in> set ?rs" for r
    using found_fold(1) [of ?F ?rs "pf_region_members f" False "rg_id r"] that False assms unfolding e by auto
  with e False show ?thesis by (simp add: all_founded_def found_unfounded_regions_def Let_def)
qed (simp add: all_founded_def)

lemma al_insert_other: "(i, n) \<in> set m \<Longrightarrow> i \<noteq> k \<Longrightarrow> (i, n) \<in> set (al_insert k v m)"
  by (induction m) auto

lemma assign_again:
  assumes "strict_keys (mb_nodes m)" "assign m node = []" "ns_regions n = []"
    and none: "\<And>n'. map_of (mb_nodes m) node = Some n' \<Longrightarrow> ns_regions n' = []"
  shows "assign (m\<lparr>mb_nodes := al_insert node n (mb_nodes m)\<rparr>) node = []"
proof -
  have seed: "map fst (filter (\<lambda>(_, n). n = node) (mb_seed m)) = []"
    and any: "(\<exists>(_, n) \<in> set (mb_nodes m). ns_regions n \<noteq> []) \<or> mb_seed m \<noteq> []"
    using assms(2) unfolding assign_def Let_def by (auto split: if_splits)
  have "(i, n') \<in> set (al_insert node n (mb_nodes m))" if "(i, n') \<in> set (mb_nodes m)" "ns_regions n' \<noteq> []" for i n'
    using that none map_of_is_SomeI [OF strict_keys_distinct [OF assms(1)] that(1)] al_insert_other by fastforce
  then have "(\<exists>(_, n) \<in> set (al_insert node n (mb_nodes m)). ns_regions n \<noteq> []) \<or> mb_seed m \<noteq> []"
    using any by fastforce
  with seed show ?thesis by (simp add: assign_def Let_def)
qed

lemma heartbeat_twice:
  assumes "strict_keys (mb_nodes m)"
  shows "mb_heartbeat (fst (mb_heartbeat m node address reported now)) node address reported now = mb_heartbeat m node address reported now"
proof -
  define assigned where "assigned = snd (mb_heartbeat m node address reported now)"
  define n where "n = \<lparr>ns_address = address, ns_last_seen = now, ns_down = False, ns_regions = assigned\<rparr>"
  let ?m = "m\<lparr>mb_nodes := al_insert node n (mb_nodes m)\<rparr>"
  have first: "mb_heartbeat m node address reported now = (?m, assigned)"
    by (simp add: assigned_def n_def mb_heartbeat_def Let_def)
  have a: "assigned = (if reported \<noteq> [] then reported
      else if (case map_of (mb_nodes m) node of Some n \<Rightarrow> ns_regions n | None \<Rightarrow> []) \<noteq> []
        then (case map_of (mb_nodes m) node of Some n \<Rightarrow> ns_regions n | None \<Rightarrow> []) else map replica_bare (assign m node))"
    by (simp add: assigned_def mb_heartbeat_def Let_def)
  have "assign ?m node = []" if "assigned = []"
    using that unfolding a by (intro assign_again [OF assms]) (auto simp: n_def \<open>assigned = []\<close> split: if_splits)
  then have "snd (mb_heartbeat ?m node address reported now) = assigned"
    using a by (simp add: mb_heartbeat_def Let_def n_def)
  then show ?thesis
    unfolding first fst_conv by (simp add: mb_heartbeat_def Let_def n_def)
qed

definition fsm_wf :: "pd_fsm \<Rightarrow> bool" where
  "fsm_wf f \<longleftrightarrow> strict_keys (pf_region_members f) \<and> strict_keys (mb_nodes (pf_members f)) \<and> strict_keys (pf_stores f) \<and> pf_replicas f \<noteq> 0"

lemma fsm_wf_new: "fsm_wf pd_fsm_new"
  by (simp add: fsm_wf_def pd_fsm_new_def membership_new_def DEFAULT_REPLICAS_def)

lemma fsm_wf_apply_cmd: "fsm_wf f \<Longrightarrow> fsm_wf (pd_apply_cmd f c)"
  by (cases c) (auto simp: fsm_wf_def apply_heartbeat_members_grow found_members_grow heartbeat_sorted bind_store_def)

lemma fsm_wf_apply_log: "fsm_wf f \<Longrightarrow> fsm_wf (apply_log entries f)"
  by (induction entries arbitrary: f) (auto simp: pd_apply_def fsm_wf_apply_cmd split: option.splits)

lemma apply_heartbeat_twice:
  assumes wf_f: "fsm_wf f" and g_def: "g = apply_heartbeat f node address regions now store_id"
  shows "apply_heartbeat g node address regions now store_id = g"
proof -
  let ?f1 = "bind_store node store_id f"
  let ?f2 = "fst (adopt_grown_voters ?f1 node regions)"
  let ?f3 = "?f2\<lparr>pf_members := fst (mb_heartbeat (pf_members ?f2) node address regions now)\<rparr>"
  let ?f4 = "fst (found_unfounded_regions ?f3)"
  have wf: "fsm_wf g" using fsm_wf_apply_cmd [OF wf_f, of "Heartbeat node address regions now store_id"] by (simp add: g_def)
  have g: "g = ?f4 \<or> g = ?f4\<lparr>pf_version := pf_version ?f4 + 1\<rparr>" by (simp add: g_def apply_heartbeat_eq Let_def)
  then have rm: "pf_region_members g = pf_region_members ?f4" by auto
  have "all_founded ?f4" using wf_f by (intro found_all) (simp add: fsm_wf_def)
  then have founded: "found_unfounded_regions g = (g, False)" using g by (intro found_noop) (auto simp: all_founded_def)
  have "store_id = [] \<or> node \<in> fst ` set (pf_stores g)" by (auto simp: g_def bind_store_def keys_al_insert)
  then have bound: "bind_store node store_id g = g" by (auto simp: bind_store_def)
  let ?known = "map rg_id (rr_regions (pf_regions f))"
  have "\<forall>rs \<in> set regions. settled node ?known (pf_region_members ?f2) rs"
    using adopt_fold_settles [of regions node ?known "pf_region_members f" False]
    by (auto simp: adopt_grown_voters_def split: prod.splits)
  then have "\<forall>rs \<in> set regions. settled node ?known (pf_region_members g) rs"
    using settled_grow [OF _ found_members_grow(1) [of ?f3]] unfolding rm by simp
  then have adopted: "adopt_grown_voters g node regions = (g, False)"
    using wf by (simp add: adopt_grown_voters_def adopt_fold_noop fsm_wf_def g_def del: adopt_report.simps)
  have "fst (mb_heartbeat (pf_members g) node address regions now) = pf_members g"
    using heartbeat_twice [of "pf_members f" node address regions now] wf_f by (simp add: g_def fsm_wf_def)
  moreover have "node \<in> fst ` set (mb_nodes (pf_members g))" by (simp add: g_def mb_heartbeat_def Let_def keys_al_insert)
  ultimately show ?thesis by (simp add: apply_heartbeat_eq Let_def bound adopted founded)
qed

lemma declare_twice: "declare_table (declare_table f name regime) name regime = declare_table f name regime"
  by (auto simp: declare_table_def Let_def)

lemma pd_apply_cmd_twice:
  assumes "fsm_wf f"
  shows "pd_apply_cmd (pd_apply_cmd f c) c = pd_apply_cmd f c"
proof (cases c)
  case (DeclareTable name regime)
  let ?f = "declare_table f name regime"
  have d: "declare_table (fst (found_unfounded_regions ?f)) name regime = fst (found_unfounded_regions ?f)"
    using declare_twice [of f name regime]
    by (auto simp: declare_table_def Let_def)
  have "all_founded (fst (found_unfounded_regions ?f))" using assms by (intro found_all) (simp add: fsm_wf_def)
  then show ?thesis by (simp add: DeclareTable d found_noop)
next
  case (Heartbeat node address regions now store_id)
  then show ?thesis using apply_heartbeat_twice [OF assms refl] by simp
qed simp

section \<open>Every region is a table\<close>

definition table_start :: "nat \<Rightarrow> bytes" where
  "table_start i = (if i = 0 then [] else table_prefix (word_of_nat i))"

text \<open>Table \<open>i\<close> of \<open>n\<close> and its region, as \<open>declare_table\<close> lays them out.\<close>

definition is_region_of :: "nat \<Rightarrow> nat \<Rightarrow> region \<Rightarrow> bool" where
  "is_region_of n i r \<longleftrightarrow> rg_id r = word_of_nat (Suc i) \<and> rg_start r = table_start i \<and>
     rg_end r = (if Suc i = n then [] else table_start (Suc i))"

definition tabled :: "pd_fsm \<Rightarrow> bool" where
  "tabled f \<longleftrightarrow> (let n = unat (pf_next_table_id f) in
     0 < n \<and> length (rr_regions (pf_regions f)) = n \<and> (\<forall>i < n. is_region_of n i (rr_regions (pf_regions f) ! i)) \<and>
     rr_next_id (pf_regions f) = word_of_nat (Suc n) \<and>
     map tb_id (pf_catalog f) = map word_of_nat [0..<n] \<and> distinct (map tb_name (pf_catalog f)))"

lemma table_prefix_not_Nil [simp]: "table_prefix i \<noteq> []"
  using u32_to_be_length [of i] by (auto simp: table_prefix_def)

lemma table_prefix_less_iff: "table_prefix i < table_prefix j \<longleftrightarrow> i < j"
  by (simp add: table_prefix_def u32_to_be_less_iff)

lemma table_prefix_less: "i < n \<Longrightarrow> n < 2 ^ 32 \<Longrightarrow> table_start i < table_prefix (word_of_nat n)"
  by (auto simp: table_start_def table_prefix_less_iff word_less_nat_alt unat_of_nat neq_Nil_conv dest: sym)
     (metis table_prefix_not_Nil neq_Nil_conv Nil_less_Cons)

lemma table_start_mono: "i \<le> j \<Longrightarrow> j < 2 ^ 32 \<Longrightarrow> table_start i \<le> table_start j"
  using table_prefix_less [of i j] by (cases "i = j") (auto simp: table_start_def)

lemma tabled_new: "tabled pd_fsm_new"
  by (simp add: tabled_def pd_fsm_new_def registry_in_memory_def whole_keyspace_def is_region_of_def table_start_def DEFAULT_TABLE_ID_def)

lemma declare_split:
  assumes "length rs = n" "0 < n" "n < 2 ^ 32" and regs: "\<forall>i < n. is_region_of n i (rs ! i)" and g: "rr_regions g = rs"
  shows "rr_regions (fst (registry_split io g (table_prefix (word_of_nat n)))) =
      butlast rs @ [split_left (last rs) (table_prefix (word_of_nat n)), split_right g (last rs) (table_prefix (word_of_nat n))]"
    and "rr_next_id (fst (registry_split io g (table_prefix (word_of_nat n)))) = rr_next_id g + 1"
proof -
  let ?key = "table_prefix (word_of_nat n)"
  have rs: "rs = butlast rs @ last rs # []" using assms(1,2) by (cases rs rule: rev_cases) auto
  have lst: "last rs = rs ! (n - 1)" using assms(1,2) last_conv_nth [of rs] by auto
  have l: "is_region_of n (n - 1) (last rs)" unfolding lst using regs assms(2) by simp
  then have start: "rg_start (last rs) < ?key" using table_prefix_less [of "n - 1" n] assms(2,3) by (simp add: is_region_of_def)
  have "\<not> region_contains r ?key" if r_in: "r \<in> set (butlast rs)" for r
  proof -
    obtain i where i: "i < n - 1" "r = rs ! i" using r_in assms(1) by (auto simp: in_set_conv_nth nth_butlast)
    then have "is_region_of n i r" using regs by simp
    then have "rg_end r = table_start (Suc i)" using i(1) by (auto simp: is_region_of_def)
    moreover have "table_start (Suc i) < ?key" using table_prefix_less [of "Suc i" n] i(1) assms(3) by simp
    moreover have "table_start (Suc i) \<noteq> []" using u32_to_be_length [of "word_of_nat (Suc i)"] by (auto simp: table_start_def table_prefix_def)
    ultimately show ?thesis by (auto simp: region_contains_def)
  qed
  moreover have "region_contains (last rs) ?key" using l start assms(2) by (auto simp: region_contains_def is_region_of_def)
  ultimately have "position (\<lambda>r. region_contains r ?key) (rr_regions g) = Some (length (butlast rs))"
    unfolding g by (subst rs) (rule position_append, auto)
  from split_regions [OF _ this start, of "[]" io] show
    "rr_regions (fst (registry_split io g ?key)) = butlast rs @ [split_left (last rs) ?key, split_right g (last rs) ?key]"
    "rr_next_id (fst (registry_split io g ?key)) = rr_next_id g + 1"
    using rs g by auto
qed

lemma tabled_declare:
  assumes "tabled f"
  shows "tabled (declare_table f name regime)"
proof (cases "declare_table f name regime = f")
  case False
  define n where "n = unat (pf_next_table_id f)"
  define rs where "rs = rr_regions (pf_regions f)"
  let ?key = "table_prefix (word_of_nat n)" and ?f = "declare_table f name regime"
  have d: "?f = f\<lparr>pf_next_table_id := pf_next_table_id f + 1,
         pf_catalog := pf_catalog f @ [\<lparr>tb_id = pf_next_table_id f, tb_name = name, tb_regime = regime\<rparr>],
         pf_regions := fst (registry_split True (pf_regions f) (table_prefix (pf_next_table_id f))), pf_version := pf_version f + 1\<rparr>"
    and fresh: "name \<notin> tb_name ` set (pf_catalog f)" and max: "pf_next_table_id f \<noteq> - 1"
    using False unfolding declare_table_def Let_def by (simp_all split: if_splits)
  have w: "pf_next_table_id f = word_of_nat n" by (simp add: n_def)
  have inv: "0 < n" "length rs = n" "\<forall>i < n. is_region_of n i (rs ! i)" "rr_next_id (pf_regions f) = word_of_nat (Suc n)"
    "map tb_id (pf_catalog f) = map word_of_nat [0..<n]" "distinct (map tb_name (pf_catalog f))"
    using assms by (simp_all add: tabled_def n_def rs_def Let_def)
  have lt: "n < 2 ^ 32" using unat_u32_lt [of "pf_next_table_id f"] by (simp add: n_def)
  have n': "unat (pf_next_table_id f + 1) = Suc n"
    using max unat_u32_lt [of "pf_next_table_id f"] unsigned_minus_1_eq_mask [where ?'a = nat and ?'b = 32]
    by (simp add: n_def unat_word_ariths word_unat_eq_iff mask_eq_exp_minus_1)
  note split = declare_split [OF inv(2,1) lt inv(3) rs_def [symmetric], where io = True]
  have lst: "is_region_of n (n - 1) (last rs)" using inv(1-3) last_conv_nth [of rs] by auto
  let ?rs = "butlast rs @ [split_left (last rs) ?key, split_right (pf_regions f) (last rs) ?key]"
  have "is_region_of (Suc n) i (?rs ! i)" if i_lt: "i < Suc n" for i
  proof -
    consider "i < n - 1" | "i = n - 1" | "i = n" using i_lt inv(1) by linarith
    then show ?thesis
    proof cases
      case 1
      then have "?rs ! i = rs ! i" using inv(2) by (simp add: nth_append nth_butlast)
      with 1 inv(3) show ?thesis by (auto simp: is_region_of_def)
    next
      case 2
      then have "?rs ! i = split_left (last rs) ?key" using inv(2) by (simp add: nth_append)
      with 2 lst inv(1) show ?thesis by (auto simp: is_region_of_def split_left_def table_start_def)
    next
      case 3
      then have "?rs ! i = split_right (pf_regions f) (last rs) ?key" using inv(1,2) by (simp add: nth_append)
      with 3 lst inv(1,4) show ?thesis by (auto simp: is_region_of_def split_right_def table_start_def)
    qed
  qed
  moreover have "length ?rs = Suc n" using inv(1,2) by simp
  ultimately show ?thesis
    using split inv(4-6) fresh n' unfolding d tabled_def Let_def
    by (simp add: w [symmetric] del: upt_Suc) (simp add: w rs_def upt_Suc)
qed (use assms in simp)

lemma tabled_apply_cmd: "tabled f \<Longrightarrow> tabled (pd_apply_cmd f c)"
  by (cases c) (use tabled_declare [of f] in \<open>auto simp: tabled_def\<close>)

lemma tabled_apply_log: "tabled f \<Longrightarrow> tabled (apply_log entries f)"
  by (induction entries arbitrary: f) (auto simp: pd_apply_def tabled_apply_cmd split: option.splits)

lemma region_of_contains:
  assumes "is_region_of n i r" "i < n" "n < 2 ^ 32" "4 \<le> length key"
  shows "region_contains r key \<longleftrightarrow> i = min (unat (table_id_of key)) (n - 1)"
proof -
  have "table_start j \<le> key \<longleftrightarrow> j \<le> unat (table_id_of key)" if "j < 2 ^ 32" for j
    using table_prefix_key(1) [OF assms(4), of "word_of_nat j"] that
    by (auto simp: table_start_def word_le_nat_alt unat_of_nat)
  moreover have "key < table_start (Suc i) \<longleftrightarrow> unat (table_id_of key) < Suc i"
    using table_prefix_key(2) [OF assms(4), of "word_of_nat (Suc i)"] assms(2,3)
    by (simp add: table_start_def word_less_nat_alt unat_of_nat del: of_nat_Suc)
  ultimately show ?thesis
    using assms(1-3) by (auto simp: is_region_of_def region_contains_def table_start_def)
qed

lemma tabled_route:
  assumes "tabled f" "4 \<le> length key"
  shows "registry_route (pf_regions f) key =
    Some (rr_regions (pf_regions f) ! min (unat (table_id_of key)) (unat (pf_next_table_id f) - 1))"
proof -
  define n where "n = unat (pf_next_table_id f)"
  let ?rs = "rr_regions (pf_regions f)" and ?i = "min (unat (table_id_of key)) (n - 1)"
  have inv: "0 < n" "length ?rs = n" "\<forall>i < n. is_region_of n i (?rs ! i)"
    using assms(1) by (simp_all add: tabled_def n_def Let_def)
  have "n < 2 ^ 32" using unat_u32_lt [of "pf_next_table_id f"] by (simp add: n_def)
  then have c: "region_contains (?rs ! i) key \<longleftrightarrow> i = ?i" if "i < n" for i
    using region_of_contains assms(2) inv(3) that by blast
  have i: "?i < n" using inv(1) by (auto simp: min_def)
  have "\<not> region_contains (?rs ! j) key" if "j < ?i" for j using c [OF order.strict_trans [OF that i]] that by (metis less_irrefl)
  then have "find (\<lambda>r. region_contains r key) ?rs = Some (?rs ! ?i)"
    unfolding find_Some_iff using c [OF i] i inv(2) by (intro exI [of _ ?i]) simp
  then show ?thesis by (simp add: registry_route_def n_def)
qed

lemma table_id_of_start: "i < 2 ^ 32 \<Longrightarrow> table_id_of (table_start i) = word_of_nat i"
  by (simp add: table_start_def table_id_of_def table_prefix_def TABLE_PREFIX_LEN_def DEFAULT_TABLE_ID_def)

text \<open>C27: Every region is a table and every table is a region. After any log, malformed entries
  included, the region table consists of \<open>["", be32(1))\<close>, \<open>[be32(1), be32(2))\<close>, ..., \<open>[be32(n - 1), +inf)\<close>
  with the ids \<open>1, ..., n\<close>, where \<open>n\<close> is the next table id; the catalog holds the tables \<open>0, ..., n - 1\<close>
  under different names; a stored key is routed to the region of its table, and the regime derived
  from the start of that region is the regime of the key.\<close>

theorem every_region_is_a_table:
  assumes "f = apply_log entries pd_fsm_new" "n = unat (pf_next_table_id f)"
  shows "0 < n \<and> length (rr_regions (pf_regions f)) = n \<and>
    (\<forall>i < n. is_region_of n i (rr_regions (pf_regions f) ! i)) \<and>
    map tb_id (pf_catalog f) = map word_of_nat [0..<n] \<and> distinct (map tb_name (pf_catalog f)) \<and>
    (\<forall>key. 4 \<le> length key \<and> unat (table_id_of key) < n \<longrightarrow>
       registry_route (pf_regions f) key = Some (rr_regions (pf_regions f) ! unat (table_id_of key)) \<and>
       regime_for f (rg_start (rr_regions (pf_regions f) ! unat (table_id_of key))) = regime_for f key)"
proof -
  have t: "tabled f" unfolding assms(1) by (rule tabled_apply_log [OF tabled_new])
  then have inv: "0 < n" "length (rr_regions (pf_regions f)) = n" "\<forall>i < n. is_region_of n i (rr_regions (pf_regions f) ! i)"
    "map tb_id (pf_catalog f) = map word_of_nat [0..<n]" "distinct (map tb_name (pf_catalog f))"
    by (simp_all add: tabled_def assms(2) Let_def)
  have lt: "n < 2 ^ 32" using unat_u32_lt [of "pf_next_table_id f"] by (simp add: assms(2))
  have "registry_route (pf_regions f) key = Some (rr_regions (pf_regions f) ! unat (table_id_of key))"
    "regime_for f (rg_start (rr_regions (pf_regions f) ! unat (table_id_of key))) = regime_for f key"
    if "4 \<le> length key" "unat (table_id_of key) < n" for key
  proof -
    have "is_region_of n (unat (table_id_of key)) (rr_regions (pf_regions f) ! unat (table_id_of key))" using inv(3) that(2) by simp
    then show "regime_for f (rg_start (rr_regions (pf_regions f) ! unat (table_id_of key))) = regime_for f key"
      using table_id_of_start [of "unat (table_id_of key)"] that(2) lt by (simp add: is_region_of_def regime_for_def)
    show "registry_route (pf_regions f) key = Some (rr_regions (pf_regions f) ! unat (table_id_of key))"
      using tabled_route [OF t that(1)] that(2) by (simp add: assms(2) min_def)
  qed
  with inv show ?thesis by blast
qed

theorem every_region_is_a_table_witness:
  "let f = apply_log [pd_cmd_encode (DeclareTable [0x74] Ap)] pd_fsm_new
   in registry_route (pf_regions f) (table_key 1 [0x6B]) = Some (rr_regions (pf_regions f) ! 1)"
proof -
  let ?f = "apply_log [pd_cmd_encode (DeclareTable [0x74] Ap)] pd_fsm_new"
  have "pf_next_table_id ?f = 2"
    by (simp add: pd_apply_encode cmd_fits_def declare_table_def pd_fsm_new_def DEFAULT_TABLE_ID_def DEFAULT_TABLE_NAME_def Let_def
        del: pd_cmd_encode.simps)
  moreover have "4 \<le> length (table_key 1 [0x6B])" by (simp add: table_key_def table_prefix_def)
  moreover have "unat (table_id_of (table_key 1 [0x6B])) = 1" by simp
  ultimately show ?thesis
    using every_region_is_a_table [OF refl refl, of "[pd_cmd_encode (DeclareTable [0x74] Ap)]"]
    by (simp del: pd_cmd_encode.simps fold_simps)
qed

text \<open>C28: What the log never takes back. Whatever entries are applied to whatever state, the timestamp
  high-water and the next table id do not go down, a node stays bound to the store it was first heard
  from, no region loses a voter, and the catalog is only extended; and on a state reached from a fresh
  one by a log, applying an entry a second time changes nothing.\<close>

theorem log_is_monotone:
  "pf_tso_upper f \<le> pf_tso_upper (apply_log entries f) \<and>
   pf_next_table_id f \<le> pf_next_table_id (apply_log entries f) \<and>
   map_of (pf_stores f) \<subseteq>\<^sub>m map_of (pf_stores (apply_log entries f)) \<and>
   (\<forall>r. set (members_of (pf_region_members f) r) \<subseteq> set (members_of (pf_region_members (apply_log entries f)) r)) \<and>
   prefix (pf_catalog f) (pf_catalog (apply_log entries f)) \<and>
   pd_apply (pd_apply (apply_log entries pd_fsm_new) e) e = pd_apply (apply_log entries pd_fsm_new) e"
proof -
  have "pd_apply (pd_apply (apply_log entries pd_fsm_new) e) e = pd_apply (apply_log entries pd_fsm_new) e"
    using pd_apply_cmd_twice [OF fsm_wf_apply_log [OF fsm_wf_new]] by (simp add: pd_apply_def split: option.splits)
  with apply_log_le [of f entries] show ?thesis by (simp add: fsm_le_def members_grow_def)
qed

section \<open>Snapshots\<close>

lemma reads_table:
  assumes "fits_u32 (tb_name t)" "valid_utf8 (tb_name t)"
  shows "reads get_table (put_table t) t"
  unfolding reads_def
proof (intro allI impI)
  fix buf pos rest
  assume "at_rest buf pos (put_table t @ rest)"
  then have a: "at_rest buf pos (put_bytes (tb_name t) @ [regime_tag (tb_regime t)] @ u32_to_be (tb_id t) @ rest)"
    by (simp add: put_table_def)
  note b = at_rest_next [OF a] note c = at_rest_next [OF b]
  show "get_table buf pos = Some (t, pos + length (put_table t))"
    using readsD [OF reads_string [OF assms] a] readsD [OF reads_byte b] readsD [OF reads_u32 c]
    by (simp add: get_table_def put_table_def)
qed

lemma reads_region_members:
  assumes "fits_u32 (snd x)"
  shows "reads get_region_members (put_region_members x) x"
  unfolding reads_def
proof (intro allI impI)
  fix buf pos rest
  obtain i vs where x: "x = (i, vs)" by fastforce
  assume "at_rest buf pos (put_region_members x @ rest)"
  then have a: "at_rest buf pos (u64_to_be i @ u32_to_be (word_of_nat (length vs)) @ concat (map u64_to_be vs) @ rest)"
    by (simp add: put_region_members_def x)
  note b = at_rest_next [OF a] note c = at_rest_next [OF b]
  have "get_many get_u64 (length vs) buf (pos + length (u64_to_be i) + length (u32_to_be (word_of_nat (length vs))))
      = Some (vs, pos + length (put_region_members x))"
    using readsD [OF u64_codec.list_reads c] by (simp add: put_region_members_def x)
  then show "get_region_members buf pos = Some (x, pos + length (put_region_members x))"
    using readsD [OF reads_u64 a] readsD [OF reads_u32 b] assms
    by (simp add: get_region_members_def x)
qed

lemma reads_store:
  assumes "fits_u32 (snd x)" "valid_utf8 (snd x)"
  shows "reads get_store (put_store x) x"
  unfolding reads_def
proof (intro allI impI)
  fix buf pos rest
  obtain i bs where x: "x = (i, bs)" by fastforce
  assume "at_rest buf pos (put_store x @ rest)"
  then have a: "at_rest buf pos (u64_to_be i @ put_bytes bs @ rest)" by (simp add: put_store_def x)
  note b = at_rest_next [OF a]
  show "get_store buf pos = Some (x, pos + length (put_store x))"
    using readsD [OF reads_u64 a] readsD [OF reads_string b] assms by (simp add: get_store_def put_store_def x)
qed

interpretation table_codec: byte_codec put_table get_table "\<lambda>t. fits_u32 (tb_name t) \<and> valid_utf8 (tb_name t)"
  by unfold_locales (simp add: reads_table)

interpretation region_members_codec: byte_codec put_region_members get_region_members "\<lambda>x. fits_u32 (snd x)"
  by unfold_locales (rule reads_region_members)

interpretation store_codec: byte_codec put_store get_store "\<lambda>x. fits_u32 (snd x) \<and> valid_utf8 (snd x)"
  by unfold_locales (simp add: reads_store)

text \<open>What a snapshot can hold: at most \<open>u32::MAX\<close> of everything it counts.\<close>

definition fsm_fits :: "pd_fsm \<Rightarrow> bool" where
  "fsm_fits f \<longleftrightarrow> membership_fits (pf_members f) \<and> regions_fit (rr_regions (pf_regions f)) \<and>
     fits_u32 (pf_catalog f) \<and> (\<forall>t \<in> set (pf_catalog f). fits_u32 (tb_name t) \<and> valid_utf8 (tb_name t)) \<and>
     strict_keys (pf_region_members f) \<and> fits_u32 (pf_region_members f) \<and> (\<forall>x \<in> set (pf_region_members f). fits_u32 (snd x)) \<and>
     strict_keys (pf_stores f) \<and> fits_u32 (pf_stores f) \<and> (\<forall>x \<in> set (pf_stores f). fits_u32 (snd x) \<and> valid_utf8 (snd x))"

lemma get_stores_put:
  assumes "at_rest buf pos (STORES_TAG @ u32_to_be (word_of_nat (length stores)) @ concat (map put_store stores) @ rest)"
    and "strict_keys stores" "fits_u32 stores" "\<forall>x \<in> set stores. fits_u32 (snd x) \<and> valid_utf8 (snd x)"
  shows "get_stores buf pos = Some (stores, pos + 8 + 4 + length (concat (map put_store stores)))"
proof -
  have tag: "take 8 (drop pos buf) = STORES_TAG" using assms(1) by (simp add: at_rest_def STORES_TAG_def)
  have len: "length STORES_TAG = 8" by (simp add: STORES_TAG_def)
  note b = at_rest_next [OF assms(1)] note c = at_rest_next [OF b]
  show ?thesis
    using readsD [OF reads_u32 b] readsD [OF store_codec.list_reads [OF assms(4)] c] assms(2,3)
    by (simp add: get_stores_def tag len btree_of_sorted)
qed

lemma get_sections_put:
  assumes a: "at_rest buf pos (u64_to_be (pf_version f) @ u32_to_be (pf_next_table_id f) @
     u32_to_be (word_of_nat (length (pf_catalog f))) @ concat (map put_table (pf_catalog f)) @
     u32_to_be (word_of_nat (length (pf_region_members f))) @ concat (map put_region_members (pf_region_members f)) @
     STORES_TAG @ u32_to_be (word_of_nat (length (pf_stores f))) @ concat (map put_store (pf_stores f)) @ rest)"
    and fits: "fsm_fits f"
  shows "\<exists>pos'. get_sections buf pos = Some (pf_version f, pf_next_table_id f, pf_catalog f, pf_region_members f, pf_stores f, pos') \<and>
    drop pos' buf = rest"
proof -
  note b = at_rest_next [OF a] note c = at_rest_next [OF b] note d = at_rest_next [OF c] note e = at_rest_next [OF d]
  note g = at_rest_next [OF e] note h = at_rest_next [OF g]
  note i = at_rest_next [OF h] note j = at_rest_next [OF i] note k = at_rest_next [OF j]
  have tag: "length STORES_TAG = 8" by (simp add: STORES_TAG_def)
  have f: "fits_u32 (pf_catalog f)" "fits_u32 (pf_region_members f)" "strict_keys (pf_region_members f)"
    "strict_keys (pf_stores f)" "fits_u32 (pf_stores f)"
    and all: "\<forall>t \<in> set (pf_catalog f). fits_u32 (tb_name t) \<and> valid_utf8 (tb_name t)"
      "\<forall>x \<in> set (pf_region_members f). fits_u32 (snd x)"
      "\<forall>x \<in> set (pf_stores f). fits_u32 (snd x) \<and> valid_utf8 (snd x)"
    using fits by (simp_all add: fsm_fits_def)
  show ?thesis
    unfolding get_sections_def
    using readsD [OF reads_u64 a] readsD [OF reads_u32 b] readsD [OF reads_u32 c]
      readsD [OF table_codec.list_reads [OF all(1)] d] readsD [OF reads_u32 e]
      readsD [OF region_members_codec.list_reads [OF all(2)] g] get_stores_put [OF h f(4,5) all(3)] f(1-3) k
    by (simp add: btree_of_sorted at_rest_def tag add.assoc)
qed

lemma restore_snapshot:
  assumes "fsm_fits f"
  shows "pd_restore g (pd_snapshot f) =
    (g\<lparr>pf_members := (pf_members g)\<lparr>mb_nodes := mb_nodes (pf_members f)\<rparr>,
       pf_regions := (pf_regions g)\<lparr>rr_regions := rr_regions (pf_regions f), rr_next_id := rr_next_id (pf_regions f)\<rparr>,
       pf_stores := pf_stores f, pf_catalog := pf_catalog f, pf_region_members := pf_region_members f,
       pf_version := max (pf_version g) (pf_version f), pf_next_table_id := max (pf_next_table_id g) (pf_next_table_id f),
       pf_tso_upper := max (pf_tso_upper g) (pf_tso_upper f)\<rparr>, True)"
proof -
  define rest where "rest = encode_regions (rr_regions (pf_regions f), rr_next_id (pf_regions f))"
  define mid where "mid = u64_to_be (pf_version f) @ u32_to_be (pf_next_table_id f) @
     u32_to_be (word_of_nat (length (pf_catalog f))) @ concat (map put_table (pf_catalog f)) @
     u32_to_be (word_of_nat (length (pf_region_members f))) @ concat (map put_region_members (pf_region_members f)) @
     STORES_TAG @ u32_to_be (word_of_nat (length (pf_stores f))) @ concat (map put_store (pf_stores f)) @ rest"
  have buf: "pd_snapshot f = u64_to_be (pf_tso_upper f) @ membership_encode (pf_members f) @ mid"
    by (simp add: pd_snapshot_def mid_def rest_def)
  have "at_rest (pd_snapshot f) (length (membership_encode (pf_members f)) + 8) mid"
    unfolding buf at_rest_def by (simp add: add.commute)
  from get_sections_put [OF this [unfolded mid_def] assms] obtain pos' where
    sections: "get_sections (pd_snapshot f) (length (membership_encode (pf_members f)) + 8) =
      Some (pf_version f, pf_next_table_id f, pf_catalog f, pf_region_members f, pf_stores f, pos')"
    and rest: "drop pos' (pd_snapshot f) = rest" by blast
  have "membership_decode (pf_members g) (drop 8 (pd_snapshot f)) =
      Some ((pf_members g)\<lparr>mb_nodes := mb_nodes (pf_members f)\<rparr>, length (membership_encode (pf_members f)))"
    using assms membership_decode_encode [of "pf_members f" "pf_members g" mid] by (simp add: buf fsm_fits_def)
  moreover have "decode_regions rest = Some (rr_regions (pf_regions f), rr_next_id (pf_regions f))"
    using decode_encode_regions [of "rr_regions (pf_regions f)" "rr_next_id (pf_regions f)" "[]"] assms
    by (simp add: rest_def fsm_fits_def)
  moreover have "\<not> length (pd_snapshot f) < 8" "u64_of_be (take 8 (pd_snapshot f)) = pf_tso_upper f" by (simp_all add: buf)
  ultimately show ?thesis
    by (simp add: pd_restore_def sections rest registry_decode_from_def)
qed

text \<open>What the log leaves alone: the configuration of a replica.\<close>

definition same_config :: "pd_fsm \<Rightarrow> pd_fsm \<Rightarrow> bool" where
  "same_config f g \<longleftrightarrow> mb_seed (pf_members f) = mb_seed (pf_members g) \<and> pf_replicas f = pf_replicas g \<and>
     (\<not> rr_durable (pf_regions f) \<longrightarrow> \<not> rr_durable (pf_regions g) \<and> rr_file (pf_regions f) = rr_file (pf_regions g))"

lemma split_in_memory:
  "\<not> rr_durable g \<Longrightarrow> \<not> rr_durable (fst (registry_split io g key)) \<and> rr_file (fst (registry_split io g key)) = rr_file g"
  by (auto simp: registry_split_def registry_persist_def Let_def split: option.splits)

lemma same_config_apply: "same_config f (pd_apply f e)"
proof -
  have "same_config f (pd_apply_cmd f c)" for c
    by (cases c) (auto simp: same_config_def declare_table_def mb_heartbeat_def split_in_memory Let_def)
  then show ?thesis by (auto simp: pd_apply_def same_config_def split: option.splits)
qed

lemma same_config_log: "same_config f (apply_log entries f)"
proof (induction entries arbitrary: f)
  case (Cons e entries)
  from Cons [of "pd_apply f e"] same_config_apply [of f e] show ?case by (auto simp: same_config_def)
qed (simp add: same_config_def)

text \<open>C29: A snapshot carries the whole machine. The state any log produces from a fresh replica is exactly
  what a fresh replica restores from its snapshot, provided the counts fit the image; a replica that is
  further along keeps its own high-water marks.\<close>

theorem snapshot_restores:
  assumes "f = apply_log entries pd_fsm_new" "fsm_fits f" "pf_version f \<noteq> 0"
  shows "pd_restore pd_fsm_new (pd_snapshot f) = (f, True) \<and>
    pf_tso_upper (fst (pd_restore g (pd_snapshot f))) = max (pf_tso_upper g) (pf_tso_upper f) \<and>
    pf_next_table_id (fst (pd_restore g (pd_snapshot f))) = max (pf_next_table_id g) (pf_next_table_id f) \<and>
    pf_catalog (fst (pd_restore g (pd_snapshot f))) = pf_catalog f \<and>
    pf_region_members (fst (pd_restore g (pd_snapshot f))) = pf_region_members f"
proof -
  have c: "same_config pd_fsm_new f" and t: "tabled f"
    unfolding assms(1) by (rule same_config_log, rule tabled_apply_log [OF tabled_new])
  have "1 \<le> pf_version f" "1 \<le> pf_next_table_id f"
    using assms(3) t by (auto simp: tabled_def word_le_nat_alt Let_def word_unat_eq_iff)
  then have "pd_restore pd_fsm_new (pd_snapshot f) = (f, True)"
    using c restore_snapshot [OF assms(2), of pd_fsm_new]
    by (cases f, cases "pf_members f", cases "pf_regions f")
       (auto simp: same_config_def pd_fsm_new_def membership_new_def registry_in_memory_def DEFAULT_TABLE_ID_def max_def)
  then show ?thesis by (simp add: restore_snapshot [OF assms(2)])
qed

theorem snapshot_restores_witness:
  "let f = apply_log [pd_cmd_encode (ReserveTs 5)] pd_fsm_new
   in pf_tso_upper f = 5 \<and> pd_restore pd_fsm_new (pd_snapshot f) = (f, True)"
proof -
  let ?f = "apply_log [pd_cmd_encode (ReserveTs 5)] pd_fsm_new"
  have f: "?f = pd_fsm_new\<lparr>pf_tso_upper := 5\<rparr>"
    by (simp add: pd_apply_encode cmd_fits_def pd_fsm_new_def max_def word_le_nat_alt del: pd_cmd_encode.simps)
  have "valid_utf8 DEFAULT_TABLE_NAME" by (simp add: DEFAULT_TABLE_NAME_def)
  then have "fsm_fits ?f"
    unfolding f by (simp add: fsm_fits_def pd_fsm_new_def membership_fits_def membership_new_def regions_fit_def
        registry_in_memory_def whole_keyspace_def region_fits_def DEFAULT_TABLE_NAME_def)
  moreover have "pf_version ?f \<noteq> 0" unfolding f by (simp add: pd_fsm_new_def)
  ultimately show ?thesis using snapshot_restores [OF refl, of "[pd_cmd_encode (ReserveTs 5)]"] f by (simp add: Let_def)
qed

section \<open>Assignments\<close>

lemma desired_voters_props:
  "prefix members (desired_voters n members live) \<and> set (desired_voters n members live) \<subseteq> set members \<union> set live \<and>
   length (desired_voters n members live) \<le> max n (length members) \<and>
   (length (desired_voters n members live) < n \<longrightarrow> set live \<subseteq> set (desired_voters n members live)) \<and>
   (distinct members \<longrightarrow> distinct (desired_voters n members live))"
proof (induction n members live rule: desired_voters.induct)
  case (2 n members i live)
  show ?case
  proof (cases "length members \<ge> n")
    case False
    let ?ms = "if i \<in> set members then members else members @ [i]"
    have "prefix members ?ms" "set ?ms = insert i (set members)" "distinct members \<longrightarrow> distinct ?ms" "length ?ms \<le> n" using False by auto
    moreover have "desired_voters n members (i # live) = desired_voters n ?ms live" using False by simp
    moreover note 2 [OF False]
    ultimately show ?thesis
      by (auto dest: set_mono_prefix simp: prefix_def max_def split: if_splits)
  qed auto
qed simp

text \<open>An assignment never removes a voter and grows a region towards the replication target: the
  desired set starts with the voters, adds live nodes only, stops at the target, and falls short of it
  only when every live node is in it. With a catalog, a node is sent exactly the regions whose desired
  set names it.\<close>

theorem assignment_grows_to_target:
  assumes "rs \<in> set (assignment f)"
  shows "rp_voters rs = members_of (pf_region_members f) (rg_id (rp_region rs)) \<and> rp_region rs \<in> set (rr_regions (pf_regions f)) \<and>
    prefix (rp_voters rs) (rp_desired rs) \<and> set (rp_desired rs) \<subseteq> set (rp_voters rs) \<union> set (live_nodes (pf_members f)) \<and>
    length (rp_desired rs) \<le> max (pf_replicas f) (length (rp_voters rs)) \<and>
    (length (rp_desired rs) < pf_replicas f \<longrightarrow> set (live_nodes (pf_members f)) \<subseteq> set (rp_desired rs)) \<and>
    (pf_version f \<noteq> 0 \<longrightarrow> (rs \<in> set (assignment_for f node) \<longleftrightarrow> node \<in> set (rp_desired rs)))"
proof -
  obtain r where r: "r \<in> set (rr_regions (pf_regions f))" and rs: "rs = (let voters = members_of (pf_region_members f) (rg_id r)
      in \<lparr>rp_region = r, rp_regime = regime_for f (rg_start r), rp_voters = voters,
          rp_desired = desired_voters (pf_replicas f) voters (live_nodes (pf_members f))\<rparr>)"
    using assms by (auto simp: assignment_def)
  have "set (rp_voters rs) \<subseteq> set (rp_desired rs)"
    using desired_voters_props [of "members_of (pf_region_members f) (rg_id r)"] by (simp add: rs Let_def set_mono_prefix)
  then have "pf_version f \<noteq> 0 \<longrightarrow> (rs \<in> set (assignment_for f node) \<longleftrightarrow> node \<in> set (rp_desired rs))"
    using assms by (auto simp: assignment_for_def)
  then show ?thesis
    using r desired_voters_props [of "members_of (pf_region_members f) (rg_id r)" "pf_replicas f" "live_nodes (pf_members f)"]
    by (simp add: rs Let_def)
qed

lemmas fsm_eval = apply_heartbeat_def bind_store_def adopt_grown_voters_def found_unfounded_regions_def pd_fsm_new_def
  membership_new_def registry_in_memory_def whole_keyspace_def mb_heartbeat_def assign_def replica_bare_def live_nodes_def
  node_addrs_def members_of_def DEFAULT_REPLICAS_def DEFAULT_TABLE_ID_def DEFAULT_TABLE_NAME_def declare_table_def Let_def

text \<open>Node 1 was last heard from at time 0, node 2 at time 20000.\<close>

definition two_nodes :: pd_fsm where
  "two_nodes = pd_apply_cmd (pd_apply_cmd pd_fsm_new (Heartbeat 1 [0x61] [] 0 [])) (Heartbeat 2 [0x62] [] 20000 [])"

lemma two_nodes_eq:
  "two_nodes = pd_fsm_new\<lparr>pf_version := 3, pf_region_members := [(1, [1])],
     pf_members := \<lparr>mb_nodes = [(1, \<lparr>ns_address = [0x61], ns_last_seen = 0, ns_down = False,
         ns_regions = [replica_bare (whole_keyspace 1)]\<rparr>),
       (2, \<lparr>ns_address = [0x62], ns_last_seen = 20000, ns_down = False, ns_regions = []\<rparr>)], mb_seed = []\<rparr>\<rparr>"
  by (simp add: two_nodes_def fsm_eval word_less_nat_alt)

theorem assignment_grows_to_target_witness:
  "\<exists>rs \<in> set (assignment two_nodes). rp_voters rs = [1] \<and> rp_desired rs = [1, 2] \<and> rs \<in> set (assignment_for two_nodes 2)"
proof -
  let ?rs = "\<lparr>rp_region = whole_keyspace 1, rp_regime = Cp, rp_voters = [1 :: u64], rp_desired = [1, 2]\<rparr>"
  have "?rs \<in> set (assignment two_nodes)"
    by (simp add: assignment_def two_nodes_eq fsm_eval regime_for_def table_id_of_def TABLE_PREFIX_LEN_def Let_def)
  moreover have "pf_version two_nodes \<noteq> 0" by (simp add: two_nodes_eq)
  ultimately show ?thesis using assignment_grows_to_target [of ?rs two_nodes 2] by (intro bexI [of _ ?rs]) auto
qed

section \<open>Replicas that do not agree\<close>

text \<open>C30: Two replicas that apply the same entry to the same log position can disagree for good. The
  failure detector marks nodes down in the leader's view only, outside the log, and founding a region
  reads that view: after a sweep the leader founds a new table on node 2 alone, where a follower founds
  it on nodes 1 and 2.\<close>

theorem swept_leader_diverges:
  "let leader = two_nodes\<lparr>pf_members := fst (mb_sweep (pf_members two_nodes) 20000 10000)\<rparr>;
       entry = pd_cmd_encode (DeclareTable [0x74] Cp)
   in members_of (pf_region_members (pd_apply leader entry)) 2 = [2] \<and>
      members_of (pf_region_members (pd_apply two_nodes entry)) 2 = [1, 2]"
proof -
  have fits: "cmd_fits (DeclareTable [0x74] Cp)" by (simp add: cmd_fits_def)
  let ?swept = "fst (mb_sweep (pf_members two_nodes) 20000 10000)"
  have live: "live_nodes ?swept = [2]" "live_nodes (pf_members two_nodes) = [1, 2]"
    by (simp_all add: mb_sweep_def two_nodes_eq silent_def live_nodes_def)
  have ids: "map rg_id (rr_regions (pf_regions (declare_table f [0x74] Cp))) = [1, 2]" if "pf_regions f = registry_in_memory"
    "pf_catalog f = pf_catalog pd_fsm_new" "pf_next_table_id f = 1" for f
    using that declare_split(1) [of "[whole_keyspace 1]" 1 registry_in_memory True]
    by (simp add: declare_table_def pd_fsm_new_def DEFAULT_TABLE_NAME_def registry_in_memory_def whole_keyspace_def
        is_region_of_def table_start_def split_left_def split_right_def)
  have founded: "members_of (pf_region_members (pd_apply_cmd f (DeclareTable [0x74] Cp))) 2 = live_nodes (pf_members f)"
    if "pf_regions f = registry_in_memory" "pf_catalog f = pf_catalog pd_fsm_new" "pf_next_table_id f = 1"
      "pf_region_members f = [(1, [1])]" "pf_replicas f = 3" "length (live_nodes (pf_members f)) \<in> {1, 2}" for f
  proof -
    let ?f = "declare_table f [0x74] Cp"
    have "rg_id ` set (rr_regions (pf_regions ?f)) = {1, 2}" using ids [OF that(1-3)] by (metis list.simps(15) list.set(1) set_map)
    then show ?thesis
      using that(4-6) found_fold(1) [of "take 3 (live_nodes (pf_members f))" "rr_regions (pf_regions ?f)" "[(1, [1])]" False 2]
      by (auto simp: found_unfounded_regions_def Let_def members_of_def split: prod.splits)
  qed
  show ?thesis
    using founded [of two_nodes] founded [of "two_nodes\<lparr>pf_members := ?swept\<rparr>"] live
    by (simp add: Let_def pd_apply_encode [OF fits] del: pd_cmd_encode.simps pd_apply_cmd.simps)
       (simp add: two_nodes_eq pd_fsm_new_def DEFAULT_TABLE_ID_def DEFAULT_REPLICAS_def)
qed

text \<open>A snapshot that ends behind the placement view is refused, and yet the view of the replica has
  been replaced: the refusal leaves a half-applied snapshot.\<close>

lemma restore_half_applies:
  assumes "membership_fits (pf_members f)"
  shows "pd_restore g (u64_to_be (pf_tso_upper f) @ membership_encode (pf_members f)) =
    (g\<lparr>pf_members := (pf_members g)\<lparr>mb_nodes := mb_nodes (pf_members f)\<rparr>\<rparr>, False)"
proof -
  let ?buf = "u64_to_be (pf_tso_upper f) @ membership_encode (pf_members f)"
  have "get_sections ?buf (length (membership_encode (pf_members f)) + 8) = None"
    by (simp add: get_sections_def get_u64_def slice_def)
  then show ?thesis
    using membership_decode_encode [OF assms, of "pf_members g" "[]"] by (simp add: pd_restore_def Let_def)
qed

end
