(* ===== verification/Pd_Replica.thy ===== *)
theory Pd_Replica
  imports Pd_Fsm_Props Raft_Props
begin

text \<open>
  One replica of the placement driver (\<open>pd/src/replicated.rs\<close>, \<open>PdReplica\<close>): a Raft node that drives the
  state machine, the cursor of the timestamp oracle, and the compaction of the log. \<open>ready\<close> is split
  into its five stages in the order of the code. \<open>None\<close> is the panic of a failed compaction.
\<close>

definition RESERVE_WINDOW :: u64 where "RESERVE_WINDOW = 2 ^ 16"

definition COMPACT_THRESHOLD :: nat where "COMPACT_THRESHOLD = 64"

record 's pd_replica =
  pr_node :: "'s raft_node"
  pr_fsm :: pd_fsm
  pr_served :: u64
  pr_was_leader :: bool
  pr_pending_reset :: "nat option"

definition pr_recover :: "'s storage \<Rightarrow> 's pd_replica \<Rightarrow> 's pd_replica" where
  "pr_recover S r = (case st_snapshot S (rn_storage (pr_node r)) of
     None \<Rightarrow> r
   | Some snap \<Rightarrow>
       (let f = fst (pd_restore (pr_fsm r) (sn_data snap))
        in r\<lparr>pr_fsm := f, pr_served := pf_tso_upper f\<rparr>))"

definition pr_with_storage :: "'s storage \<Rightarrow> node_id \<Rightarrow> node_id list \<Rightarrow> 's \<Rightarrow> 's pd_replica" where
  "pr_with_storage S i voters st = pr_recover S
     \<lparr>pr_node = node_new S (config_new i voters) st, pr_fsm = pd_fsm_new, pr_served = 0, pr_was_leader = False,
      pr_pending_reset = None\<rparr>"

definition pr_is_leader :: "'s pd_replica \<Rightarrow> bool" where
  "pr_is_leader r \<longleftrightarrow> rn_role (pr_node r) = Leader"

definition pr_tick :: "'s storage \<Rightarrow> 's pd_replica \<Rightarrow> 's pd_replica" where
  "pr_tick S r = r\<lparr>pr_node := tick S (pr_node r)\<rparr>"

definition pr_step :: "'s storage \<Rightarrow> 's pd_replica \<Rightarrow> message \<Rightarrow> 's pd_replica" where
  "pr_step S r m = r\<lparr>pr_node := step S (pr_node r) m\<rparr>"

definition pr_propose :: "'s storage \<Rightarrow> 's pd_replica \<Rightarrow> pd_cmd \<Rightarrow> 's pd_replica \<times> (propose_error + nat)" where
  "pr_propose S r cmd = (case propose S (pr_node r) (pd_cmd_encode cmd) of (nd, res) \<Rightarrow> (r\<lparr>pr_node := nd\<rparr>, res))"

definition ready_elected :: "'s storage \<Rightarrow> 's pd_replica \<Rightarrow> 's pd_replica" where
  "ready_elected S r =
     (let leader_now = pr_is_leader r;
          r1 = (if leader_now \<and> \<not> pr_was_leader r
                then (case propose S (pr_node r) [] of
                        (nd, Inr i) \<Rightarrow> r\<lparr>pr_node := nd, pr_pending_reset := Some i\<rparr>
                      | (nd, Inl _) \<Rightarrow> r\<lparr>pr_node := nd, pr_pending_reset := None\<rparr>)
                else r)
      in r1\<lparr>pr_pending_reset := (if leader_now then pr_pending_reset r1 else None), pr_was_leader := leader_now\<rparr>)"

definition ready_install :: "'s pd_replica \<Rightarrow> 's pd_replica" where
  "ready_install r = (case take_snapshot (pr_node r) of
     (nd, None) \<Rightarrow> r\<lparr>pr_node := nd\<rparr>
   | (nd, Some (i, data)) \<Rightarrow>
       (let f = fst (pd_restore (pr_fsm r) data)
        in r\<lparr>pr_node := nd, pr_fsm := f, pr_served := max (pr_served r) (pf_tso_upper f)\<rparr>))"

definition apply_entry :: "entry \<Rightarrow> pd_fsm \<Rightarrow> pd_fsm" where
  "apply_entry e f = (if e_type e = Normal \<and> e_data e \<noteq> [] then pd_apply f (e_data e) else f)"

definition ready_apply :: "'s storage \<Rightarrow> 's pd_replica \<Rightarrow> 's pd_replica \<times> nat list" where
  "ready_apply S r = (case take_committed S (pr_node r) of (nd, es) \<Rightarrow>
     (r\<lparr>pr_node := nd, pr_fsm := fold apply_entry es (pr_fsm r)\<rparr>, map e_index es))"

definition ready_reset :: "'s pd_replica \<Rightarrow> 's pd_replica" where
  "ready_reset r = (case pr_pending_reset r of
     None \<Rightarrow> r
   | Some i \<Rightarrow> (if i \<le> rn_last_applied (pr_node r)
                then r\<lparr>pr_served := pf_tso_upper (pr_fsm r), pr_pending_reset := None\<rparr> else r))"

definition ready_compact :: "'s storage \<Rightarrow> 's pd_replica \<Rightarrow> 's pd_replica option" where
  "ready_compact S r =
     (if rn_last_applied (pr_node r) + 1 \<ge> st_first_index S (rn_storage (pr_node r)) + COMPACT_THRESHOLD
      then map_option (\<lambda>nd. r\<lparr>pr_node := nd\<rparr>) (node_compact S (pr_node r) (rn_last_applied (pr_node r)) (pd_snapshot (pr_fsm r)))
      else Some r)"

definition pr_ready :: "'s storage \<Rightarrow> 's pd_replica \<Rightarrow> ('s pd_replica \<times> message list \<times> nat list) option" where
  "pr_ready S r = (case ready_apply S (ready_install (ready_elected S r)) of (r1, committed) \<Rightarrow>
     (case ready_compact S (ready_reset r1) of
        None \<Rightarrow> None
      | Some r2 \<Rightarrow> (case take_messages (pr_node r2) of (nd, ms) \<Rightarrow> Some (r2\<lparr>pr_node := nd\<rparr>, ms, committed))))"

text \<open>Sums of timestamps wrap as in a release build.\<close>

definition hand_out :: "'s pd_replica \<Rightarrow> u64 \<Rightarrow> 's pd_replica \<times> u64 option" where
  "hand_out r count =
     (let count = max count 1
      in if pr_is_leader r \<and> pr_served r + count \<le> pf_tso_upper (pr_fsm r)
         then (r\<lparr>pr_served := pr_served r + count\<rparr>, Some (pr_served r))
         else (r, None))"

definition reserve_ts_cmd :: "'s pd_replica \<Rightarrow> u64 \<Rightarrow> pd_cmd" where
  "reserve_ts_cmd r count =
     (let need = pr_served r + max count 1
      in ReserveTs (max need (pf_tso_upper (pr_fsm r)) + RESERVE_WINDOW))"

section \<open>The timestamps of one replica\<close>

lemma restore_upper: "pf_tso_upper f \<le> pf_tso_upper (fst (pd_restore f data))"
  by (auto simp: pd_restore_def Let_def split: option.splits prod.splits bool.splits)

lemma apply_entry_upper: "pf_tso_upper f \<le> pf_tso_upper (apply_entry e f)"
  using apply_log_le [of f "[e_data e]"] by (simp add: apply_entry_def fsm_le_def)

lemma apply_entries_upper: "pf_tso_upper f \<le> pf_tso_upper (fold apply_entry es f)"
proof (induction es arbitrary: f)
  case (Cons e es)
  from apply_entry_upper [of f e] Cons [of "apply_entry e f"] show ?case by simp
qed simp

text \<open>The cursor never runs ahead of the high-water.\<close>

definition cursor_ok :: "'s pd_replica \<Rightarrow> bool" where
  "cursor_ok r \<longleftrightarrow> pr_served r \<le> pf_tso_upper (pr_fsm r)"

lemma ready_elected_sel [simp]: "pr_fsm (ready_elected S r) = pr_fsm r" "pr_served (ready_elected S r) = pr_served r"
  by (simp_all add: ready_elected_def Let_def split: prod.splits sum.splits)

lemma ready_compact_sel: "ready_compact S r = Some r' \<Longrightarrow> pr_fsm r' = pr_fsm r \<and> pr_served r' = pr_served r"
  by (auto simp: ready_compact_def split: if_splits)

text \<open>Where a replica has got to: its cursor and its high-water only move up.\<close>

definition cursor_le :: "'s pd_replica \<Rightarrow> 's pd_replica \<Rightarrow> bool" where
  "cursor_le r r' \<longleftrightarrow> pr_served r \<le> pr_served r' \<and> pf_tso_upper (pr_fsm r) \<le> pf_tso_upper (pr_fsm r')"

lemma ready_install_cursor: "cursor_ok r \<Longrightarrow> cursor_ok (ready_install r) \<and> cursor_le r (ready_install r)"
  using restore_upper [of "pr_fsm r"]
  by (auto simp: ready_install_def take_snapshot_def cursor_ok_def cursor_le_def Let_def split: option.splits)
     (meson order.trans restore_upper)

lemma ready_apply_cursor: "cursor_ok r \<Longrightarrow> cursor_ok (fst (ready_apply S r)) \<and> cursor_le r (fst (ready_apply S r))"
  using apply_entries_upper [of "pr_fsm r" "snd (take_committed S (pr_node r))"]
  by (auto simp: ready_apply_def cursor_ok_def cursor_le_def split: prod.splits)

lemma ready_reset_cursor: "cursor_ok r \<Longrightarrow> cursor_ok (ready_reset r) \<and> cursor_le r (ready_reset r)"
  by (auto simp: ready_reset_def cursor_ok_def cursor_le_def split: option.splits)

lemma pr_ready_cursor:
  assumes "cursor_ok r" "pr_ready S r = Some (r', out)"
  shows "cursor_ok r' \<and> cursor_le r r'"
proof -
  let ?a = "ready_install (ready_elected S r)"
  let ?b = "fst (ready_apply S ?a)"
  have e: "cursor_ok (ready_elected S r)" "cursor_le r (ready_elected S r)" using assms(1) by (simp_all add: cursor_ok_def cursor_le_def)
  obtain r2 where c: "ready_compact S (ready_reset ?b) = Some r2" and r': "pr_fsm r' = pr_fsm r2" "pr_served r' = pr_served r2"
    using assms(2) by (auto simp: pr_ready_def take_messages_def split: prod.splits option.splits)
  show ?thesis
    using ready_install_cursor [OF e(1)] ready_apply_cursor [of ?a S] ready_reset_cursor [of ?b] ready_compact_sel [OF c] e(2) r'
    by (auto simp: cursor_ok_def cursor_le_def)
qed

datatype replica_event = RTick | RStep message | RPropose pd_cmd | RReady | RHandOut u64

text \<open>The ranges a run hands out; a panic ends the run.\<close>

fun replica_run :: "'s storage \<Rightarrow> replica_event list \<Rightarrow> 's pd_replica \<Rightarrow> (u64 \<times> u64) list" where
  "replica_run S [] r = []"
| "replica_run S (RTick # es) r = replica_run S es (pr_tick S r)"
| "replica_run S (RStep m # es) r = replica_run S es (pr_step S r m)"
| "replica_run S (RPropose cmd # es) r = replica_run S es (fst (pr_propose S r cmd))"
| "replica_run S (RReady # es) r = (case pr_ready S r of None \<Rightarrow> [] | Some (r', _) \<Rightarrow> replica_run S es r')"
| "replica_run S (RHandOut count # es) r =
     (case hand_out r count of
        (r', None) \<Rightarrow> replica_run S es r'
      | (r', Some first) \<Rightarrow> (first, max count 1) # replica_run S es r')"

lemma replica_run_above:
  assumes "cursor_ok r" "\<forall>(a, m) \<in> set (replica_run S es r). unat a + unat m < 2 ^ 64"
  shows "sorted_wrt (\<lambda>(a, m) (b, n). unat a + unat m \<le> unat b) (replica_run S es r) \<and>
    (\<forall>(b, n) \<in> set (replica_run S es r). pr_served r \<le> b)"
  using assms
proof (induction S es r rule: replica_run.induct)
  case (5 S es r)
  show ?case
  proof (cases "pr_ready S r")
    case (Some x)
    then obtain r' out where x: "pr_ready S r = Some (r', out)" by (cases x) auto
    from pr_ready_cursor [OF 5(2) x] 5(1) [OF x refl] 5(3) x show ?thesis by (fastforce simp: cursor_le_def)
  qed simp
next
  case (6 S count es r)
  show ?case
  proof (cases "snd (hand_out r count)")
    case None
    then have h: "hand_out r count = (r, None)" by (auto simp: hand_out_def Let_def split: if_splits)
    with 6 show ?thesis by (simp add: h)
  next
    case (Some first)
    let ?r = "r\<lparr>pr_served := pr_served r + max count 1\<rparr>"
    have h: "hand_out r count = (?r, Some (pr_served r))" and ok: "cursor_ok ?r"
      using Some by (auto simp: hand_out_def Let_def cursor_ok_def split: if_splits)
    have nowrap: "unat (pr_served r) + unat (max count 1) < 2 ^ 64" using 6(4) by (simp add: h)
    then have s: "unat (pr_served r + max count 1) = unat (pr_served r) + unat (max count 1)" by (simp add: unat_word_ariths)
    have "sorted_wrt (\<lambda>(a, m) (b, n). unat a + unat m \<le> unat b) (replica_run S es ?r) \<and>
        (\<forall>(b, n) \<in> set (replica_run S es ?r). pr_served ?r \<le> b)"
      using 6(2) [OF h [symmetric] refl] ok 6(4) by (simp add: h)
    with s show ?thesis by (fastforce simp: h word_le_nat_alt)
  qed
qed (auto simp: cursor_ok_def pr_tick_def pr_step_def pr_propose_def split: prod.splits)

lemma with_storage_cursor: "cursor_ok (pr_with_storage S i voters st)"
  by (simp add: pr_with_storage_def pr_recover_def cursor_ok_def Let_def split: option.splits)



text \<open>Two allocations of 100000 timestamps parked at the same time propose the same reservation, and when
  both have committed the second is refused.\<close>

lemma second_parked_allocation_refused:
  assumes "pr_is_leader r" "pr_served r = 0" "pf_tso_upper (pr_fsm r) = 0"
  shows "let cmd = reserve_ts_cmd r 100000; r1 = r\<lparr>pr_fsm := pd_apply_cmd (pd_apply_cmd (pr_fsm r) cmd) cmd\<rparr>
    in snd (hand_out r1 100000) = Some 0 \<and> snd (hand_out (fst (hand_out r1 100000)) 100000) = None"
  using assms by (simp add: reserve_ts_cmd_def hand_out_def RESERVE_WINDOW_def Let_def pr_is_leader_def max_def word_le_nat_alt)

end
