(* ===== verification/Pd_Failover.thy ===== *)
theory Pd_Failover
  imports Pd_Replica
begin

text \<open>
  A fail-over of the placement driver: what a replica hands out between winning an election and the
  commit of its own no-op.
\<close>

lemma commit_loop_stays:
  assumes "\<And>n. 0 < n \<Longrightarrow> match_count nd n < majority nd"
  shows "commit_loop S nd n = nd"
proof (induction n)
  case 0
  show ?case by (simp add: commit_loop.simps)
next
  case (Suc n)
  show ?case using Suc assms [of "Suc n"] by (simp add: commit_loop.simps [of S nd "Suc n"])
qed

lemma filter_single: "distinct xs \<Longrightarrow> (\<And>v. P v \<Longrightarrow> v = x) \<Longrightarrow> length (filter P xs) \<le> 1"
  using distinct_length_filter [of xs P] card_mono [of "{x}" "{v. P v} \<inter> set xs"] by (auto simp: card_le_Suc0_iff_eq)

text \<open>A candidate that a vote makes leader: what it is after the vote and after its no-op is appended.\<close>

definition wins_by :: "'s storage \<Rightarrow> 's raft_node \<Rightarrow> message \<Rightarrow> bool" where
  "wins_by S nd vote \<longleftrightarrow> rn_role nd = Candidate \<and> msg_term vote = rn_current_term nd \<and> msg_body vote = RequestVoteResp True \<and>
     msg_from vote \<in> set (rn_voters nd) \<and> card (insert (msg_from vote) (rn_votes nd)) \<ge> majority nd"

lemma wins_by_step:
  assumes "wins_by S nd vote"
  shows "step S nd vote = become_leader S (nd\<lparr>rn_votes := insert (msg_from vote) (rn_votes nd)\<rparr>)"
  using assms by (simp add: wins_by_def step_def handle_request_vote_resp_def Let_def majority_def)

lemma win_propose:
  assumes "2 \<le> length (rn_voters nd)" "distinct (rn_voters nd)"
  shows "\<exists>nd'. propose S (become_leader S nd) [] = (nd', Inr (st_last_index S (rn_storage nd) + 1)) \<and>
    rn_role nd' = Leader \<and> rn_commit_index nd' = rn_commit_index nd \<and> rn_last_applied nd' = rn_last_applied nd \<and>
    rn_pending_snapshot nd' = rn_pending_snapshot nd"
proof -
  let ?l = "become_leader S nd" and ?i = "st_last_index S (rn_storage nd) + 1"
  let ?a = "leader_append S ?l (entry_normal (rn_current_term ?l) ?i [])"
  have lead: "rn_role ?l = Leader" "rn_transfer_target ?l = None" by (simp_all add: become_leader_def Let_def)
  have m: "or_zero (rn_match_index ?a v) = 0" if "v \<noteq> rn_id nd" for v
    using that by (simp add: leader_append_def become_leader_def Let_def or_zero_def)
  have "match_count ?a n < majority ?a" if "0 < n" for n
    using filter_single [OF assms(2), of "\<lambda>v. n \<le> or_zero (rn_match_index ?a v)" "rn_id nd"] m that assms(1)
    by (fastforce simp: match_count_def majority_def)
  then have "maybe_advance_commit S ?a = ?a" unfolding maybe_advance_commit_def by (rule commit_loop_stays)
  then show ?thesis using lead by (simp add: propose_def Let_def)
qed

lemma compact_role: "node_compact S nd i d = Some nd' \<Longrightarrow> rn_role nd' = rn_role nd"
  by (auto simp: node_compact_def split: if_splits option.splits prod.splits)

lemma win_ready:
  assumes win: "wins_by S (pr_node b) vote" and group: "2 \<le> length (rn_voters (pr_node b))" "distinct (rn_voters (pr_node b))"
    and fresh: "\<not> pr_was_leader b" "rn_pending_snapshot (pr_node b) = None"
    and idle: "rn_commit_index (pr_node b) \<le> rn_last_applied (pr_node b)"
      "rn_last_applied (pr_node b) \<le> st_last_index S (rn_storage (pr_node b))"
  obtains nd where "rn_role nd = Leader" "rn_last_applied nd = rn_last_applied (pr_node b)"
    "pr_ready S (pr_step S b vote) =
      (case ready_compact S (b\<lparr>pr_node := nd, pr_pending_reset := Some (st_last_index S (rn_storage (pr_node b)) + 1), pr_was_leader := True\<rparr>) of
         None \<Rightarrow> None | Some r2 \<Rightarrow> Some (r2\<lparr>pr_node := (pr_node r2)\<lparr>rn_messages := []\<rparr>\<rparr>, rn_messages (pr_node r2), []))"
proof -
  let ?nd = "(pr_node b)\<lparr>rn_votes := insert (msg_from vote) (rn_votes (pr_node b))\<rparr>" and ?i = "st_last_index S (rn_storage (pr_node b)) + 1"
  obtain nd where p: "propose S (become_leader S ?nd) [] = (nd, Inr ?i)" and nd: "rn_role nd = Leader"
      "rn_commit_index nd = rn_commit_index (pr_node b)" "rn_last_applied nd = rn_last_applied (pr_node b)" "rn_pending_snapshot nd = None"
    using win_propose [of ?nd S] group fresh(2) by auto
  have lead: "rn_role (become_leader S ?nd) = Leader" by (simp add: become_leader_def Let_def)
  let ?r = "b\<lparr>pr_node := nd, pr_pending_reset := Some ?i, pr_was_leader := True\<rparr>"
  have e: "ready_elected S (pr_step S b vote) = ?r"
    using lead fresh(1) by (simp add: ready_elected_def pr_step_def wins_by_step [OF win] pr_is_leader_def p)
  have i: "ready_install ?r = ?r" using nd(4) by (cases nd) (simp add: ready_install_def take_snapshot_def)
  have c: "ready_apply S ?r = (?r, [])" using nd idle(1) by (simp add: ready_apply_def take_committed_def)
  have r: "ready_reset ?r = ?r" using nd idle(2) by (simp add: ready_reset_def)
  show thesis
    by (rule that [OF nd(1,3)]) (simp only: pr_ready_def e i c r prod.case take_messages_def)
qed

lemma win_drained:
  assumes "wins_by S (pr_node b) vote" "2 \<le> length (rn_voters (pr_node b))" "distinct (rn_voters (pr_node b))"
    and "\<not> pr_was_leader b" "rn_pending_snapshot (pr_node b) = None" "rn_commit_index (pr_node b) \<le> rn_last_applied (pr_node b)"
    and "rn_last_applied (pr_node b) \<le> st_last_index S (rn_storage (pr_node b))"
    and ready: "pr_ready S (pr_step S b vote) = Some (b', ms, committed)"
  shows "pr_is_leader b' \<and> pr_served b' = pr_served b \<and> pr_fsm b' = pr_fsm b \<and> pr_pending_reset b' \<noteq> None"
proof -
  obtain nd where nd: "rn_role nd = Leader" and eq: "pr_ready S (pr_step S b vote) =
      (case ready_compact S (b\<lparr>pr_node := nd, pr_pending_reset := Some (st_last_index S (rn_storage (pr_node b)) + 1), pr_was_leader := True\<rparr>) of
         None \<Rightarrow> None | Some r2 \<Rightarrow> Some (r2\<lparr>pr_node := (pr_node r2)\<lparr>rn_messages := []\<rparr>\<rparr>, rn_messages (pr_node r2), []))"
    using win_ready [OF assms(1-7)] by blast
  let ?r = "b\<lparr>pr_node := nd, pr_pending_reset := Some (st_last_index S (rn_storage (pr_node b)) + 1), pr_was_leader := True\<rparr>"
  obtain r2 where k: "ready_compact S ?r = Some r2" and b': "b' = r2\<lparr>pr_node := (pr_node r2)\<lparr>rn_messages := []\<rparr>\<rparr>"
    using ready unfolding eq by (cases "ready_compact S ?r") simp_all
  have "rn_role (pr_node r2) = Leader" "pr_served r2 = pr_served b" "pr_fsm r2 = pr_fsm b" "pr_pending_reset r2 \<noteq> None"
    using k nd by (auto simp: ready_compact_def compact_role split: if_splits)
  then show ?thesis by (simp add: b' pr_is_leader_def)
qed

text \<open>C32: After a fail-over timestamps are handed out a second time. Replica \<open>a\<close> leads; replica \<open>b\<close> has
  applied the same log but its cursor is behind, as it is on every replica that never led. When \<open>b\<close> wins
  an election its no-op is only appended and the reset of the cursor is pending, yet an allocation
  is granted at once from the old cursor: the timestamps it returns are those \<open>a\<close> already handed out.\<close>

theorem failover_reissues_timestamps:
  assumes "wins_by S (pr_node b) vote" "2 \<le> length (rn_voters (pr_node b))" "distinct (rn_voters (pr_node b))"
    and "\<not> pr_was_leader b" "rn_pending_snapshot (pr_node b) = None" "rn_commit_index (pr_node b) \<le> rn_last_applied (pr_node b)"
    and "rn_last_applied (pr_node b) \<le> st_last_index S (rn_storage (pr_node b))"
    and "pr_ready S (pr_step S b vote) = Some (b', ms, committed)"
    and "pr_is_leader a" "pr_fsm a = pr_fsm b" "pr_served a = pr_served b" "pr_served b + 1 \<le> pf_tso_upper (pr_fsm b)"
  shows "snd (hand_out a 1) = Some (pr_served b) \<and> snd (hand_out b' 1) = Some (pr_served b) \<and> pr_pending_reset b' \<noteq> None"
  using win_drained [OF assms(1-8)] assms(9-12) by (simp add: hand_out_def)

text \<open>Node 2 of three has applied a no-op and a reservation of node 1 and campaigns in term 2; node 1
  leads in term 1 with the same log.\<close>

definition first_log :: "entry list" where
  "first_log = [entry_normal 1 1 [], entry_normal 1 2 (pd_cmd_encode (ReserveTs 65537))]"

definition at_log :: "node_id \<Rightarrow> role \<Rightarrow> nat \<Rightarrow> mem_storage pd_replica" where
  "at_log i role term =
     \<lparr>pr_node = (node_init mem_ops (config_new i [1, 2, 3])
        \<lparr>ms_hard = \<lparr>hs_current_term = term, hs_voted_for = Some i\<rparr>, ms_log = first_log, ms_snap = None\<rparr>)
        \<lparr>rn_role := role, rn_votes := {i}, rn_commit_index := 2, rn_last_applied := 2\<rparr>,
      pr_fsm = fold apply_entry first_log pd_fsm_new, pr_served = 0, pr_was_leader = (role = Leader), pr_pending_reset = None\<rparr>"

lemma at_log_sel:
  "rn_role (pr_node (at_log i r t)) = r" "rn_current_term (pr_node (at_log i r t)) = t" "rn_voters (pr_node (at_log i r t)) = [1, 2, 3]"
  "rn_votes (pr_node (at_log i r t)) = {i}" "rn_commit_index (pr_node (at_log i r t)) = 2" "rn_last_applied (pr_node (at_log i r t)) = 2"
  "rn_pending_snapshot (pr_node (at_log i r t)) = None" "pr_was_leader (at_log i r t) = (r = Leader)" "pr_served (at_log i r t) = 0"
  "pr_fsm (at_log i r t) = fold apply_entry first_log pd_fsm_new" "rn_storage (pr_node (at_log i r t)) =
     \<lparr>ms_hard = \<lparr>hs_current_term = t, hs_voted_for = Some i\<rparr>, ms_log = first_log, ms_snap = None\<rparr>"
  by (simp_all add: at_log_def node_init_def config_new_def mem_hard_state_def Let_def)

lemma at_log_upper: "pf_tso_upper (fold apply_entry first_log pd_fsm_new) = 65537"
proof -
  have "pd_cmd_encode (ReserveTs 65537) \<noteq> []" by simp
  then show ?thesis
    by (simp add: first_log_def apply_entry_def entry_normal_def pd_apply_encode cmd_fits_def pd_fsm_new_def max_def
        word_le_nat_alt del: pd_cmd_encode.simps)
qed

theorem failover_reissues_timestamps_witness:
  "\<exists>b' ms committed. pr_ready mem_ops (pr_step mem_ops (at_log 2 Candidate 2)
      \<lparr>msg_from = 3, msg_to = 2, msg_term = 2, msg_body = RequestVoteResp True\<rparr>) = Some (b', ms, committed) \<and>
    snd (hand_out (at_log 1 Leader 1) 1) = Some 0 \<and> snd (hand_out b' 1) = Some 0"
proof -
  let ?vote = "\<lparr>msg_from = 3, msg_to = 2, msg_term = 2, msg_body = RequestVoteResp True\<rparr>" and ?b = "at_log 2 Candidate 2"
  have win: "wins_by mem_ops (pr_node ?b) ?vote" by (simp add: wins_by_def at_log_sel majority_def)
  have last: "mem_last_index \<lparr>ms_hard = \<lparr>hs_current_term = 2, hs_voted_for = Some 2\<rparr>, ms_log = first_log, ms_snap = None\<rparr> = 2" by (simp add: at_log_sel mem_last_index_def mem_base_def first_log_def entry_normal_def)
  obtain nd where nd: "rn_last_applied nd = 2" and eq: "pr_ready mem_ops (pr_step mem_ops ?b ?vote) =
      (case ready_compact mem_ops (?b\<lparr>pr_node := nd, pr_pending_reset := Some 3, pr_was_leader := True\<rparr>) of
         None \<Rightarrow> None | Some r2 \<Rightarrow> Some (r2\<lparr>pr_node := (pr_node r2)\<lparr>rn_messages := []\<rparr>\<rparr>, rn_messages (pr_node r2), []))"
    by (rule win_ready [OF win]) (simp_all add: at_log_sel last)
  have "\<exists>b' ms committed. pr_ready mem_ops (pr_step mem_ops ?b ?vote) = Some (b', ms, committed)"
    unfolding eq by (simp add: ready_compact_def nd COMPACT_THRESHOLD_def)
  then obtain b' ms committed where ready: "pr_ready mem_ops (pr_step mem_ops ?b ?vote) = Some (b', ms, committed)" by blast
  show ?thesis
    using failover_reissues_timestamps [OF win _ _ _ _ _ _ ready, of "at_log 1 Leader 1"] ready last
    by (simp add: at_log_sel at_log_upper pr_is_leader_def word_le_nat_alt)
qed

end
