(* ===== verification/Parked.thy ===== *)
theory Parked
  imports Raft_Message "HOL-Library.Multiset"
begin

text \<open>
  What the two Raft actors share (\<open>pd/src/raft_group.rs\<close>, \<open>server/src/raft_group.rs\<close>): requests parked
  at a log index until it commits, and the routing of the one response an inbound RPC waits for. A reply
  channel is a number; an answer is the channel with the value sent. The lemmas count channels: parking,
  removing and routing neither lose nor invent one.
\<close>

text \<open>Parking at an index that is taken drops the sender parked there; its receiver reads \<open>nothing\<close>.\<close>

definition displaced :: "'k \<Rightarrow> ('k \<times> 'a \<times> nat) list \<Rightarrow> 'r \<Rightarrow> (nat \<times> 'r) list" where
  "displaced i parked nothing = (case map_of parked i of Some (_, tx) \<Rightarrow> [(tx, nothing)] | None \<Rightarrow> [])"

definition is_response :: "message_body \<Rightarrow> bool" where
  "is_response b = (case b of RequestVoteResp _ \<Rightarrow> True | AppendEntriesResp _ _ _ \<Rightarrow> True | InstallSnapshotResp _ \<Rightarrow> True | _ \<Rightarrow> False)"

text \<open>The first response to the sender of the request goes back on its channel, everything else to the
  peers; without a response the channel gets \<open>None\<close>.\<close>

fun route_messages :: "(message option \<Rightarrow> 'r) \<Rightarrow> (node_id \<times> nat) option \<Rightarrow> message list \<Rightarrow> message list \<times> (nat \<times> 'r) list" where
  "route_messages wrap None ms = (ms, [])"
| "route_messages wrap (Some (from, tx)) [] = ([], [(tx, wrap None)])"
| "route_messages wrap (Some (from, tx)) (m # ms) =
     (if msg_to m = from \<and> is_response (msg_body m) then (ms, [(tx, wrap (Some m))])
      else case route_messages wrap (Some (from, tx)) ms of (out, replies) \<Rightarrow> (m # out, replies))"

section \<open>Channels\<close>

abbreviation channels :: "(nat \<times> 'r) list \<Rightarrow> nat multiset" where
  "channels replies \<equiv> mset (map fst replies)"

abbreviation txs :: "('k \<times> 'a \<times> nat) list \<Rightarrow> nat multiset" where
  "txs xs \<equiv> mset (map (\<lambda>(_, _, tx). tx) xs)"

lemma park_channels:
  "strict_keys xs \<Longrightarrow> channels (displaced i xs nothing) + txs (al_insert i (v, tx) xs) = add_mset tx (txs xs)"
proof (induction xs)
  case (Cons x xs)
  obtain k w t where x: "x = (k, w, t)" by (cases x) auto
  have "map_of xs i = None" if "i \<le> k" using that Cons.prems x map_of_strict_keys_Cons [of k "(w, t)" xs i] by simp
  moreover have "channels (displaced i xs nothing) + txs (al_insert i (v, tx) xs) = add_mset tx (txs xs)" using Cons by simp
  ultimately show ?case by (cases "i < k"; cases "i = k") (auto simp: x displaced_def split: option.splits)
qed (simp add: displaced_def)

lemma remove_channels:
  "strict_keys xs \<Longrightarrow> map_of xs i = Some (v, tx) \<Longrightarrow> add_mset tx (txs (al_remove i xs)) = txs xs"
proof (induction xs)
  case (Cons x xs)
  obtain k w t where x: "x = (k, w, t)" by (cases x) auto
  have "al_remove k xs = xs" using Cons.prems(1) by (fastforce simp: x al_remove_def filter_id_conv)
  with Cons show ?case by (cases "k = i") (auto simp: x al_remove_def)
qed simp

lemma route_channels: "channels (snd (route_messages wrap reply ms)) = (case reply of Some (_, tx) \<Rightarrow> {#tx#} | None \<Rightarrow> {#})"
  by (induction wrap reply ms rule: route_messages.induct) (auto split: prod.splits)

end
