(* ===== verification/Pd_Group.thy ===== *)
theory Pd_Group
  imports Pd_Replica Parked
begin

text \<open>
  The actor of a placement-driver node (\<open>pd/src/raft_group.rs\<close>): it owns the replica, takes one command
  at a time, drains the effects, answers the requests whose entries committed and fails the parked ones
  when leadership is lost. A reply channel is a number; an answer is the channel with the value sent.
\<close>

datatype group_cmd =
    CTick
  | CStep message
  | CStepReply message nat
  | CHeartbeat u64 bytes "replica_set list" u64 bytes nat
  | CAllocTs u64 nat
  | CDeclareTable bytes regime nat
  | CStop

datatype group_reply =
    ReplyMessage "message option"
  | ReplyRegions "replica_set list option"
  | ReplyTs "(u64 \<times> u64) option"
  | ReplyTable "(table_id \<times> replica_set \<times> u64) option"

record 's group_actor =
  ga_replica :: "'s pd_replica"
  ga_hb :: "(nat \<times> u64 \<times> nat) list"
  ga_decl :: "(nat \<times> bytes \<times> nat) list"
  ga_ts :: "(nat \<times> u64 \<times> nat) list"

section \<open>Taking a command\<close>

fun take_command :: "'s storage \<Rightarrow> group_cmd \<Rightarrow> 's group_actor \<Rightarrow> 's group_actor \<times> (nat \<times> group_reply) list \<times> (node_id \<times> nat) option" where
  "take_command S CTick g = (g\<lparr>ga_replica := pr_tick S (ga_replica g)\<rparr>, [], None)"
| "take_command S (CStep m) g = (g\<lparr>ga_replica := pr_step S (ga_replica g) m\<rparr>, [], None)"
| "take_command S (CStepReply m tx) g = (g\<lparr>ga_replica := pr_step S (ga_replica g) m\<rparr>, [], Some (msg_from m, tx))"
| "take_command S (CHeartbeat node address regions now store_id tx) g =
     (if \<not> pr_is_leader (ga_replica g) then (g, [(tx, ReplyRegions None)], None)
      else case pr_propose S (ga_replica g) (Heartbeat node address regions now store_id) of
             (r, Inr i) \<Rightarrow> (g\<lparr>ga_replica := r, ga_hb := al_insert i (node, tx) (ga_hb g)\<rparr>, displaced i (ga_hb g) (ReplyRegions None), None)
           | (r, Inl _) \<Rightarrow> (g\<lparr>ga_replica := r\<rparr>, [(tx, ReplyRegions None)], None))"
| "take_command S (CDeclareTable name regime tx) g =
     (if \<not> pr_is_leader (ga_replica g) then (g, [(tx, ReplyTable None)], None)
      else case pr_propose S (ga_replica g) (DeclareTable name regime) of
             (r, Inr i) \<Rightarrow> (g\<lparr>ga_replica := r, ga_decl := al_insert i (name, tx) (ga_decl g)\<rparr>, displaced i (ga_decl g) (ReplyTable None), None)
           | (r, Inl _) \<Rightarrow> (g\<lparr>ga_replica := r\<rparr>, [(tx, ReplyTable None)], None))"
| "take_command S (CAllocTs cnt tx) g =
     (if \<not> pr_is_leader (ga_replica g) then (g, [(tx, ReplyTs None)], None)
      else case hand_out (ga_replica g) cnt of
             (r, Some first) \<Rightarrow> (g\<lparr>ga_replica := r\<rparr>, [(tx, ReplyTs (Some (first, cnt)))], None)
           | (r, None) \<Rightarrow>
               (case pr_propose S r (reserve_ts_cmd r cnt) of
                  (r', Inr i) \<Rightarrow> (g\<lparr>ga_replica := r', ga_ts := al_insert i (cnt, tx) (ga_ts g)\<rparr>, displaced i (ga_ts g) (ReplyTs None), None)
                | (r', Inl _) \<Rightarrow> (g\<lparr>ga_replica := r'\<rparr>, [(tx, ReplyTs None)], None)))"
| "take_command S CStop g = (g, [], None)"

section \<open>Routing, resolving and failing\<close>

definition resolve_hb :: "nat \<Rightarrow> 's group_actor \<Rightarrow> 's group_actor \<times> (nat \<times> group_reply) list" where
  "resolve_hb i g = (case map_of (ga_hb g) i of
     None \<Rightarrow> (g, [])
   | Some (node, tx) \<Rightarrow> (g\<lparr>ga_hb := al_remove i (ga_hb g)\<rparr>, [(tx, ReplyRegions (Some (assignment_for (pr_fsm (ga_replica g)) node)))]))"

definition resolve_table :: "pd_fsm \<Rightarrow> bytes \<Rightarrow> (table_id \<times> replica_set \<times> u64) option" where
  "resolve_table f name = (case pd_table_id f name of
     None \<Rightarrow> None
   | Some i \<Rightarrow> map_option (\<lambda>rs. (i, rs, pf_version f)) (find (\<lambda>rs. rg_start (rp_region rs) = table_prefix i) (assignment f)))"

definition resolve_decl :: "nat \<Rightarrow> 's group_actor \<Rightarrow> 's group_actor \<times> (nat \<times> group_reply) list" where
  "resolve_decl i g = (case map_of (ga_decl g) i of
     None \<Rightarrow> (g, [])
   | Some (name, tx) \<Rightarrow> (g\<lparr>ga_decl := al_remove i (ga_decl g)\<rparr>, [(tx, ReplyTable (resolve_table (pr_fsm (ga_replica g)) name))]))"

definition resolve_ts :: "nat \<Rightarrow> 's group_actor \<Rightarrow> 's group_actor \<times> (nat \<times> group_reply) list" where
  "resolve_ts i g = (case map_of (ga_ts g) i of
     None \<Rightarrow> (g, [])
   | Some (cnt, tx) \<Rightarrow>
       (case hand_out (ga_replica g) cnt of (r, res) \<Rightarrow>
          (g\<lparr>ga_replica := r, ga_ts := al_remove i (ga_ts g)\<rparr>, [(tx, ReplyTs (map_option (\<lambda>first. (first, cnt)) res))])))"

fun resolve_all :: "nat list \<Rightarrow> 's group_actor \<Rightarrow> 's group_actor \<times> (nat \<times> group_reply) list" where
  "resolve_all [] g = (g, [])"
| "resolve_all (i # is) g =
     (case resolve_hb i g of (g1, a) \<Rightarrow>
      case resolve_decl i g1 of (g2, b) \<Rightarrow>
      case resolve_ts i g2 of (g3, c) \<Rightarrow>
      case resolve_all is g3 of (g4, d) \<Rightarrow> (g4, a @ b @ c @ d))"

text \<open>Every parked request is answered \<open>None\<close>: when leadership is lost, and when the actor ends.\<close>

definition fail_all :: "'s group_actor \<Rightarrow> (nat \<times> group_reply) list" where
  "fail_all g =
     map (\<lambda>(_, _, tx). (tx, ReplyRegions None)) (ga_hb g) @ map (\<lambda>(_, _, tx). (tx, ReplyTs None)) (ga_ts g) @
     map (\<lambda>(_, _, tx). (tx, ReplyTable None)) (ga_decl g)"

definition fail_parked :: "'s group_actor \<Rightarrow> 's group_actor \<times> (nat \<times> group_reply) list" where
  "fail_parked g =
     (if pr_is_leader (ga_replica g) then (g, []) else (g\<lparr>ga_hb := [], ga_ts := [], ga_decl := []\<rparr>, fail_all g))"

text \<open>One turn of the loop: the new state, the answers sent and the messages for the peers. \<open>None\<close> is a
  panic of the replica.\<close>

definition actor_step :: "'s storage \<Rightarrow> group_cmd \<Rightarrow> 's group_actor \<Rightarrow> ('s group_actor \<times> (nat \<times> group_reply) list \<times> message list) option" where
  "actor_step S cmd g = (case take_command S cmd g of (g1, a, reply) \<Rightarrow>
     (case pr_ready S (ga_replica g1) of
        None \<Rightarrow> None
      | Some (r, ms, committed) \<Rightarrow>
          (case route_messages ReplyMessage reply ms of (out, b) \<Rightarrow>
           case resolve_all committed (g1\<lparr>ga_replica := r\<rparr>) of (g2, c) \<Rightarrow>
           case fail_parked g2 of (g3, d) \<Rightarrow> Some (g3, a @ b @ c @ d, out))))"

text \<open>A command that is still queued when the actor ends is dropped with its sender.\<close>

fun drop_cmd :: "group_cmd \<Rightarrow> (nat \<times> group_reply) list" where
  "drop_cmd (CStepReply m tx) = [(tx, ReplyMessage None)]"
| "drop_cmd (CHeartbeat node address regions now store_id tx) = [(tx, ReplyRegions None)]"
| "drop_cmd (CAllocTs cnt tx) = [(tx, ReplyTs None)]"
| "drop_cmd (CDeclareTable name regime tx) = [(tx, ReplyTable None)]"
| "drop_cmd _ = []"

text \<open>The answers of a whole run: it ends with \<open>Stop\<close> or when the last handle is gone.\<close>

fun run_actor :: "'s storage \<Rightarrow> group_cmd list \<Rightarrow> 's group_actor \<Rightarrow> (nat \<times> group_reply) list option" where
  "run_actor S [] g = Some (fail_all g)"
| "run_actor S (cmd # cmds) g =
     (if cmd = CStop then Some (fail_all g @ concat (map drop_cmd cmds))
      else case actor_step S cmd g of
             None \<Rightarrow> None
           | Some (g1, a, _) \<Rightarrow> map_option (\<lambda>b. a @ b) (run_actor S cmds g1))"

definition actor_start :: "'s storage \<Rightarrow> node_id \<Rightarrow> node_id list \<Rightarrow> 's \<Rightarrow> 's group_actor" where
  "actor_start S i voters st = \<lparr>ga_replica = pr_with_storage S i voters st, ga_hb = [], ga_decl = [], ga_ts = []\<rparr>"

section \<open>Every request is answered once\<close>

definition parked :: "'s group_actor \<Rightarrow> nat multiset" where
  "parked g = channels (fail_all g)"

definition actor_inv :: "'s group_actor \<Rightarrow> bool" where
  "actor_inv g \<longleftrightarrow> strict_keys (ga_hb g) \<and> strict_keys (ga_decl g) \<and> strict_keys (ga_ts g)"

lemma parked_eq: "parked g = txs (ga_hb g) + txs (ga_ts g) + txs (ga_decl g)"
  by (simp add: parked_def fail_all_def comp_def split_def)

definition cmd_channels :: "group_cmd \<Rightarrow> nat multiset" where
  "cmd_channels cmd = channels (drop_cmd cmd)"

lemma take_command_channels:
  assumes "actor_inv g" "take_command S cmd g = (g', a, reply)"
  shows "actor_inv g' \<and> channels a + parked g' + (case reply of Some (_, tx) \<Rightarrow> {#tx#} | None \<Rightarrow> {#}) = parked g + cmd_channels cmd"
proof (cases cmd)
  case (CHeartbeat node address regions now store_id tx)
  show ?thesis
    using assms park_channels [of "ga_hb g" _ "ReplyRegions None" node tx]
    by (auto simp: CHeartbeat actor_inv_def parked_eq cmd_channels_def split: if_splits prod.splits sum.splits)
next
  case (CDeclareTable name regime tx)
  show ?thesis
    using assms park_channels [of "ga_decl g" _ "ReplyTable None" name tx]
    by (auto simp: CDeclareTable actor_inv_def parked_eq cmd_channels_def split: if_splits prod.splits sum.splits)
next
  case (CAllocTs cnt tx)
  show ?thesis
    using assms park_channels [of "ga_ts g" _ "ReplyTs None" cnt tx]
    by (auto simp: CAllocTs actor_inv_def parked_eq cmd_channels_def split: if_splits prod.splits sum.splits option.splits)
qed (use assms in \<open>auto simp: actor_inv_def parked_eq cmd_channels_def\<close>)

lemma resolve_channels:
  assumes "actor_inv g"
  shows "actor_inv (fst (resolve_hb i g)) \<and> channels (snd (resolve_hb i g)) + parked (fst (resolve_hb i g)) = parked g"
    and "actor_inv (fst (resolve_decl i g)) \<and> channels (snd (resolve_decl i g)) + parked (fst (resolve_decl i g)) = parked g"
    and "actor_inv (fst (resolve_ts i g)) \<and> channels (snd (resolve_ts i g)) + parked (fst (resolve_ts i g)) = parked g"
proof -
  show "actor_inv (fst (resolve_hb i g)) \<and> channels (snd (resolve_hb i g)) + parked (fst (resolve_hb i g)) = parked g"
    using assms remove_channels [of "ga_hb g" i]
    by (auto simp: resolve_hb_def actor_inv_def parked_eq al_remove_sorted split: option.splits)
  show "actor_inv (fst (resolve_decl i g)) \<and> channels (snd (resolve_decl i g)) + parked (fst (resolve_decl i g)) = parked g"
    using assms remove_channels [of "ga_decl g" i]
    by (auto simp: resolve_decl_def actor_inv_def parked_eq al_remove_sorted split: option.splits)
  show "actor_inv (fst (resolve_ts i g)) \<and> channels (snd (resolve_ts i g)) + parked (fst (resolve_ts i g)) = parked g"
    using assms remove_channels [of "ga_ts g" i]
    by (auto simp: resolve_ts_def actor_inv_def parked_eq al_remove_sorted split: option.splits prod.splits)
qed

lemma resolve_all_channels:
  assumes "actor_inv g"
  shows "actor_inv (fst (resolve_all is g)) \<and> channels (snd (resolve_all is g)) + parked (fst (resolve_all is g)) = parked g"
  using assms
proof (induction "is" g rule: resolve_all.induct)
  case (2 i "is" g)
  obtain g1 a where a: "resolve_hb i g = (g1, a)" by fastforce
  obtain g2 b where b: "resolve_decl i g1 = (g2, b)" by fastforce
  obtain g3 c where c: "resolve_ts i g2 = (g3, c)" by fastforce
  obtain g4 d where d: "resolve_all is g3 = (g4, d)" by fastforce
  have 1: "actor_inv g1" "channels a + parked g1 = parked g" using resolve_channels(1) [OF 2(2), of i] a by simp_all
  have 2: "actor_inv g2" "channels b + parked g2 = parked g1" using resolve_channels(2) [OF 1(1), of i] b by simp_all
  have 3: "actor_inv g3" "channels c + parked g3 = parked g2" using resolve_channels(3) [OF 2(1), of i] c by simp_all
  have 4: "actor_inv g4" "channels d + parked g4 = parked g3" using "2.IH" [OF a [symmetric] b [symmetric] c [symmetric] 3(1)] d by simp_all
  show ?case using 4(1) by (simp add: a b c d 1(2) [symmetric] 2(2) [symmetric] 3(2) [symmetric] 4(2) [symmetric] add.assoc)
qed simp

lemma fail_channels:
  "actor_inv g \<Longrightarrow> actor_inv (fst (fail_parked g)) \<and> channels (snd (fail_parked g)) + parked (fst (fail_parked g)) = parked g"
  by (auto simp: fail_parked_def actor_inv_def parked_def [of g] parked_eq [of "g\<lparr>ga_hb := [], ga_ts := [], ga_decl := []\<rparr>"])

lemma actor_step_channels:
  assumes "actor_inv g" "actor_step S cmd g = Some (g', replies, out)"
  shows "actor_inv g' \<and> channels replies + parked g' = parked g + cmd_channels cmd"
proof -
  obtain g1 a reply where t: "take_command S cmd g = (g1, a, reply)" by (metis prod_cases3)
  obtain r ms committed where p: "pr_ready S (ga_replica g1) = Some (r, ms, committed)"
    using assms(2) by (auto simp: actor_step_def t split: option.splits)
  obtain out' b where b: "route_messages ReplyMessage reply ms = (out', b)" by fastforce
  obtain g2 c where c: "resolve_all committed (g1\<lparr>ga_replica := r\<rparr>) = (g2, c)" by fastforce
  obtain g3 d where d: "fail_parked g2 = (g3, d)" by fastforce
  have eq: "g' = g3" "replies = a @ b @ c @ d" using assms(2) by (simp_all add: actor_step_def t p b c d)
  note 1 = take_command_channels [OF assms(1) t]
  have 2: "channels b = (case reply of Some (_, tx) \<Rightarrow> {#tx#} | None \<Rightarrow> {#})" using route_channels [of ReplyMessage reply ms] unfolding b snd_conv .
  have "actor_inv (g1\<lparr>ga_replica := r\<rparr>)" "parked (g1\<lparr>ga_replica := r\<rparr>) = parked g1"
    using 1 by (simp_all add: actor_inv_def parked_eq)
  then have 3: "actor_inv g2" "channels c + parked g2 = parked g1"
    using resolve_all_channels [of "g1\<lparr>ga_replica := r\<rparr>" committed] c by simp_all
  have 4: "actor_inv g3" "channels d + parked g3 = parked g2" using fail_channels [OF 3(1)] d by simp_all
  have "channels replies + parked g' = channels a + parked g1 + (case reply of Some (_, tx) \<Rightarrow> {#tx#} | None \<Rightarrow> {#})"
    unfolding eq 3(2) [symmetric] 4(2) [symmetric] using 2 by (simp add: ac_simps)
  with 1 4(1) eq(1) show ?thesis by metis
qed



end
