(* ===== verification/In_Flight.thy ===== *)
theory In_Flight
  imports Arcux_Prelude "HOL-Library.Multiset"
begin

text \<open>
  The fast-path writes a leader has proposed and not yet resolved (\<open>server/src/memlock.rs\<close>), and the wait of
  a read that must include one of them (\<open>await_in_flight\<close> in \<open>server/src/lib.rs\<close>). The map is an
  association list sorted by key; its abstraction is the multiset of outstanding writes. The main result is
  that a read is blocked exactly by an outstanding write of its range and snapshot.
\<close>

type_synonym in_flight = "(bytes \<times> u64 list) list"

definition register :: "bytes \<Rightarrow> u64 \<Rightarrow> in_flight \<Rightarrow> in_flight" where
  "register key commit_ts f = al_insert key ((case map_of f key of Some tss \<Rightarrow> tss | None \<Rightarrow> []) @ [commit_ts]) f"

definition blocks_read :: "bytes \<Rightarrow> bytes \<Rightarrow> u64 \<Rightarrow> in_flight \<Rightarrow> bool" where
  "blocks_read start stop read_ts f =
     list_ex (\<lambda>(_, tss). list_ex (\<lambda>ts. ts \<le> read_ts) tss)
       (takeWhile (\<lambda>(k, _). stop = [] \<or> k < stop) (filter (\<lambda>(k, _). start \<le> k) f))"

text \<open>Dropping the guard of a write.\<close>

definition drop_guard :: "bytes \<Rightarrow> u64 \<Rightarrow> in_flight \<Rightarrow> in_flight" where
  "drop_guard key commit_ts f = (case map_of f key of
     None \<Rightarrow> f
   | Some tss \<Rightarrow>
       (let tss = remove1 commit_ts tss in if tss = [] then al_remove key f else al_insert key tss f))"

text \<open>The wait of a read: the state when it arrives and the states it polls, one a millisecond; \<open>False\<close> is
  the answer to retry.\<close>

definition await_in_flight :: "bytes \<Rightarrow> bytes \<Rightarrow> u64 \<Rightarrow> in_flight \<Rightarrow> in_flight list \<Rightarrow> bool" where
  "await_in_flight start stop read_ts f polls =
     (\<not> blocks_read start stop read_ts f \<or> list_ex (\<lambda>f. \<not> blocks_read start stop read_ts f) (take 200 polls))"

section \<open>The outstanding writes\<close>

definition outstanding :: "in_flight \<Rightarrow> (bytes \<times> u64) multiset" where
  "outstanding f = mset (concat (map (\<lambda>(k, tss). map (Pair k) tss) f))"

lemma outstanding_simps [simp]:
  "outstanding [] = {#}" "outstanding ((k, tss) # f) = image_mset (Pair k) (mset tss) + outstanding f"
  by (simp_all add: outstanding_def)

lemma outstanding_remove:
  "strict_keys f \<Longrightarrow> map_of f k = Some tss \<Longrightarrow> outstanding f = image_mset (Pair k) (mset tss) + outstanding (al_remove k f)"
proof (induction f)
  case (Cons x f)
  obtain k' t where x: "x = (k', t)" by (cases x)
  have "al_remove k f = f" if "k = k'" using Cons.prems(1) that by (fastforce simp: x al_remove_def filter_id_conv)
  with Cons show ?case by (cases "k = k'") (auto simp: x al_remove_def)
qed simp

lemma outstanding_insert:
  "strict_keys f \<Longrightarrow> outstanding (al_insert k tss f) = image_mset (Pair k) (mset tss) + outstanding (al_remove k f)"
proof (induction f)
  case (Cons x f)
  obtain k' t where x: "x = (k', t)" by (cases x)
  have "al_remove k f = f" if "k \<le> k'" using Cons.prems(1) that by (fastforce simp: x al_remove_def filter_id_conv)
  with Cons show ?case by (cases k k' rule: linorder_cases) (auto simp: x al_remove_def)
qed (simp add: al_remove_def)

lemma outstanding_absent: "map_of f k = None \<Longrightarrow> al_remove k f = f"
  by (force simp: al_remove_def filter_id_conv map_of_eq_None_iff)

lemma register_outstanding:
  "strict_keys f \<Longrightarrow> outstanding (register key ts f) = add_mset (key, ts) (outstanding f)"
  by (cases "map_of f key") (simp_all add: register_def outstanding_insert outstanding_absent outstanding_remove)

lemma drop_outstanding:
  assumes "strict_keys f"
  shows "outstanding (drop_guard key ts f) = outstanding f - {#(key, ts)#}"
proof (cases "map_of f key")
  case None
  then have "\<forall>x \<in> set f. fst x \<noteq> key" by (auto simp: map_of_eq_None_iff)
  then have "(key, ts) \<notin># outstanding f" by (fastforce simp: outstanding_def)
  with None show ?thesis by (simp add: drop_guard_def diff_single_trivial)
next
  case (Some tss)
  have rest: "(key, t) \<notin># outstanding (al_remove key f)" for t by (auto simp: outstanding_def al_remove_def)
  have out: "outstanding (drop_guard key ts f) = image_mset (Pair key) (mset (remove1 ts tss)) + outstanding (al_remove key f)"
    using assms by (simp add: drop_guard_def Some Let_def outstanding_insert del: mset_remove1)
  show ?thesis
  proof (cases "ts \<in> set tss")
    case True
    then obtain m where "mset tss = add_mset ts m" by (metis insert_DiffM set_mset_mset)
    then show ?thesis using outstanding_remove [OF assms Some] by (simp add: out)
  next
    case False
    then have "(key, ts) \<notin># outstanding f" using rest outstanding_remove [OF assms Some] by auto
    with False show ?thesis using outstanding_remove [OF assms Some] by (simp add: out remove1_idem diff_single_trivial)
  qed
qed

lemma register_sorted: "strict_keys f \<Longrightarrow> strict_keys (register key ts f)"
  by (simp add: register_def)

lemma drop_sorted: "strict_keys f \<Longrightarrow> strict_keys (drop_guard key ts f)"
  by (simp add: drop_guard_def Let_def al_remove_sorted split: option.splits)

lemma blocks_read_outstanding:
  assumes "strict_keys f"
  shows "blocks_read start stop read_ts f \<longleftrightarrow>
    (\<exists>k ts. (k, ts) \<in># outstanding f \<and> start \<le> k \<and> (stop = [] \<or> k < stop) \<and> ts \<le> read_ts)"
proof -
  have "takeWhile (\<lambda>(k, _). stop = [] \<or> k < stop) (filter (\<lambda>(k, _). start \<le> k) f)
      = filter (\<lambda>(k, _). start \<le> k \<and> (stop = [] \<or> k < stop)) f"
    using assms
  proof (induction f)
    case (Cons x f)
    obtain k t where x: "x = (k, t)" by (cases x)
    show ?case
    proof (cases "start \<le> k \<and> \<not> (stop = [] \<or> k < stop)")
      case True
      then have "filter (\<lambda>(k, _). start \<le> k \<and> (stop = [] \<or> k < stop)) f = []"
        using Cons.prems by (fastforce simp: x filter_empty_conv)
      with True show ?thesis by (simp add: x)
    qed (use Cons in \<open>auto simp: x\<close>)
  qed simp
  moreover have "(k, ts) \<in># outstanding f \<longleftrightarrow> (\<exists>tss. (k, tss) \<in> set f \<and> ts \<in> set tss)" for k ts
    by (auto simp: outstanding_def)
  ultimately show ?thesis unfolding blocks_read_def list_ex_iff by auto
qed

section \<open>A leader's writes and reads\<close>

datatype in_flight_event = Register bytes u64 | DropGuard bytes u64

fun in_flight_step :: "in_flight_event \<Rightarrow> in_flight \<Rightarrow> in_flight" where
  "in_flight_step (Register key ts) f = register key ts f"
| "in_flight_step (DropGuard key ts) f = drop_guard key ts f"

fun outstanding_step :: "in_flight_event \<Rightarrow> (bytes \<times> u64) multiset \<Rightarrow> (bytes \<times> u64) multiset" where
  "outstanding_step (Register key ts) w = add_mset (key, ts) w"
| "outstanding_step (DropGuard key ts) w = w - {#(key, ts)#}"

lemma in_flight_refines:
  "strict_keys f \<Longrightarrow> strict_keys (fold in_flight_step es f) \<and>
     outstanding (fold in_flight_step es f) = fold outstanding_step es (outstanding f)"
proof (induction es arbitrary: f)
  case (Cons e es)
  show ?case using Cons.IH [of "in_flight_step e f"] Cons.prems
    by (cases e) (simp_all add: register_sorted drop_sorted register_outstanding drop_outstanding)
qed simp

text \<open>C38: A read waits exactly for the writes it has to include: after any sequence of registrations and
  dropped guards, a read of \<open>[start, stop)\<close> at \<open>read_ts\<close> is blocked if and only if some write registered and
  not yet dropped has its key in the range and its commit timestamp at or below \<open>read_ts\<close>.\<close>

theorem reads_wait_for_outstanding_writes:
  "blocks_read start stop read_ts (fold in_flight_step es []) \<longleftrightarrow>
     (\<exists>k ts. (k, ts) \<in># fold outstanding_step es {#} \<and> start \<le> k \<and> (stop = [] \<or> k < stop) \<and> ts \<le> read_ts)"
  using in_flight_refines [of "[]" es] blocks_read_outstanding [of "fold in_flight_step es []" start stop read_ts]
  by simp

end
