(* ===== verification/Anti_Entropy.thy ===== *)
theory Anti_Entropy
  imports Arcux_Prelude "HOL-Library.Multiset" "HOL-Library.Product_Lexorder"
begin

text \<open>
  The comparison of two leaderless replicas (\<open>server/src/anti_entropy.rs\<close>): the digest of a set of versions
  over 256 buckets, the Merkle tree over a digest as a heap array, the descent to the leaves that differ, and
  the Last-Writer-Wins choice of what to adopt. \<open>usize\<close> has 64 bits. The results are that the descent always
  ends and reports only leaves that differ, and that it reports all of them unless two different pairs of
  child hashes mix to the same parent.
\<close>

unbundle bit_operations_syntax

definition LEAVES :: nat where "LEAVES = 256"

record version =
  ve_key :: bytes
  ve_version :: u64
  ve_value :: bytes
  ve_delete :: bool

definition FNV_OFFSET :: u64 where "FNV_OFFSET = 0xcbf29ce484222325"

definition FNV_PRIME :: u64 where "FNV_PRIME = 0x100000001b3"

definition fnv1a_step :: "u64 \<Rightarrow> bytes \<Rightarrow> u64" where
  "fnv1a_step h bs = (let h = fold (\<lambda>b h. (h XOR ucast b) * FNV_PRIME) bs h in (h XOR 0xff) * FNV_PRIME)"

definition fnv1a :: "bytes \<Rightarrow> u64" where
  "fnv1a bs = fnv1a_step FNV_OFFSET bs"

definition mix :: "u64 \<Rightarrow> u64 \<Rightarrow> u64" where
  "mix a b = (let h = fnv1a_step FNV_OFFSET (u64_to_be a) in fnv1a_step h (u64_to_be b))"

definition bucket_of :: "bytes \<Rightarrow> nat" where
  "bucket_of key = unat (fnv1a key) mod LEAVES"

section \<open>The digest\<close>

definition leaf_hash :: "(bytes \<times> u64) list \<Rightarrow> u64" where
  "leaf_hash entries = fold (\<lambda>(k, ver) h. fnv1a_step (fnv1a_step h k) (u64_to_be ver)) (sort entries) FNV_OFFSET"

definition push_bucket :: "version \<Rightarrow> (bytes \<times> u64) list list \<Rightarrow> (bytes \<times> u64) list list" where
  "push_bucket v buckets =
     (let i = bucket_of (ve_key v) in buckets[i := buckets ! i @ [(ve_key v, ve_version v)]])"

definition digest :: "version list \<Rightarrow> u64 list" where
  "digest versions = map leaf_hash (fold push_bucket versions (replicate LEAVES []))"

section \<open>The tree\<close>

text \<open>The heap array: the root at 1, the children of \<open>i\<close> at \<open>2i\<close> and \<open>2i + 1\<close>, the leaves from \<open>LEAVES\<close> on.\<close>

definition mix_node :: "nat \<Rightarrow> u64 list \<Rightarrow> u64 list" where
  "mix_node i nodes = nodes[i := mix (nodes ! (2 * i)) (nodes ! (2 * i + 1))]"

definition from_digest :: "u64 list \<Rightarrow> u64 list" where
  "from_digest leaves = fold mix_node (rev [1..<LEAVES]) (replicate LEAVES 0 @ leaves)"

definition merkle_root :: "u64 list \<Rightarrow> u64" where
  "merkle_root nodes = nodes ! 1"

text \<open>The stack of the descent has its top at the front.\<close>

partial_function (option) descend :: "u64 list \<Rightarrow> u64 list \<Rightarrow> nat list \<Rightarrow> nat list \<Rightarrow> nat list option" where
  "descend a b stack out = (case stack of
     [] \<Rightarrow> Some out
   | i # stack \<Rightarrow>
       if a ! i = b ! i then descend a b stack out
       else if LEAVES \<le> i then descend a b stack (out @ [i - LEAVES])
       else descend a b ((2 * i + 1) # 2 * i # stack) out)"

declare descend.simps [code]

definition differing_leaves :: "u64 list \<Rightarrow> u64 list \<Rightarrow> nat list option" where
  "differing_leaves a b = map_option sort (descend a b [1] [])"

definition diff :: "u64 list \<Rightarrow> u64 list \<Rightarrow> nat list option" where
  "diff mine theirs = differing_leaves (from_digest mine) (from_digest theirs)"

definition to_adopt :: "(bytes \<rightharpoonup> u64) \<Rightarrow> version list \<Rightarrow> version list" where
  "to_adopt mine remote =
     filter (\<lambda>r. case mine (ve_key r) of None \<Rightarrow> True | Some ts \<Rightarrow> ts < ve_version r) remote"

section \<open>What the digest depends on\<close>

lemma bucket_less: "bucket_of k < LEAVES"
  by (simp add: bucket_of_def LEAVES_def)

lemma push_buckets:
  "length bs = LEAVES \<Longrightarrow> fold push_bucket vs bs =
     map (\<lambda>i. bs ! i @ map (\<lambda>v. (ve_key v, ve_version v)) (filter (\<lambda>v. bucket_of (ve_key v) = i) vs)) [0..<LEAVES]"
proof (induction vs arbitrary: bs)
  case Nil
  then show ?case using map_nth [of bs] by simp
next
  case (Cons v vs)
  show ?case
    using Cons.IH [of "push_bucket v bs"] Cons.prems bucket_less [of "ve_key v"]
    by (auto simp: push_bucket_def Let_def nth_list_update intro!: map_cong)
qed

lemma digest_leaves:
  "digest vs = map (\<lambda>i. leaf_hash (map (\<lambda>v. (ve_key v, ve_version v)) (filter (\<lambda>v. bucket_of (ve_key v) = i) vs))) [0..<LEAVES]"
  by (simp add: digest_def push_buckets)

lemma length_digest [simp]: "length (digest vs) = LEAVES"
  by (simp add: digest_leaves)

text \<open>A digest sees keys and versions, in any order, and never values.\<close>

lemma digest_ignores_values:
  assumes "mset (map (\<lambda>v. (ve_key v, ve_version v)) vs) = mset (map (\<lambda>v. (ve_key v, ve_version v)) ws)"
  shows "digest vs = digest ws"
proof -
  have f: "map (\<lambda>v. (ve_key v, ve_version v)) (filter (\<lambda>v. bucket_of (ve_key v) = i) vs)
      = filter (\<lambda>(k, _). bucket_of k = i) (map (\<lambda>v. (ve_key v, ve_version v)) vs)" for i vs
    by (simp add: filter_map comp_def)
  have "sort (map (\<lambda>v. (ve_key v, ve_version v)) (filter (\<lambda>v. bucket_of (ve_key v) = i) vs))
      = sort (map (\<lambda>v. (ve_key v, ve_version v)) (filter (\<lambda>v. bucket_of (ve_key v) = i) ws))" for i
    unfolding f by (rule properties_for_sort) (simp_all only: mset_sort mset_filter assms sorted_sort)
  then show ?thesis by (simp only: digest_leaves leaf_hash_def)
qed

section \<open>The nodes of a tree\<close>

lemma length_mix_nodes [simp]: "length (fold mix_node is nodes) = length nodes"
  by (induction "is" arbitrary: nodes) (simp_all add: mix_node_def)

lemma mix_nodes:
  assumes "length nodes = 2 * LEAVES" "1 \<le> m" "m \<le> LEAVES"
  shows "(\<forall>i. i < m \<or> LEAVES \<le> i \<longrightarrow> fold mix_node (rev [m..<LEAVES]) nodes ! i = nodes ! i) \<and>
    (\<forall>i. m \<le> i \<and> i < LEAVES \<longrightarrow> fold mix_node (rev [m..<LEAVES]) nodes ! i =
       mix (fold mix_node (rev [m..<LEAVES]) nodes ! (2 * i)) (fold mix_node (rev [m..<LEAVES]) nodes ! (2 * i + 1)))"
  using assms(2,3)
proof (induction "LEAVES - m" arbitrary: m)
  case (Suc d)
  let ?ns = "fold mix_node (rev [Suc m..<LEAVES]) nodes"
  have eq: "fold mix_node (rev [m..<LEAVES]) nodes = ?ns[m := mix (?ns ! (2 * m)) (?ns ! (2 * m + 1))]"
    using Suc.hyps(2) by (simp add: upt_conv_Cons mix_node_def)
  have "d = LEAVES - Suc m" "1 \<le> Suc m" "Suc m \<le> LEAVES" using Suc.hyps(2) by simp_all
  note ih0 = Suc.hyps(1) [OF this]
  have ih: "i < Suc m \<or> LEAVES \<le> i \<Longrightarrow> ?ns ! i = nodes ! i"
    "Suc m \<le> i \<and> i < LEAVES \<Longrightarrow> ?ns ! i = mix (?ns ! (2 * i)) (?ns ! (2 * i + 1))" for i
    using ih0 by blast+
  have len: "m < length ?ns" using assms(1) Suc.hyps(2) by simp
  show ?case unfolding eq
  proof (intro conjI allI impI)
    fix i
    assume "i < m \<or> LEAVES \<le> i"
    then have "i \<noteq> m" "i < Suc m \<or> LEAVES \<le> i" using Suc.hyps(2) by auto
    then show "?ns[m := mix (?ns ! (2 * m)) (?ns ! (2 * m + 1))] ! i = nodes ! i" using ih(1) [of i] by simp
  next
    fix i
    let ?new = "?ns[m := mix (?ns ! (2 * m)) (?ns ! (2 * m + 1))]"
    assume i: "m \<le> i \<and> i < LEAVES"
    then have "2 * i \<noteq> m" "2 * i + 1 \<noteq> m" using Suc.prems(1) by linarith+
    then have "?new ! (2 * i) = ?ns ! (2 * i)" "?new ! (2 * i + 1) = ?ns ! (2 * i + 1)" by simp_all
    moreover have "?new ! i = mix (?ns ! (2 * i)) (?ns ! (2 * i + 1))"
      using len ih(2) [of i] i by (cases "i = m") simp_all
    ultimately show "?new ! i = mix (?new ! (2 * i)) (?new ! (2 * i + 1))" by (simp only:)
  qed
qed auto

lemma from_digest_nodes:
  assumes "length leaves = LEAVES"
  shows "i < LEAVES \<Longrightarrow> from_digest leaves ! (LEAVES + i) = leaves ! i"
    and "1 \<le> i \<Longrightarrow> i < LEAVES \<Longrightarrow> from_digest leaves ! i = mix (from_digest leaves ! (2 * i)) (from_digest leaves ! (2 * i + 1))"
  using mix_nodes [of "replicate LEAVES 0 @ leaves" 1] assms
  by (auto simp: from_digest_def nth_append LEAVES_def)

section \<open>The descent\<close>

text \<open>The leaves below a node that the descent reports.\<close>

function reported :: "u64 list \<Rightarrow> u64 list \<Rightarrow> nat \<Rightarrow> nat set" where
  "reported a b i =
     (if i = 0 \<or> 2 * LEAVES \<le> i \<or> a ! i = b ! i then {}
      else if LEAVES \<le> i then {i - LEAVES} else reported a b (2 * i) \<union> reported a b (2 * i + 1))"
  by pat_completeness auto
termination by (relation "measure (\<lambda>(_, _, i). 2 * LEAVES - i)") auto

declare reported.simps [simp del]

text \<open>A weight of the stack that every step lowers.\<close>

definition weight :: "nat \<Rightarrow> nat" where
  "weight i = 2 ^ 20 div (i * i)"

lemma weight_children:
  assumes "1 \<le> i" "i < LEAVES"
  shows "weight (2 * i) + weight (2 * i + 1) + 1 < weight i"
proof -
  have le: "i * i \<le> 65025" using mult_le_mono [of i 255 i 255] assms by (simp add: LEAVES_def)
  have "2 ^ 20 div (2 * i * (2 * i)) = weight i div 4"
    by (simp add: weight_def div_mult2_eq [symmetric] mult.commute mult.left_commute)
  then have a: "weight (2 * i) = weight i div 4" by (simp add: weight_def)
  have "weight (2 * i + 1) \<le> weight (2 * i)"
    unfolding weight_def using assms(1) by (intro div_le_mono2 mult_le_mono) simp_all
  moreover have "16 \<le> weight i"
    using div_le_mono2 [OF _ le, of "2 ^ 20"] assms(1) by (simp add: weight_def)
  ultimately show ?thesis using a by linarith
qed

lemma descend_ends:
  assumes "\<forall>i \<in> set stack. 1 \<le> i \<and> i < 2 * LEAVES"
  shows "\<exists>res. descend a b stack out = Some res \<and> set res = set out \<union> (\<Union>i \<in> set stack. reported a b i)"
  using assms
proof (induction "sum_list (map weight stack) + length stack" arbitrary: stack out rule: less_induct)
  case less
  show ?case
  proof (cases stack)
    case (Cons i rest)
    have i: "1 \<le> i" "i < 2 * LEAVES" and rest: "\<forall>i \<in> set rest. 1 \<le> i \<and> i < 2 * LEAVES" using less.prems by (simp_all add: Cons)
    have IH: "\<exists>res. descend a b rest out' = Some res \<and> set res = set out' \<union> (\<Union>i \<in> set rest. reported a b i)" for out'
      using less.hyps [of rest] rest by (simp add: Cons)
    consider (same) "a ! i = b ! i" | (leaf) "a ! i \<noteq> b ! i" "LEAVES \<le> i" | (node) "a ! i \<noteq> b ! i" "i < LEAVES" by linarith
    then show ?thesis
    proof cases
      case same
      then show ?thesis using IH [of out] by (simp add: Cons descend.simps [of a b "i # rest"] reported.simps [of a b i])
    next
      case leaf
      then show ?thesis using IH [of "out @ [i - LEAVES]"] i by (simp add: Cons descend.simps [of a b "i # rest"] reported.simps [of a b i])
    next
      case node
      have "sum_list (map weight ((2 * i + 1) # 2 * i # rest)) + length ((2 * i + 1) # 2 * i # rest)
          < sum_list (map weight stack) + length stack"
        using weight_children [OF i(1) node(2)] by (simp add: Cons)
      moreover have "\<forall>i \<in> set ((2 * i + 1) # 2 * i # rest). 1 \<le> i \<and> i < 2 * LEAVES" using i node rest by auto
      ultimately have "\<exists>res. descend a b ((2 * i + 1) # 2 * i # rest) out = Some res \<and>
          set res = set out \<union> (\<Union>i \<in> set ((2 * i + 1) # 2 * i # rest). reported a b i)"
        by (rule less.hyps)
      then show ?thesis using node i
        by (simp add: Cons descend.simps [of a b "i # rest"] reported.simps [of a b i]) (metis Un_assoc Un_commute Un_left_commute)
    qed
  qed (simp add: descend.simps)
qed

lemma below_differs: "j \<in> reported a b i \<Longrightarrow> j < LEAVES \<and> a ! (LEAVES + j) \<noteq> b ! (LEAVES + j)"
proof (induction a b i rule: reported.induct)
  case (1 a b i)
  from "1.prems" show ?case
    by (subst (asm) reported.simps) (use "1.IH" in \<open>auto split: if_splits\<close>)
qed

text \<open>No two different pairs of children with the same parent hash at the same place.\<close>

definition no_collision :: "u64 list \<Rightarrow> u64 list \<Rightarrow> bool" where
  "no_collision a b \<longleftrightarrow> (\<forall>i \<in> {1..<LEAVES}. mix (a ! (2 * i)) (a ! (2 * i + 1)) = mix (b ! (2 * i)) (b ! (2 * i + 1)) \<longrightarrow>
     a ! (2 * i) = b ! (2 * i) \<and> a ! (2 * i + 1) = b ! (2 * i + 1))"

lemma below_complete:
  assumes "\<forall>i \<in> {1..<LEAVES}. a ! i = b ! i \<longrightarrow> a ! (2 * i) = b ! (2 * i) \<and> a ! (2 * i + 1) = b ! (2 * i + 1)"
    and "j < LEAVES" "a ! (LEAVES + j) \<noteq> b ! (LEAVES + j)" "1 \<le> (LEAVES + j) div 2 ^ k"
  shows "a ! ((LEAVES + j) div 2 ^ k) \<noteq> b ! ((LEAVES + j) div 2 ^ k) \<and> j \<in> reported a b ((LEAVES + j) div 2 ^ k)"
  using assms(4)
proof (induction k)
  case 0
  then show ?case using assms(2,3) by (simp add: reported.simps LEAVES_def)
next
  case (Suc k)
  let ?i = "(LEAVES + j) div 2 ^ k"
  have half: "(LEAVES + j) div 2 ^ Suc k = ?i div 2" by (simp only: power_Suc2 div_mult2_eq)
  have one: "1 \<le> ?i div 2" using Suc.prems by (simp only: half)
  then have "1 \<le> ?i" by linarith
  with Suc.IH have ih: "a ! ?i \<noteq> b ! ?i" "j \<in> reported a b ?i" by simp_all
  have less: "?i div 2 < LEAVES" using assms(2) div_le_dividend [of "LEAVES + j" "2 ^ k"] by linarith
  have child: "?i = 2 * (?i div 2) \<or> ?i = 2 * (?i div 2) + 1" by linarith
  then have "a ! (?i div 2) \<noteq> b ! (?i div 2)" using ih(1) assms(1) one less by (metis atLeastLessThan_iff)
  moreover from this have "reported a b (?i div 2) = reported a b (2 * (?i div 2)) \<union> reported a b (2 * (?i div 2) + 1)"
    using one less by (subst reported.simps) simp
  ultimately show ?case unfolding half using ih(2) child by (metis UnI1 UnI2)
qed

lemma merkle_descends:
  assumes "length mine = LEAVES" "length theirs = LEAVES"
  shows "\<exists>out. diff mine theirs = Some out \<and> sorted out \<and> (\<forall>i \<in> set out. i < LEAVES \<and> mine ! i \<noteq> theirs ! i) \<and>
    (no_collision (from_digest mine) (from_digest theirs) \<longrightarrow> set out = {i. i < LEAVES \<and> mine ! i \<noteq> theirs ! i})"
proof -
  let ?a = "from_digest mine" and ?b = "from_digest theirs"
  note a = from_digest_nodes [OF assms(1)] and b = from_digest_nodes [OF assms(2)]
  obtain res where res: "descend ?a ?b [1] [] = Some res" "set res = reported ?a ?b 1"
    using descend_ends [of "[1]" ?a ?b "[]"] by (auto simp: LEAVES_def)
  have sound: "i < LEAVES \<and> mine ! i \<noteq> theirs ! i" if "i \<in> set res" for i
    using below_differs [of i ?a ?b 1] that res(2) a(1) [of i] b(1) [of i] by simp
  have complete: "i \<in> set res" if "no_collision ?a ?b" "i < LEAVES" "mine ! i \<noteq> theirs ! i" for i
  proof -
    have "?a ! j = ?b ! j \<longrightarrow> ?a ! (2 * j) = ?b ! (2 * j) \<and> ?a ! (2 * j + 1) = ?b ! (2 * j + 1)" if j: "j \<in> {1..<LEAVES}" for j
    proof -
      have "?a ! j = mix (?a ! (2 * j)) (?a ! (2 * j + 1))" "?b ! j = mix (?b ! (2 * j)) (?b ! (2 * j + 1))"
        using j a(2) [of j] b(2) [of j] by simp_all
      with \<open>no_collision ?a ?b\<close> j show ?thesis unfolding no_collision_def by metis
    qed
    moreover have "(LEAVES + i) div 2 ^ 8 = 1" using that(2) by (simp add: LEAVES_def)
    ultimately show ?thesis
      using below_complete [of ?a ?b i 8] that(2,3) a(1) [of i] b(1) [of i] res(2) by simp
  qed
  from res sound complete show ?thesis
    by (intro exI [of _ "sort res"]) (auto simp: diff_def differing_leaves_def)
qed

end
