(* ===== verification/Hlc.thy ===== *)
theory Hlc
  imports Arcux_Prelude
begin

text \<open>
  The hybrid logical clock of a node (\<open>server/src/hlc.rs\<close>), which stamps the writes of the leaderless
  regime: the last stamp issued or observed, 64 bits with the wrap-around of a release build. The wall
  clock is an input of every stamp.
\<close>

definition HLC_BITS :: nat where "HLC_BITS = 18"

definition hlc_split :: "u64 \<Rightarrow> u64 \<times> u64" where
  "hlc_split ts = (drop_bit HLC_BITS ts, and ts (push_bit HLC_BITS 1 - 1))"

definition hlc_new :: u64 where "hlc_new = 0"

definition hlc_now :: "u64 \<Rightarrow> u64 \<Rightarrow> u64 \<times> u64" where
  "hlc_now now_ms latest =
     (let physical_floor = push_bit HLC_BITS now_ms;
          stamp = max (latest + 1) physical_floor
      in (stamp, stamp))"

definition hlc_observe :: "u64 \<Rightarrow> u64 \<Rightarrow> u64" where
  "hlc_observe remote latest = max latest remote"

section \<open>A sequence of stamps and observations\<close>

datatype hlc_event = HlcNow u64 | HlcObserve u64

text \<open>The stamps a clock issues over a sequence of events, with the state before each.\<close>

fun hlc_run :: "hlc_event list \<Rightarrow> u64 \<Rightarrow> (u64 \<times> u64) list" where
  "hlc_run [] latest = []"
| "hlc_run (HlcNow now_ms # es) latest = (case hlc_now now_ms latest of (l, stamp) \<Rightarrow> (latest, stamp) # hlc_run es l)"
| "hlc_run (HlcObserve remote # es) latest = hlc_run es (hlc_observe remote latest)"

text \<open>The stamps an event brings in from outside: the wall-clock floor or the remote stamp.\<close>

fun hlc_input :: "hlc_event \<Rightarrow> u64" where
  "hlc_input (HlcNow now_ms) = push_bit HLC_BITS now_ms"
| "hlc_input (HlcObserve remote) = remote"

lemma hlc_now_bounds:
  assumes "unat latest < 2 ^ 64 - 1"
  shows "latest < fst (hlc_now now_ms latest) \<and> push_bit HLC_BITS now_ms \<le> fst (hlc_now now_ms latest) \<and>
    unat (fst (hlc_now now_ms latest)) \<le> max (unat latest + 1) (unat (push_bit HLC_BITS now_ms))"
proof -
  have "unat (latest + 1) = unat latest + 1" using assms by (simp add: unat_word_ariths)
  then show ?thesis by (simp add: hlc_now_def Let_def max_def word_less_nat_alt word_le_nat_alt)
qed

lemma hlc_run_increasing:
  assumes "unat latest + length es \<le> M" "\<forall>e \<in> set es. unat (hlc_input e) + length es \<le> M" "M < 2 ^ 64"
  shows "sorted_wrt (<) (map snd (hlc_run es latest)) \<and> (\<forall>s \<in> snd ` set (hlc_run es latest). latest < s)"
  using assms
proof (induction es arbitrary: latest)
  case (Cons e es)
  show ?case
  proof (cases e)
    case (HlcNow now_ms)
    let ?l = "fst (hlc_now now_ms latest)"
    have b: "latest < ?l" "unat ?l \<le> max (unat latest + 1) (unat (push_bit HLC_BITS now_ms))"
      using hlc_now_bounds [of latest now_ms] Cons.prems by auto
    have fits: "unat ?l + length es \<le> M" using b(2) Cons.prems(1,2) by (auto simp: HlcNow max_def split: if_splits)
    have "\<forall>e \<in> set es. unat (hlc_input e) + length es \<le> M" using Cons.prems(2) by fastforce
    note ih = Cons.IH [OF fits this Cons.prems(3)]
    have "snd (hlc_now now_ms latest) = ?l" by (simp add: hlc_now_def Let_def)
    with ih b(1) show ?thesis by (auto simp: HlcNow split: prod.splits) (metis fst_conv image_eqI less_trans snd_conv)+
  next
    case (HlcObserve remote)
    have le: "latest \<le> hlc_observe remote latest" by (simp add: hlc_observe_def)
    have "unat (hlc_observe remote latest) + length es \<le> M"
      using Cons.prems(1,2) by (auto simp: HlcObserve hlc_observe_def max_def)
    moreover have "\<forall>e \<in> set es. unat (hlc_input e) + length es \<le> M" using Cons.prems(2) by fastforce
    ultimately have "sorted_wrt (<) (map snd (hlc_run es (hlc_observe remote latest))) \<and>
      (\<forall>s \<in> snd ` set (hlc_run es (hlc_observe remote latest)). hlc_observe remote latest < s)"
      using Cons.IH Cons.prems(3) by blast
    with le show ?thesis by (auto simp: HlcObserve intro: le_less_trans)
  qed
qed simp

end
