(* ===== verification/Scan_Versions.thy ===== *)
theory Scan_Versions
  imports Scan
begin

text \<open>
  What \<open>scan_versions\<close> of \<open>engine/src/scan.rs\<close> returns: for every user key of the range the newest commit
  with its timestamp and value or tombstone, in key order.
\<close>

text \<open>The newest version of a key, as far as it can be decoded.\<close>

definition newest_version :: "kv \<Rightarrow> cf_store \<Rightarrow> bytes \<Rightarrow> versioned_kv \<Rightarrow> bool" where
  "newest_version K s k row \<longleftrightarrow> (\<exists>ts v. newest_commit s k u64_max ts \<and> s CfWrite (encode_data_key k ts) = Some v \<and>
     entry_version K k ts v = Inr (Some row))"

definition version_rows :: "kv \<Rightarrow> cf_store \<Rightarrow> bytes \<Rightarrow> bytes \<Rightarrow> bytes set \<Rightarrow> versioned_kv set" where
  "version_rows K s stop cur seen = {row. \<exists>k \<in> keys_from s cur - seen. (stop = [] \<or> k < stop) \<and> newest_version K s k row}"

text \<open>No record of an unseen key lies before the cursor.\<close>

definition untouched :: "cf_store \<Rightarrow> bytes \<Rightarrow> bytes set \<Rightarrow> bool" where
  "untouched s cur seen \<longleftrightarrow> (\<forall>k \<in> keys_from s cur - seen. \<forall>ts. s CfWrite (encode_data_key k ts) \<noteq> None \<longrightarrow> cur \<le> encode_data_key k ts)"

lemma newest_commit_unique: "newest_commit s k t ts \<Longrightarrow> newest_commit s k t ts' \<Longrightarrow> ts = ts'"
  by (meson newest_commit_def order_antisym)

lemma entry_version_key: "entry_version K k ts v = Inr (Some row) \<Longrightarrow> fst row = k"
  by (auto simp: entry_version_def res_bind_def split: mem_value.split_asm option.split_asm "value.split_asm" sum.split_asm)

lemma entry_version_ok: "kv_reads K s \<Longrightarrow> \<exists>r. entry_version K k ts v = Inr r"
  by (auto simp: entry_version_def kv_reads.get_store split: mem_value.splits option.splits)

lemma hit_is_newest:
  assumes "untouched s cur seen" "seek_spec (s CfWrite) cur (Some (encode_data_key k ts, v))" "k \<notin> seen"
  shows "newest_commit s k u64_max ts"
proof -
  have hit: "cur \<le> encode_data_key k ts" "s CfWrite (encode_data_key k ts) = Some v"
    "\<And>w. cur \<le> w \<Longrightarrow> w < encode_data_key k ts \<Longrightarrow> s CfWrite w = None"
    using assms(2) by (auto simp: seek_spec_def)
  have "k \<in> keys_from s cur - seen" using hit(1,2) assms(3) by (auto simp: keys_from_def)
  then have "cur \<le> encode_data_key k ts'" if "ts' \<in> commits s k" for ts'
    using that assms(1) unfolding untouched_def commits_def by blast
  then have "ts' \<le> ts" if "ts' \<in> commits s k" for ts'
    using that hit(3) [of "encode_data_key k ts'"] by (fastforce simp: commits_def not_le [symmetric])
  with hit(2) show ?thesis by (simp add: newest_commit_def commits_def)
qed

lemma untouched_next:
  assumes "untouched s cur seen" "seek_spec (s CfWrite) cur (Some (encode_data_key k ts, v))" "prefix_free s"
  shows "untouched s (encode_data_key k ts @ [0]) (insert k seen)"
  unfolding untouched_def succ_key_le_iff
proof (intro ballI allI impI)
  fix k' ts'
  assume k': "k' \<in> keys_from s (encode_data_key k ts @ [0]) - insert k seen" and r: "s CfWrite (encode_data_key k' ts') \<noteq> None"
  have "k' \<in> keys_from s cur - seen" using k' keys_from_next [of s cur k ts v, OF assms(2)] by blast
  then have "cur \<le> encode_data_key k' ts'" using assms(1) r unfolding untouched_def by blast
  moreover have "encode_data_key k' ts' \<noteq> encode_data_key k ts" using k' by auto
  ultimately show "encode_data_key k ts < encode_data_key k' ts'"
    using assms(2) r unfolding seek_spec_def by (metis (mono_tags, lifting) linorder_neqE old.prod.case option.simps(5))
qed

lemma version_rows_next:
  assumes "seek_spec (s CfWrite) cur (Some (encode_data_key k ts, v))" "stop = [] \<or> k < stop"
  shows "k \<in> seen \<Longrightarrow> version_rows K s stop cur seen = version_rows K s stop (encode_data_key k ts @ [0]) seen"
    and "k \<notin> seen \<Longrightarrow> version_rows K s stop cur seen =
      {row. newest_version K s k row} \<union> version_rows K s stop (encode_data_key k ts @ [0]) (insert k seen)"
  using assms(2) unfolding version_rows_def keys_from_next [of s cur k ts v, OF assms(1), symmetric] by auto

definition versions_from :: "kv \<Rightarrow> cf_store \<Rightarrow> bytes \<Rightarrow> nat \<Rightarrow> bytes \<Rightarrow> versioned_kv list \<Rightarrow> bytes list \<Rightarrow> bool" where
  "versions_from K s stop limit cur out seen \<longleftrightarrow>
     (\<exists>ext. scan_versions_loop K stop limit cur out seen = Some (Inr (limited limit out ext)) \<and>
        sorted_wrt (<) (map fst ext) \<and> set ext = version_rows K s stop cur (set seen))"

lemma version_rows_Cons:
  assumes pf: "prefix_free s" and hit: "seek_spec (s CfWrite) cur (Some (encode_data_key k ts, v))"
    and k: "stop = [] \<or> k < stop" "k \<notin> set seen" "{r. newest_version K s k r} = {row}" "fst row = k"
    and ext: "sorted_wrt (<) (map fst ext)"
      "set ext = version_rows K s stop (encode_data_key k ts @ [0]) (set (k # seen))"
  shows "sorted_wrt (<) (map fst (row # ext)) \<and> set (row # ext) = version_rows K s stop cur (set seen)"
proof -
  have keys: "insert k (keys_from s (encode_data_key k ts @ [0])) = keys_from s cur"
    by (rule keys_from_next [of s cur k ts v, OF hit])
  have "k < fst r" if r: "r \<in> set ext" for r
  proof -
    obtain k' where "k' \<in> keys_from s cur" "k' \<noteq> k" "newest_version K s k' r"
      using r ext(2) keys by (auto simp: version_rows_def)
    moreover from this(3) have "fst r = k'" unfolding newest_version_def using entry_version_key by blast
    ultimately show ?thesis using seek_least_key [OF pf hit, of k'] by simp
  qed
  then show ?thesis
    using ext k(3,4) version_rows_next(2) [of s cur k ts v, OF hit k(1,2)] by auto
qed

lemma versions_push:
  assumes lim: "limit = 0 \<or> length out < limit"
    and loop: "scan_versions_loop K stop limit cur out seen = (if limit \<noteq> 0 \<and> limit \<le> length (out @ [row]) then Some (Inr (out @ [row]))
      else scan_versions_loop K stop limit cur' (out @ [row]) seen')"
    and cons: "\<And>ext. sorted_wrt (<) (map fst ext) \<Longrightarrow> set ext = version_rows K s stop cur' (set seen') \<Longrightarrow>
      sorted_wrt (<) (map fst (row # ext)) \<and> set (row # ext) = version_rows K s stop cur (set seen)"
    and IH: "\<And>out. limit = 0 \<or> length out < limit \<Longrightarrow> versions_from K s stop limit cur' out seen'"
  shows "versions_from K s stop limit cur out seen"
proof (cases "limit \<noteq> 0 \<and> limit \<le> length (out @ [row])")
  case True
  obtain ext where "sorted_wrt (<) (map fst ext)" "set ext = version_rows K s stop cur' (set seen')"
    using IH [of "[]"] True by (auto simp: versions_from_def)
  with cons [of ext] loop True lim limited_full [of limit out row ext] show ?thesis
    unfolding versions_from_def by (intro exI [of _ "row # ext"]) simp
next
  case False
  then have room: "limit = 0 \<or> length (out @ [row]) < limit" by auto
  obtain ext where "scan_versions_loop K stop limit cur' (out @ [row]) seen' = Some (Inr (limited limit (out @ [row]) ext))"
    "sorted_wrt (<) (map fst ext)" "set ext = version_rows K s stop cur' (set seen')"
    using IH [OF room] unfolding versions_from_def by blast
  with cons [of ext] limited_step [OF room, of ext] loop False show ?thesis
    unfolding versions_from_def if_not_P [OF False] by (intro exI [of _ "row # ext"]) simp
qed

lemma scan_versions_loop_rows:
  assumes K: "kv_reads K s" and fin: "finite (dom (s CfWrite))" and pf: "prefix_free s"
    and un: "untouched s cur (set seen)" and lim: "limit = 0 \<or> length out < limit"
  shows "versions_from K s stop limit cur out seen"
  using un lim
proof (induction "card {w \<in> dom (s CfWrite). cur \<le> w}" arbitrary: cur out seen rule: less_induct)
  case (less cur out seen)
  let ?loop = "scan_versions_loop K stop limit"
  obtain r where r: "kv_seek K CfWrite cur = Inr r" "seek_spec (s CfWrite) cur r"
    using kv_reads.seek_store [OF K] by blast
  note step = scan_versions_loop.simps [of K stop limit cur out seen]
  show ?case
  proof (cases r)
    case None
    then have "keys_from s cur = {}"
      using r(2) by (auto simp: seek_spec_def keys_from_def)
    then show ?thesis
      unfolding versions_from_def by (subst step) (simp add: merge_next_def r(1) None version_rows_def limited_def)
  next
    case (Some e)
    obtain w v where e: "e = (w, v)" by (cases e)
    obtain k ts where w: "w = encode_data_key k ts"
      using pf r(2) by (auto simp: prefix_free_def seek_spec_def Some e)
    note hit = r(2) [unfolded Some e w]
    let ?cur = "encode_data_key k ts @ [0]"
    have mn: "merge_next K CfWrite cur = (Inr (Some (encode_data_key k ts, v)), Some ?cur)"
      by (simp add: merge_next_def r(1) Some e w)
    have "{w \<in> dom (s CfWrite). ?cur \<le> w} \<subset> {w \<in> dom (s CfWrite). cur \<le> w}"
      using hit unfolding succ_key_le_iff by (auto simp: seek_spec_def intro: order_trans)
    then have smaller: "card {w \<in> dom (s CfWrite). ?cur \<le> w} < card {w \<in> dom (s CfWrite). cur \<le> w}"
      using fin by (intro psubset_card_mono) auto
    have un: "untouched s ?cur (insert k (set seen))" by (rule untouched_next [OF less.prems(1) hit pf])
    show ?thesis
    proof (cases "stop \<noteq> [] \<and> stop \<le> k")
      case True
      then have "?loop cur out seen = Some (Inr (limited limit out []))"
        by (subst step) (simp add: mn limited_def)
      moreover have "version_rows K s stop cur (set seen) = {}"
        using True seek_least_key [OF pf hit] by (fastforce simp: version_rows_def)
      ultimately show ?thesis unfolding versions_from_def by (intro exI [of _ "[]"]) simp
    next
      case False
      then have stop: "stop = [] \<or> k < stop" by auto
      note rows = version_rows_next [of s cur k ts v, OF hit stop]
      show ?thesis
      proof (cases "k \<in> set seen")
        case True
        then have "?loop cur out seen = ?loop ?cur out seen"
          using False by (subst step) (auto simp: mn)
        then show ?thesis
          using less.hyps [OF smaller _ less.prems(2), of seen] un rows(1) [OF True] True by (simp add: versions_from_def insert_absorb)
      next
        case unseen: False
        have newest: "newest_commit s k u64_max ts" by (rule hit_is_newest [OF less.prems(1) hit unseen])
        obtain x where x: "entry_version K k ts v = Inr x" using entry_version_ok [OF K] by blast
        have "s CfWrite (encode_data_key k ts) = Some v" using hit by (simp add: seek_spec_def)
        then have "newest_version K s k row \<longleftrightarrow> x = Some row" for row
          unfolding newest_version_def using newest x newest_commit_unique by (metis Inr_inject option.inject)
        then have val: "{row. newest_version K s k row} = (case x of None \<Rightarrow> {} | Some row \<Rightarrow> {row})"
          by (auto split: option.splits)
        show ?thesis
        proof (cases x)
          case None
          then have "?loop cur out seen = ?loop ?cur out (k # seen)"
            using False unseen x by (subst step) (auto simp: mn)
          then show ?thesis
            using less.hyps [OF smaller _ less.prems(2), of "k # seen"] un unfolding versions_from_def rows(2) [OF unseen] val None by simp
        next
          case row: (Some row)
          have cons: "sorted_wrt (<) (map fst ext) \<Longrightarrow> set ext = version_rows K s stop ?cur (set (k # seen)) \<Longrightarrow>
              sorted_wrt (<) (map fst (row # ext)) \<and> set (row # ext) = version_rows K s stop cur (set seen)" for ext
            using version_rows_Cons [OF pf hit stop unseen _ entry_version_key [OF x [unfolded row]]] val row by simp
          have IH: "versions_from K s stop limit ?cur out' (k # seen)" if "limit = 0 \<or> length out' < limit" for out'
            using less.hyps [OF smaller _ that, of "k # seen"] un by simp
          have "?loop cur out seen = (if limit \<noteq> 0 \<and> limit \<le> length (out @ [row]) then Some (Inr (out @ [row]))
              else ?loop ?cur (out @ [row]) (k # seen))"
            using False unseen x row by (subst step) (auto simp: mn)
          from versions_push [OF less.prems(2) this cons IH] show ?thesis .
        qed
      qed
    qed
  qed
qed

text \<open>A scan of \<open>[start, stop)\<close> over prefix-free keys.\<close>

lemma scan_versions_rows:
  assumes "kv_reads K s" "finite (dom (s CfWrite))" "prefix_free s"
    and "\<forall>k. commits s k \<noteq> {} \<longrightarrow> \<not> prefix k start \<or> k = start"
  shows "\<exists>rows. scan_versions K start stop limit = Some (Inr (if limit = 0 then rows else take limit rows)) \<and>
    sorted_wrt (<) (map fst rows) \<and>
    set rows = {row. \<exists>k. start \<le> k \<and> (stop = [] \<or> k < stop) \<and> newest_version K s k row}"
proof -
  have le: "start \<le> encode_data_key k ts \<longleftrightarrow> start \<le> k" if "s CfWrite (encode_data_key k ts) \<noteq> None" for k ts
    using assms(4) le_append_not_prefix that unfolding commits_def encode_data_key_def by blast
  then have keys: "keys_from s start = {k. start \<le> k \<and> commits s k \<noteq> {}}"
    unfolding keys_from_def commits_def by blast
  have "untouched s start (set [])" unfolding untouched_def keys using le by blast
  from scan_versions_loop_rows [OF assms(1-3) this, of limit "[]" stop]
  obtain rows where "scan_versions K start stop limit = Some (Inr (limited limit [] rows))"
    "sorted_wrt (<) (map fst rows)" "set rows = version_rows K s stop start {}"
    by (auto simp: versions_from_def scan_versions_def)
  moreover have "commits s k \<noteq> {}" if "newest_version K s k row" for k row
    using that by (auto simp: newest_version_def newest_commit_def)
  ultimately show ?thesis
    by (intro exI [of _ rows]) (auto simp: limited_def version_rows_def keys)
qed

end
