(* ===== verification/Raft_Cmd.thy ===== *)
theory Raft_Cmd
  imports Pd_Persist Percolator
begin

text \<open>
  The command a log entry of a replicated region carries (\<open>server/src/raft_cmd.rs\<close>) and its bytes. The two
  cursor readers of the file are those of \<open>Pd_Persist\<close>; the strings are the length-prefixed strings of the
  engine. The main result is the round trip of every command whose lengths fit the 32-bit fields.
\<close>

datatype command =
    Autocommit write_batch
  | Prewrite "mutation list" bytes u64 u64
  | Commit bytes "bytes list" u64 u64
  | Resolve "bytes list" u64 u64

definition put_mutation :: "mutation \<Rightarrow> bytes" where
  "put_mutation m = put_length_prefixed (put_length_prefixed [] (mu_key m)) (value_encode (mu_value m))"

fun command_encode :: "command \<Rightarrow> bytes" where
  "command_encode (Autocommit batch) = 0 # batch_encode batch"
| "command_encode (Prewrite mutations primary start_ts ttl) =
     1 # u64_to_be start_ts @ u64_to_be ttl @ put_length_prefixed [] primary @
     u32_to_be (word_of_nat (length mutations)) @ concat (map put_mutation mutations)"
| "command_encode (Commit primary keys start_ts commit_ts) =
     2 # u64_to_be start_ts @ u64_to_be commit_ts @ put_length_prefixed [] primary @
     u32_to_be (word_of_nat (length keys)) @ concat (map (put_length_prefixed []) keys)"
| "command_encode (Resolve keys start_ts commit_ts) =
     3 # u64_to_be start_ts @ u64_to_be commit_ts @
     u32_to_be (word_of_nat (length keys)) @ concat (map (put_length_prefixed []) keys)"

definition get_mutation :: "mutation reader" where
  "get_mutation buf pos = do {
     (key, pos) \<leftarrow> get_length_prefixed buf pos;
     (vb, pos) \<leftarrow> get_length_prefixed buf pos;
     v \<leftarrow> value_decode vb;
     Some (\<lparr>mu_key = key, mu_value = v\<rparr>, pos)
   }"

definition command_decode :: "bytes \<Rightarrow> command option" where
  "command_decode buf = (case buf of
     [] \<Rightarrow> None
   | tag # rest \<Rightarrow>
       if tag = 0 then map_option Autocommit (batch_decode rest)
       else if tag = 1 then do {
         (start_ts, pos) \<leftarrow> get_u64 rest 0;
         (ttl, pos) \<leftarrow> get_u64 rest pos;
         (primary, pos) \<leftarrow> get_length_prefixed rest pos;
         (cnt, pos) \<leftarrow> get_u32 rest pos;
         (mutations, pos) \<leftarrow> get_many get_mutation (unat cnt) rest pos;
         Some (Prewrite mutations primary start_ts ttl)
       }
       else if tag = 2 then do {
         (start_ts, pos) \<leftarrow> get_u64 rest 0;
         (commit_ts, pos) \<leftarrow> get_u64 rest pos;
         (primary, pos) \<leftarrow> get_length_prefixed rest pos;
         (cnt, pos) \<leftarrow> get_u32 rest pos;
         (keys, pos) \<leftarrow> get_many get_length_prefixed (unat cnt) rest pos;
         Some (Commit primary keys start_ts commit_ts)
       }
       else if tag = 3 then do {
         (start_ts, pos) \<leftarrow> get_u64 rest 0;
         (commit_ts, pos) \<leftarrow> get_u64 rest pos;
         (cnt, pos) \<leftarrow> get_u32 rest pos;
         (keys, pos) \<leftarrow> get_many get_length_prefixed (unat cnt) rest pos;
         Some (Resolve keys start_ts commit_ts)
       }
       else None)"

section \<open>Round trip\<close>

definition mutation_fits :: "mutation \<Rightarrow> bool" where
  "mutation_fits m \<longleftrightarrow> fits_u32 (mu_key m) \<and> fits_u32 (value_encode (mu_value m))"

fun command_fits :: "command \<Rightarrow> bool" where
  "command_fits (Autocommit batch) \<longleftrightarrow> batch_fits batch"
| "command_fits (Prewrite mutations primary start_ts ttl) \<longleftrightarrow>
     fits_u32 primary \<and> fits_u32 mutations \<and> (\<forall>m \<in> set mutations. mutation_fits m)"
| "command_fits (Commit primary keys start_ts commit_ts) \<longleftrightarrow>
     fits_u32 primary \<and> fits_u32 keys \<and> (\<forall>k \<in> set keys. fits_u32 k)"
| "command_fits (Resolve keys start_ts commit_ts) \<longleftrightarrow> fits_u32 keys \<and> (\<forall>k \<in> set keys. fits_u32 k)"

lemma reads_length_prefixed:
  assumes "fits_u32 bs"
  shows "reads get_length_prefixed (put_length_prefixed [] bs) bs"
  unfolding reads_def
proof (intro allI impI)
  fix buf pos rest
  assume a: "at_rest buf pos (put_length_prefixed [] bs @ rest)"
  then have "buf = take pos buf @ put_length_prefixed [] bs @ rest" "length (take pos buf) = pos"
    by (simp_all add: at_rest_def) (metis append_take_drop_id)
  then show "get_length_prefixed buf pos = Some (bs, pos + length (put_length_prefixed [] bs))"
    using get_length_prefixed_at [of "take pos buf" pos bs rest] assms by (simp add: add.assoc)
qed

lemma reads_mutation:
  assumes "mutation_fits m"
  shows "reads get_mutation (put_mutation m) m"
  unfolding reads_def
proof (intro allI impI)
  fix buf pos rest
  assume "at_rest buf pos (put_mutation m @ rest)"
  then have a: "at_rest buf pos (put_length_prefixed [] (mu_key m) @ (put_length_prefixed [] (value_encode (mu_value m)) @ rest))"
    by (simp add: put_mutation_def put_length_prefixed_def)
  have fits: "fits_u32 (mu_key m)" "fits_u32 (value_encode (mu_value m))" using assms by (simp_all add: mutation_fits_def)
  note b = at_rest_next [OF a]
  show "get_mutation buf pos = Some (m, pos + length (put_mutation m))"
    using readsD [OF reads_length_prefixed [OF fits(1)] a] readsD [OF reads_length_prefixed [OF fits(2)] b]
    by (simp add: get_mutation_def put_mutation_def add.assoc)
qed

interpretation key_codec: byte_codec "put_length_prefixed []" get_length_prefixed fits_u32
  by unfold_locales (rule reads_length_prefixed)

interpretation mutation_codec: byte_codec put_mutation get_mutation mutation_fits
  by unfold_locales (rule reads_mutation)

text \<open>Decoding the encoding of a command gives the command back.\<close>

theorem command_roundtrip:
  assumes "command_fits cmd"
  shows "command_decode (command_encode cmd) = Some cmd"
proof (cases cmd)
  case (Autocommit batch)
  then show ?thesis using assms by (simp add: command_decode_def batch_decode_encode)
next
  case (Prewrite ms primary start_ts ttl)
  let ?rest = "tl (command_encode cmd)"
  have a: "at_rest ?rest 0 (u64_to_be start_ts @ (u64_to_be ttl @ (put_length_prefixed [] primary @
     (u32_to_be (word_of_nat (length ms)) @ (concat (map put_mutation ms) @ [])))))"
    by (simp add: Prewrite)
  note b = at_rest_next [OF a] note c = at_rest_next [OF b] note d = at_rest_next [OF c] note e = at_rest_next [OF d]
  have fits: "fits_u32 primary" "fits_u32 ms" "\<forall>m \<in> set ms. mutation_fits m" using assms by (simp_all add: Prewrite)
  show ?thesis
    using readsD [OF reads_u64 a] readsD [OF reads_u64 b] readsD [OF reads_length_prefixed [OF fits(1)] c]
      readsD [OF reads_u32 d] readsD [OF mutation_codec.list_reads [OF fits(3)] e] fits(2)
    by (simp add: Prewrite command_decode_def)
next
  case (Commit primary ks start_ts commit_ts)
  let ?rest = "tl (command_encode cmd)"
  have a: "at_rest ?rest 0 (u64_to_be start_ts @ (u64_to_be commit_ts @ (put_length_prefixed [] primary @
     (u32_to_be (word_of_nat (length ks)) @ (concat (map (put_length_prefixed []) ks) @ [])))))"
    by (simp add: Commit)
  note b = at_rest_next [OF a] note c = at_rest_next [OF b] note d = at_rest_next [OF c] note e = at_rest_next [OF d]
  have fits: "fits_u32 primary" "fits_u32 ks" "\<forall>k \<in> set ks. fits_u32 k" using assms by (simp_all add: Commit)
  show ?thesis
    using readsD [OF reads_u64 a] readsD [OF reads_u64 b] readsD [OF reads_length_prefixed [OF fits(1)] c]
      readsD [OF reads_u32 d] readsD [OF key_codec.list_reads [OF fits(3)] e] fits(2)
    by (simp add: Commit command_decode_def)
next
  case (Resolve ks start_ts commit_ts)
  let ?rest = "tl (command_encode cmd)"
  have a: "at_rest ?rest 0 (u64_to_be start_ts @ (u64_to_be commit_ts @
     (u32_to_be (word_of_nat (length ks)) @ (concat (map (put_length_prefixed []) ks) @ []))))"
    by (simp add: Resolve)
  note b = at_rest_next [OF a] note c = at_rest_next [OF b] note d = at_rest_next [OF c]
  have fits: "fits_u32 ks" "\<forall>k \<in> set ks. fits_u32 k" using assms by (simp_all add: Resolve)
  show ?thesis
    using readsD [OF reads_u64 a] readsD [OF reads_u64 b] readsD [OF reads_u32 c]
      readsD [OF key_codec.list_reads [OF fits(2)] d] fits(1)
    by (simp add: Resolve command_decode_def)
qed

end
