(* ===== verification/Ap.thy ===== *)
theory Ap
  imports Anti_Entropy Hlc Scan_Versions Server_Apply
begin

text \<open>
  The leaderless regime (\<open>server/src/ap.rs\<close> and the AP parts of \<open>server/src/lib.rs\<close>): a write is stamped by
  the node's clock, applied locally and fanned out; a read consults the peers and repairs; a background pass
  compares digests with every peer and adopts what is newer. A peer is what it answers during the exchange,
  \<open>None\<close> when it is unreachable. Scans and the Merkle descent are loops, so \<open>None\<close> as a result is a loop that
  does not end.
\<close>

record 'c ap_node =
  an_engine :: 'c
  an_hlc :: u64

text \<open>\<open>ReplicateApRequest\<close> and the peers of a region.\<close>

record ap_message =
  am_region :: u64
  am_key :: bytes
  am_value :: bytes
  am_delete :: bool
  am_ts :: u64

record ap_peer =
  pe_digest :: "u64 list option"
  pe_fetch :: "nat list \<Rightarrow> bytes list \<Rightarrow> versioned_kv list option"

section \<open>Writes\<close>

definition ap_for :: "registry \<Rightarrow> u64 list \<Rightarrow> bytes \<Rightarrow> u64 option" where
  "ap_for regions hosted key = (case registry_route regions key of
     None \<Rightarrow> None
   | Some r \<Rightarrow> if rg_id r \<in> set hosted then Some (rg_id r) else None)"

definition raw_value :: "value \<Rightarrow> bytes" where
  "raw_value v = (case v of VPut bs \<Rightarrow> bs | VDelete \<Rightarrow> [])"

definition entry_value :: "bytes \<Rightarrow> bool \<Rightarrow> value" where
  "entry_value bs del = (if del then VDelete else VPut bs)"

text \<open>The stamp of the write and the message for every peer.\<close>

definition ap_write :: "'c eng \<Rightarrow> u64 \<Rightarrow> u64 \<Rightarrow> bytes \<Rightarrow> value \<Rightarrow> 'c ap_node \<Rightarrow> 'c ap_node \<times> (u64 \<times> ap_message) res" where
  "ap_write E now_ms region key v n =
     (case hlc_now now_ms (an_hlc n) of (h, ts) \<Rightarrow>
      case engine_write E (an_engine n) (committed_batch key v ts ts) of (c, r) \<Rightarrow>
        (n\<lparr>an_engine := c, an_hlc := h\<rparr>,
         res_bind r (\<lambda>_. Inr (ts, \<lparr>am_region = region, am_key = key, am_value = raw_value v,
           am_delete = is_delete v, am_ts = ts\<rparr>))))"

definition ap_apply :: "'c eng \<Rightarrow> bytes \<Rightarrow> value \<Rightarrow> u64 \<Rightarrow> 'c ap_node \<Rightarrow> 'c ap_node \<times> unit res" where
  "ap_apply E key v hlc_ts n =
     (case engine_write E (an_engine n) (committed_batch key v hlc_ts hlc_ts) of (c, r) \<Rightarrow>
        (n\<lparr>an_engine := c, an_hlc := hlc_observe hlc_ts (an_hlc n)\<rparr>, res_bind r (\<lambda>_. Inr ())))"

definition replicate_ap :: "'c eng \<Rightarrow> ap_message \<Rightarrow> 'c ap_node \<Rightarrow> 'c ap_node \<times> unit res" where
  "replicate_ap E m n = ap_apply E (am_key m) (entry_value (am_value m) (am_delete m)) (am_ts m) n"

section \<open>Digest and fetch\<close>

definition to_ae_version :: "versioned_kv \<Rightarrow> version" where
  "to_ae_version t = (case t of (key, ts, v, del) \<Rightarrow>
     \<lparr>ve_key = key, ve_version = ts, ve_value = v, ve_delete = del\<rparr>)"

definition from_ap_entry :: "versioned_kv \<Rightarrow> version" where
  "from_ap_entry e = (case e of (key, hlc, v, del) \<Rightarrow>
     \<lparr>ve_key = key, ve_version = hlc, ve_value = v, ve_delete = del\<rparr>)"

definition ap_digest :: "kv \<Rightarrow> registry \<Rightarrow> u64 \<Rightarrow> u64 list res option" where
  "ap_digest K regions i = (case registry_by_id regions i of
     None \<Rightarrow> Some (Inr [])
   | Some r \<Rightarrow> map_option (\<lambda>versions. res_bind versions (\<lambda>vs. Inr (digest (map to_ae_version vs))))
       (scan_versions K (rg_start r) (rg_end r) 0))"

text \<open>The latest versions of the wanted keys, one scan each.\<close>

fun fetch_keys :: "kv \<Rightarrow> bytes list \<Rightarrow> versioned_kv list res option" where
  "fetch_keys K [] = Some (Inr [])"
| "fetch_keys K (k # ks) =
     Option.bind (scan_versions K k (k @ [0]) 1) (\<lambda>found. case found of
       Inl e \<Rightarrow> Some (Inl e)
     | Inr vs \<Rightarrow> map_option (\<lambda>rest. res_bind rest (\<lambda>rest. Inr (take 1 vs @ rest))) (fetch_keys K ks))"

definition ap_fetch :: "kv \<Rightarrow> registry \<Rightarrow> u64 \<Rightarrow> nat list \<Rightarrow> bytes list \<Rightarrow> versioned_kv list res option" where
  "ap_fetch K regions i buckets want_keys = (case registry_by_id regions i of
     None \<Rightarrow> Some (Inr [])
   | Some r \<Rightarrow>
       Option.bind (fetch_keys K want_keys) (\<lambda>by_key. case by_key of
         Inl e \<Rightarrow> Some (Inl e)
       | Inr out \<Rightarrow>
           if buckets = [] then Some (Inr out)
           else map_option (\<lambda>versions. res_bind versions (\<lambda>vs.
                  Inr (out @ filter (\<lambda>(key, _). bucket_of key \<in> set buckets) vs)))
                (scan_versions K (rg_start r) (rg_end r) 0)))"

section \<open>Anti-entropy\<close>

definition adopt_all :: "'c eng \<Rightarrow> version list \<Rightarrow> 'c ap_node \<Rightarrow> 'c ap_node" where
  "adopt_all E vs n = fold (\<lambda>v n. fst (ap_apply E (ve_key v) (entry_value (ve_value v) (ve_delete v)) (ve_version v) n)) vs n"

definition reconcile_peer :: "'c eng \<Rightarrow> u64 list \<Rightarrow> (bytes \<rightharpoonup> u64) \<Rightarrow> ap_peer \<Rightarrow> 'c ap_node \<Rightarrow> 'c ap_node option" where
  "reconcile_peer E local_digest local_map peer n = (case pe_digest peer of
     None \<Rightarrow> Some n
   | Some leaves \<Rightarrow>
       if length leaves \<noteq> LEAVES then Some n
       else map_option (\<lambda>buckets.
              if buckets = [] then n
              else case pe_fetch peer buckets [] of
                     None \<Rightarrow> n
                   | Some es \<Rightarrow> adopt_all E (to_adopt local_map (map from_ap_entry es)) n)
            (diff local_digest leaves))"

fun reconcile_peers :: "'c eng \<Rightarrow> u64 list \<Rightarrow> (bytes \<rightharpoonup> u64) \<Rightarrow> ap_peer list \<Rightarrow> 'c ap_node \<Rightarrow> 'c ap_node option" where
  "reconcile_peers E local_digest local_map [] n = Some n"
| "reconcile_peers E local_digest local_map (p # ps) n =
     Option.bind (reconcile_peer E local_digest local_map p n) (reconcile_peers E local_digest local_map ps)"

definition reconcile_region :: "'c eng \<Rightarrow> registry \<Rightarrow> u64 \<Rightarrow> ap_peer list \<Rightarrow> 'c ap_node \<Rightarrow> 'c ap_node option" where
  "reconcile_region E regions i peers n = (case registry_by_id regions i of
     None \<Rightarrow> Some n
   | Some r \<Rightarrow>
       Option.bind (scan_versions (eng_kv E (an_engine n)) (rg_start r) (rg_end r) 0) (\<lambda>found. case found of
         Inl _ \<Rightarrow> Some n
       | Inr vs \<Rightarrow>
           (let local_vers = map to_ae_version vs
            in reconcile_peers E (digest local_vers) (map_of (rev (map (\<lambda>v. (ve_key v, ve_version v)) local_vers))) peers n)))"

fun reconcile_ap_once :: "'c eng \<Rightarrow> registry \<Rightarrow> (u64 \<times> ap_peer list) list \<Rightarrow> 'c ap_node \<Rightarrow> 'c ap_node option" where
  "reconcile_ap_once E regions [] n = Some n"
| "reconcile_ap_once E regions ((i, peers) # hosted) n =
     Option.bind (reconcile_region E regions i peers n) (reconcile_ap_once E regions hosted)"

section \<open>Reads\<close>

text \<open>One peer's version of the key, and the winner so far.\<close>

definition peer_version :: "bytes \<Rightarrow> ap_peer \<Rightarrow> (u64 \<times> bytes \<times> bool) option" where
  "peer_version key p = (case pe_fetch p [] [key] of
     Some (e # _) \<Rightarrow> Some (snd e)
   | _ \<Rightarrow> None)"

definition better :: "(u64 \<times> bytes \<times> bool) option \<Rightarrow> (u64 \<times> bytes \<times> bool) option \<Rightarrow> (u64 \<times> bytes \<times> bool) option" where
  "better ver best = (case ver of
     None \<Rightarrow> best
   | Some (ts, _) \<Rightarrow> (case best of None \<Rightarrow> ver | Some (b, _) \<Rightarrow> if b < ts then ver else best))"

definition behind :: "u64 \<Rightarrow> (u64 \<times> bytes \<times> bool) option \<Rightarrow> bool" where
  "behind best_ts ver = (case ver of None \<Rightarrow> True | Some (ts, _) \<Rightarrow> ts < best_ts)"

text \<open>The node, the value read, and the positions of the peers the winner is pushed to with the message.\<close>

definition ap_read_repair :: "'c eng \<Rightarrow> u64 \<Rightarrow> bytes \<Rightarrow> ap_peer list \<Rightarrow> 'c ap_node \<Rightarrow>
    ('c ap_node \<times> bytes option res \<times> (nat \<times> ap_message) list) option" where
  "ap_read_repair E region key peers n =
     map_option (\<lambda>found. case found of
       Inl e \<Rightarrow> (n, Inl e, [])
     | Inr vs \<Rightarrow>
         (let mine = (case vs of [] \<Rightarrow> None | e # _ \<Rightarrow> Some (snd e));
              vers = map (peer_version key) peers
          in case fold better vers mine of
               None \<Rightarrow> (n, Inr None, [])
             | Some (ts, bs, del) \<Rightarrow>
                 (case (if behind ts mine then ap_apply E key (entry_value bs del) ts n else (n, Inr ())) of
                    (n, Inl e) \<Rightarrow> (n, Inl e, [])
                  | (n, Inr _) \<Rightarrow>
                      (n, Inr (if del then None else Some bs),
                       map (\<lambda>i. (i, \<lparr>am_region = region, am_key = key, am_value = bs, am_delete = del, am_ts = ts\<rparr>))
                         (filter (\<lambda>i. behind ts (vers ! i)) [0..<length peers])))))
       (scan_versions (eng_kv E (an_engine n)) key (key @ [0]) 1)"

end
