(* ===== verification/Merkle.thy ===== *)
theory Merkle
  imports Anti_Entropy
begin

text \<open>
  The comparison of two digests at a concrete pair: the digest of nothing and of one version. The hashes on
  the path from the bucket of the key to the root are computed over the integers, which shows that the
  absence of collisions, under which the descent is exact, is met.
\<close>

unbundle bit_operations_syntax

section \<open>Computing the hashes\<close>

definition fnv_int :: "int \<Rightarrow> int \<Rightarrow> int" where
  "fnv_int b h = ((h XOR b) * 0x100000001b3) mod 0x10000000000000000"

definition mix_int :: "int \<Rightarrow> int \<Rightarrow> int" where
  "mix_int a b = (let be = \<lambda>a. map (\<lambda>d. a div d mod 256) [0x100000000000000, 0x1000000000000, 0x10000000000, 0x100000000, 0x1000000, 0x10000, 0x100, 1]
     in fold fnv_int (be a @ 255 # be b @ [255]) 0xcbf29ce484222325)"

lemma fnv_int_step: "uint (fnv1a_step h bs) = fold fnv_int (map uint bs @ [255]) (uint h)"
proof -
  have s: "uint ((h XOR ucast b) * FNV_PRIME) = fnv_int (uint b) (uint h)" for h :: u64 and b :: byte
  proof -
    have "uint b mod 18446744073709551616 = uint b" using uint_lt2p [of b] by (intro mod_pos_pos_trivial) simp_all
    then show ?thesis by (simp add: fnv_int_def FNV_PRIME_def uint_word_ariths unsigned_xor_eq unsigned_ucast_eq take_bit_eq_mod)
  qed
  have l: "uint ((h XOR 0xff) * FNV_PRIME) = fnv_int 255 (uint h)" for h :: u64
    using s [of h 255] by simp
  have "uint (fold (\<lambda>b h. (h XOR ucast b) * FNV_PRIME) bs h) = fold fnv_int (map uint bs) (uint h)"
    by (induction bs arbitrary: h) (simp_all add: s)
  then show ?thesis by (simp add: fnv1a_step_def Let_def l)
qed

lemma uint_be: "map uint (u64_to_be a) = map (\<lambda>d. uint a div d mod 256) [0x100000000000000, 0x1000000000000, 0x10000000000, 0x100000000, 0x1000000, 0x10000, 0x100, 1]"
proof -
  have b: "uint (word_of_nat n :: byte) = int n mod 256" for n
    by (simp add: unsigned_of_nat take_bit_eq_mod zmod_int)
  have st: "be_bytes (numeral k) n = word_of_nat (n div 256 ^ pred_numeral k) # be_bytes (pred_numeral k) n" for k n
    by (subst numeral_eq_Suc [of k]) (simp only: be_bytes.simps)
  have "u64_to_be a = map (\<lambda>k. word_of_nat (unat a div 256 ^ k)) [7, 6, 5, 4, 3, 2, 1, 0]"
    by (simp add: u64_to_be_def st)
  then show ?thesis by (simp add: b zdiv_int unsigned_ucast_eq take_bit_eq_mod)
qed

lemma uint_mix: "uint (mix a b) = mix_int (uint a) (uint b)"
  by (simp add: mix_def mix_int_def Let_def fnv_int_step FNV_OFFSET_def uint_be del: map_map)

lemma mix_eqI: "mix_int (uint a) (uint b) = uint c \<Longrightarrow> mix a b = c"
  using uint_mix [of a b] by (metis word_uint_eqI)

lemma leaf_1_5: "leaf_hash [([1], 5)] = 0xab8ea12e8bbcefa7" "bucket_of [1] = 137"
proof -
  have "uint (leaf_hash [([1], 5)]) = 0xab8ea12e8bbcefa7"
    by (simp add: leaf_hash_def fnv_int_step uint_be FNV_OFFSET_def fnv_int_def)
  then show "leaf_hash [([1], 5)] = 0xab8ea12e8bbcefa7" by (intro word_uint_eqI) simp
  have "uint (fnv1a [1]) = 0x82fc907b4e9a889" by (simp add: fnv1a_def fnv_int_step FNV_OFFSET_def fnv_int_def)
  then show "bucket_of [1] = 137" by (simp add: bucket_of_def LEAVES_def unat_eq_nat_uint)
qed

lemma path_mixes:
  "mix 0xcbf29ce484222325 0xcbf29ce484222325 = 0x15788702532f1389"
  "mix 0xcbf29ce484222325 0xab8ea12e8bbcefa7 = 0xac19e06af4e2d6b9"
  "mix 0x15788702532f1389 0x15788702532f1389 = 0xa65f95d1569753ef"
  "mix 0xac19e06af4e2d6b9 0x15788702532f1389 = 0x5391f5658c650237"
  "mix 0xa65f95d1569753ef 0xa65f95d1569753ef = 0x4d39a0b0744fc61f"
  "mix 0x5391f5658c650237 0xa65f95d1569753ef = 0xaa7c3170fe88dbc5"
  "mix 0x4d39a0b0744fc61f 0x4d39a0b0744fc61f = 0xc138489fab1191c3"
  "mix 0x4d39a0b0744fc61f 0xaa7c3170fe88dbc5 = 0x4612f3f099a2d3ac"
  "mix 0xc138489fab1191c3 0xc138489fab1191c3 = 0x90be9a711909db53"
  "mix 0x4612f3f099a2d3ac 0xc138489fab1191c3 = 0x40c5b773fcca50b8"
  "mix 0x90be9a711909db53 0x90be9a711909db53 = 0x891b7bd970ccc771"
  "mix 0x40c5b773fcca50b8 0x90be9a711909db53 = 0x3931e57577e7e531"
  "mix 0x891b7bd970ccc771 0x891b7bd970ccc771 = 0x8139bb0a1fe3337"
  "mix 0x3931e57577e7e531 0x891b7bd970ccc771 = 0x1bf9dacc0f8d3337"
  "mix 0x8139bb0a1fe3337 0x8139bb0a1fe3337 = 0x596bae892b3ee6f5"
  "mix 0x8139bb0a1fe3337 0x1bf9dacc0f8d3337 = 0xe0088546e11a13c"
  by (rule mix_eqI, simp add: mix_int_def fnv_int_def)+


text \<open>Two trees that differ at one place of a level.\<close>

definition differ_at :: "u64 list \<Rightarrow> u64 list \<Rightarrow> nat \<Rightarrow> nat \<Rightarrow> u64 \<Rightarrow> u64 \<Rightarrow> bool" where
  "differ_at a b m p e f \<longleftrightarrow> (\<forall>i \<in> {m..<2 * m}. a ! i = e \<and> b ! i = (if i = p then f else e))"

lemma differ_at_up:
  assumes d: "differ_at (from_digest as) (from_digest bs) (2 * m) p e f" and len: "length as = LEAVES" "length bs = LEAVES"
    and m: "1 \<le> m" "2 * m \<le> LEAVES" and "mix e e = e'" "mix (if even p then f else e) (if even p then e else f) = f'" "e' \<noteq> f'"
  shows "differ_at (from_digest as) (from_digest bs) m (p div 2) e' f'"
    "i \<in> {m..<2 * m} \<Longrightarrow> from_digest as ! i = from_digest bs ! i \<Longrightarrow>
       from_digest as ! (2 * i) = from_digest bs ! (2 * i) \<and> from_digest as ! (2 * i + 1) = from_digest bs ! (2 * i + 1)"
proof -
  let ?a = "from_digest as" and ?b = "from_digest bs"
  have c: "?a ! (2 * i) = e \<and> ?b ! (2 * i) = (if 2 * i = p then f else e) \<and>
      ?a ! (2 * i + 1) = e \<and> ?b ! (2 * i + 1) = (if 2 * i + 1 = p then f else e)" if "i \<in> {m..<2 * m}" for i
    using d that unfolding differ_at_def by auto
  have up: "?a ! i = e' \<and> ?b ! i = (if i = p div 2 then f' else e')" if i: "i \<in> {m..<2 * m}" for i
  proof -
    have "?a ! i = mix (?a ! (2 * i)) (?a ! (2 * i + 1))" "?b ! i = mix (?b ! (2 * i)) (?b ! (2 * i + 1))"
      using from_digest_nodes(2) [of _ i] len m i by simp_all
    moreover have "2 * i = p \<longleftrightarrow> i = p div 2 \<and> even p" "2 * i + 1 = p \<longleftrightarrow> i = p div 2 \<and> odd p" by presburger+
    ultimately show ?thesis using c [OF i] assms(6,7) by (cases "even p") auto
  qed
  then show "differ_at ?a ?b m (p div 2) e' f'" unfolding differ_at_def by blast
  assume i: "i \<in> {m..<2 * m}" and "?a ! i = ?b ! i"
  then have "i \<noteq> p div 2" using up assms(8) by metis
  then have "2 * i \<noteq> p" "2 * i + 1 \<noteq> p" by auto
  with c [OF i] show "?a ! (2 * i) = ?b ! (2 * i) \<and> ?a ! (2 * i + 1) = ?b ! (2 * i + 1)" by simp
qed

lemma digest_nth: "i < LEAVES \<Longrightarrow> digest vs ! i = leaf_hash (map (\<lambda>v. (ve_key v, ve_version v)) (filter (\<lambda>v. bucket_of (ve_key v) = i) vs))"
  by (simp add: digest_leaves del: upt.simps)

lemma one_version_apart:
  "no_collision (from_digest (digest [])) (from_digest (digest [\<lparr>ve_key = [1], ve_version = 5, ve_value = bs, ve_delete = del\<rparr>]))"
proof -
  let ?x = "digest []" and ?y = "digest [\<lparr>ve_key = [1], ve_version = 5, ve_value = bs, ve_delete = del\<rparr>]"
  let ?a = "from_digest ?x" and ?b = "from_digest ?y"
  let ?ok = "\<lambda>m. \<forall>i \<in> {m..<2 * m}. ?a ! i = ?b ! i \<longrightarrow> ?a ! (2 * i) = ?b ! (2 * i) \<and> ?a ! (2 * i + 1) = ?b ! (2 * i + 1)"
  have up: "differ_at ?a ?b m p e' f' \<and> ?ok m"
    if "differ_at ?a ?b m' p' e f" "m' = 2 * m" "p = p' div 2" "1 \<le> m" "2 * m \<le> LEAVES"
      "mix e e = e'" "mix (if even p' then f else e) (if even p' then e else f) = f'" "e' \<noteq> f'" for m m' p p' e e' f f'
    using differ_at_up [OF _ length_digest length_digest, of "[]" "[\<lparr>ve_key = [1], ve_version = 5, ve_value = bs, ve_delete = del\<rparr>]" m p' e f e' f'] that
    by blast
  have leaves: "?a ! (LEAVES + i) = FNV_OFFSET \<and> ?b ! (LEAVES + i) = (if i = 137 then 0xab8ea12e8bbcefa7 else FNV_OFFSET)" if "i < LEAVES" for i
    using that by (simp add: from_digest_nodes(1) [OF length_digest that] digest_nth leaf_1_5 leaf_hash_def [of "[]"])
  have d0: "differ_at ?a ?b 256 393 0xcbf29ce484222325 0xab8ea12e8bbcefa7"
    unfolding differ_at_def
  proof
    fix i :: nat
    assume "i \<in> {256..<2 * 256}"
    then show "?a ! i = 0xcbf29ce484222325 \<and> ?b ! i = (if i = 393 then 0xab8ea12e8bbcefa7 else 0xcbf29ce484222325)"
      using leaves [of "i - 256"] by (auto simp: FNV_OFFSET_def LEAVES_def split: if_splits)
  qed
  have d1: "differ_at ?a ?b 128 196 0x15788702532f1389 0xac19e06af4e2d6b9 \<and> ?ok 128"
    by (rule up [OF d0]) (simp_all add: path_mixes LEAVES_def)
  have d2: "differ_at ?a ?b 64 98 0xa65f95d1569753ef 0x5391f5658c650237 \<and> ?ok 64"
    by (rule up [OF conjunct1 [OF d1]]) (simp_all add: path_mixes LEAVES_def)
  have d3: "differ_at ?a ?b 32 49 0x4d39a0b0744fc61f 0xaa7c3170fe88dbc5 \<and> ?ok 32"
    by (rule up [OF conjunct1 [OF d2]]) (simp_all add: path_mixes LEAVES_def)
  have d4: "differ_at ?a ?b 16 24 0xc138489fab1191c3 0x4612f3f099a2d3ac \<and> ?ok 16"
    by (rule up [OF conjunct1 [OF d3]]) (simp_all add: path_mixes LEAVES_def)
  have d5: "differ_at ?a ?b 8 12 0x90be9a711909db53 0x40c5b773fcca50b8 \<and> ?ok 8"
    by (rule up [OF conjunct1 [OF d4]]) (simp_all add: path_mixes LEAVES_def)
  have d6: "differ_at ?a ?b 4 6 0x891b7bd970ccc771 0x3931e57577e7e531 \<and> ?ok 4"
    by (rule up [OF conjunct1 [OF d5]]) (simp_all add: path_mixes LEAVES_def)
  have d7: "differ_at ?a ?b 2 3 0x8139bb0a1fe3337 0x1bf9dacc0f8d3337 \<and> ?ok 2"
    by (rule up [OF conjunct1 [OF d6]]) (simp_all add: path_mixes LEAVES_def)
  have d8: "differ_at ?a ?b 1 1 0x596bae892b3ee6f5 0xe0088546e11a13c \<and> ?ok 1"
    by (rule up [OF conjunct1 [OF d7]]) (simp_all add: path_mixes LEAVES_def)
  have ok: "?a ! i = ?b ! i \<longrightarrow> ?a ! (2 * i) = ?b ! (2 * i) \<and> ?a ! (2 * i + 1) = ?b ! (2 * i + 1)" if "i \<in> {1..<LEAVES}" for i
  proof -
    consider "i \<in> {1..<2 * 1}" | "i \<in> {2..<2 * 2}" | "i \<in> {4..<2 * 4}" | "i \<in> {8..<2 * 8}" | "i \<in> {16..<2 * 16}"
      | "i \<in> {32..<2 * 32}" | "i \<in> {64..<2 * 64}" | "i \<in> {128..<2 * 128}"
      using \<open>i \<in> {1..<LEAVES}\<close> by (fastforce simp: LEAVES_def)
    then show ?thesis by cases (use d1 d2 d3 d4 d5 d6 d7 d8 in blast)+
  qed
  show ?thesis unfolding no_collision_def
    using ok from_digest_nodes(2) [OF length_digest, of _ "[]"]
      from_digest_nodes(2) [OF length_digest, of _ "[\<lparr>ve_key = [1], ve_version = 5, ve_value = bs, ve_delete = del\<rparr>]"]
    by (metis atLeastLessThan_iff)
qed

section \<open>The descent\<close>

text \<open>The comparison of two digests ends and is exact up to hash collisions: it reports only buckets whose
  hashes differ, in order, and every one of them unless two different pairs of child hashes mix to the same
  parent.\<close>

theorem merkle_descent_exact:
  "\<exists>out. diff (digest vs) (digest ws) = Some out \<and> sorted out \<and>
     set out \<subseteq> {i. i < LEAVES \<and> digest vs ! i \<noteq> digest ws ! i} \<and>
     (set out = {i. i < LEAVES \<and> digest vs ! i \<noteq> digest ws ! i} \<or> \<not> no_collision (from_digest (digest vs)) (from_digest (digest ws)))"
  using merkle_descends [of "digest vs" "digest ws"] by fastforce

theorem merkle_descent_exact_witness:
  "\<exists>out. diff (digest []) (digest [\<lparr>ve_key = [1], ve_version = 5, ve_value = [9], ve_delete = False\<rparr>]) = Some out \<and> set out = {137}"
proof -
  have "digest [] ! i \<noteq> digest [\<lparr>ve_key = [1], ve_version = 5, ve_value = [9], ve_delete = False\<rparr>] ! i \<longleftrightarrow> i = 137" if "i < LEAVES" for i
    using that by (simp add: digest_nth leaf_1_5 leaf_hash_def [of "[]"] FNV_OFFSET_def)
  moreover have "137 < LEAVES" by (simp add: LEAVES_def)
  ultimately have "{i. i < LEAVES \<and> digest [] ! i \<noteq> digest [\<lparr>ve_key = [1], ve_version = 5, ve_value = [9], ve_delete = False\<rparr>] ! i} = {137}"
    by blast
  with merkle_descent_exact [of "[]" "[\<lparr>ve_key = [1], ve_version = 5, ve_value = [9], ve_delete = False\<rparr>]"] one_version_apart
  show ?thesis by auto
qed

end
