(* ===== verification/Replica_State.thy ===== *)
theory Replica_State
  imports Server_Apply
begin

text \<open>
  What the replicas of a region have in common (\<open>make_apply\<close>, \<open>make_snapshot\<close>, \<open>make_restore\<close> in
  \<open>server/src/lib.rs\<close>). The locale \<open>replica_pair\<close> has two engines that meet the contract of \<open>Mvcc\<close> and shows
  that the same log keeps their stores equal. The second part characterises a snapshot restored on an empty
  replica and shows where the restored values stay hidden.
\<close>

section \<open>Two replicas\<close>

text \<open>The requests a command can submit.\<close>

fun command_ops :: "command \<Rightarrow> op list" where
  "command_ops (Autocommit batch) = [OWrite batch]"
| "command_ops (Prewrite ms primary start_ts ttl) =
     map (\<lambda>m. OPrewrite \<lparr>pw_key = mu_key m, pw_value = value_encode (mu_value m), pw_primary = primary,
       pw_start_ts = start_ts, pw_ttl = ttl, pw_kind = value_kind (mu_value m)\<rparr>) ms @
     map (\<lambda>m. OResolve \<lparr>rs_key = mu_key m, rs_start_ts = start_ts, rs_action = RaRollback\<rparr>) ms"
| "command_ops (Commit primary ks start_ts commit_ts) =
     OWrite (commit_primary_batch \<lparr>tx_start_ts = start_ts, tx_primary = primary, tx_mutations = commit_mutations primary ks\<rparr> commit_ts) #
     map (\<lambda>k. OResolve \<lparr>rs_key = k, rs_start_ts = start_ts, rs_action = RaCommit commit_ts\<rparr>) ks"
| "command_ops (Resolve ks start_ts commit_ts) =
     map (\<lambda>k. OResolve \<lparr>rs_key = k, rs_start_ts = start_ts, rs_action = (if commit_ts = 0 then RaRollback else RaCommit commit_ts)\<rparr>) ks"

definition entry_adm :: "(op \<Rightarrow> bool) \<Rightarrow> bytes \<Rightarrow> bool" where
  "entry_adm adm data = (case command_decode data of Some cmd \<Rightarrow> \<forall>op \<in> set (command_ops cmd). adm op | None \<Rightarrow> True)"

abbreviation outcome :: "'a res \<Rightarrow> unit res" where
  "outcome r \<equiv> res_bind r (\<lambda>_. Inr ())"

lemma res_bind_Inr [simp]: "res_bind r Inr = r"
  by (cases r) simp_all

locale replica_pair = a: engine_api E inv store adm + b: engine_api E' inv' store' adm
  for E :: "'c eng" and inv store and adm and E' :: "'d eng" and inv' store'
begin

abbreviation twins :: "'c \<Rightarrow> 'd \<Rightarrow> bool" where
  "twins c d \<equiv> inv c \<and> inv' d \<and> store c = store' d"

abbreviation same :: "'c \<times> 'r res \<Rightarrow> 'd \<times> 'r res \<Rightarrow> bool" where
  "same x y \<equiv> twins (fst x) (fst y) \<and> outcome (snd x) = outcome (snd y)"

lemma submit_twins:
  assumes "twins c d" "adm op"
  shows "same (eng_submit E c op) (eng_submit E' d op)"
proof -
  obtain c' r d' r' where s: "eng_submit E c op = (c', r)" "eng_submit E' d op = (d', r')" by fastforce
  have "eng_kv E c = eng_kv E' d" using assms(1) a.reads [of c] b.reads [of d] kv_reads_unique by simp
  then show ?thesis
    using a.submit_inv [OF _ assms(2) s(1)] b.submit_inv [OF _ assms(2) s(2)] a.submit_store [OF _ assms(2) s(1)]
      b.submit_store [OF _ assms(2) s(2)] assms(1) by (auto simp: s split: sum.splits option.splits)
qed

lemma write_twins: "twins c d \<Longrightarrow> adm (OWrite batch) \<Longrightarrow> same (engine_write E c batch) (engine_write E' d batch)"
  using submit_twins [of c d "OWrite batch"] by (simp add: engine_write_def)

lemma prewrite_twins:
  assumes "twins c d" "adm (OPrewrite \<lparr>pw_key = k, pw_value = value_encode v, pw_primary = primary,
    pw_start_ts = st, pw_ttl = ttl, pw_kind = value_kind v\<rparr>)"
  shows "same (prewrite_one E c k v primary st ttl) (prewrite_one E' d k v primary st ttl)"
  using submit_twins [OF assms] by (simp add: prewrite_one_def)

lemma resolve_twins:
  assumes "twins c d"
  shows "adm (OResolve \<lparr>rs_key = k, rs_start_ts = st, rs_action = RaCommit cts\<rparr>) \<Longrightarrow>
      same (resolve_commit E c k st cts) (resolve_commit E' d k st cts)"
    and "adm (OResolve \<lparr>rs_key = k, rs_start_ts = st, rs_action = RaRollback\<rparr>) \<Longrightarrow>
      same (resolve_rollback E c k st) (resolve_rollback E' d k st)"
  using submit_twins [OF assms] by (fastforce simp: resolve_commit_def resolve_rollback_def split: prod.splits)+

lemma prewrite_region_loop_twins:
  assumes "twins c d" "\<forall>op \<in> set (command_ops (Prewrite ms primary st ttl)). adm op"
  shows "case prewrite_region_loop E c ms primary st ttl acq of (c', acq', r) \<Rightarrow>
    \<exists>d'. prewrite_region_loop E' d ms primary st ttl acq = (d', acq', r) \<and> twins c' d' \<and> set acq' \<subseteq> set acq \<union> mu_key ` set ms"
  using assms
proof (induction ms arbitrary: c d acq)
  case (Cons m ms)
  obtain c' r d' r' where s: "prewrite_one E c (mu_key m) (mu_value m) primary st ttl = (c', r)"
    "prewrite_one E' d (mu_key m) (mu_value m) primary st ttl = (d', r')" by fastforce
  have same: "twins c' d'" "outcome r = outcome r'"
    using prewrite_twins [OF Cons.prems(1), of "mu_key m" "mu_value m" primary st ttl] Cons.prems(2) by (simp_all add: s)
  show ?case
  proof (cases r)
    case (Inr n)
    then obtain n' where "r' = Inr n'" using same(2) by (cases r') simp_all
    with Inr show ?thesis using Cons.IH [OF same(1), of "acq @ [mu_key m]"] Cons.prems(2) by (fastforce simp: s)
  qed (use same in \<open>cases r'; auto simp: s\<close>)
qed simp

lemma rollback_all_twins:
  assumes "twins c d" "\<forall>k \<in> set ks. adm (OResolve \<lparr>rs_key = k, rs_start_ts = st, rs_action = RaRollback\<rparr>)"
  shows "twins (rollback_all E c st ks) (rollback_all E' d st ks)"
  using assms
proof (induction ks arbitrary: c d)
  case (Cons k ks)
  have "twins (fst (resolve_rollback E c k st)) (fst (resolve_rollback E' d k st))"
    using resolve_twins(2) [OF Cons.prems(1)] Cons.prems(2) by simp
  from Cons.IH [OF this] Cons.prems(2) show ?case by simp
qed simp

lemma prewrite_region_twins:
  assumes "twins c d" "\<forall>op \<in> set (command_ops (Prewrite ms primary st ttl)). adm op"
  shows "same (prewrite_region E c ms primary st ttl) (prewrite_region E' d ms primary st ttl)"
proof -
  obtain c' acq r where l: "prewrite_region_loop E c ms primary st ttl [] = (c', acq, r)" by (metis prod_cases3)
  obtain d' where d: "prewrite_region_loop E' d ms primary st ttl [] = (d', acq, r)" "twins c' d'" "set acq \<subseteq> mu_key ` set ms"
    using prewrite_region_loop_twins [OF assms, of "[]"] by (auto simp: l)
  have "twins (rollback_all E c' st acq) (rollback_all E' d' st acq)"
    using d assms(2) by (intro rollback_all_twins) auto
  with d(2) show ?thesis by (cases r) (simp_all add: prewrite_region_def l d(1))
qed

lemma resolve_keys_twins:
  assumes "twins c d" "\<forall>op \<in> set (command_ops (Resolve ks st cts)). adm op"
  shows "same (resolve_keys E c ks st cts) (resolve_keys E' d ks st cts)"
  using assms
proof (induction ks arbitrary: c d)
  case (Cons k ks)
  let ?f = "\<lambda>E c. if cts = 0 then resolve_rollback E c k st else resolve_commit E c k st cts"
  have "same (?f E c) (?f E' d)"
    using resolve_twins [OF Cons.prems(1), of k st] Cons.prems(2) by (cases "cts = 0") simp_all
  moreover obtain c' r d' r' where s: "?f E c = (c', r)" "?f E' d = (d', r')" by fastforce
  ultimately have "twins c' d'" "r = r'" by simp_all
  then show ?case using Cons.IH [of c' d'] Cons.prems(2) s by (cases r') (auto simp del: if_split)
qed simp

lemma finalize_twins:
  assumes "twins c d"
    "\<forall>m \<in> set ms. mu_key m = tx_primary tx \<or> adm (OResolve \<lparr>rs_key = mu_key m, rs_start_ts = tx_start_ts tx, rs_action = RaCommit cts\<rparr>)"
  shows "same (finalize_loop E c tx cts ms) (finalize_loop E' d tx cts ms)"
  using assms
proof (induction ms arbitrary: c d)
  case (Cons m ms)
  show ?case
  proof (cases "mu_key m = tx_primary tx")
    case False
    obtain c' r d' r' where s: "resolve_commit E c (mu_key m) (tx_start_ts tx) cts = (c', r)"
      "resolve_commit E' d (mu_key m) (tx_start_ts tx) cts = (d', r')" by fastforce
    then have "twins c' d'" "r = r'"
      using resolve_twins(1) [OF Cons.prems(1), of "mu_key m" "tx_start_ts tx" cts] Cons.prems(2) False by simp_all
    then show ?thesis using Cons.IH [of c' d'] Cons.prems(2) s False by (cases r') auto
  qed (use Cons.IH [OF Cons.prems(1)] Cons.prems(2) in simp)
qed simp

lemma commit_twins:
  assumes "twins c d" "\<forall>op \<in> set (command_ops (Commit primary ks st cts)). adm op"
  shows "same (apply_command E c (Commit primary ks st cts)) (apply_command E' d (Commit primary ks st cts))"
proof -
  let ?tx = "\<lparr>tx_start_ts = st, tx_primary = primary, tx_mutations = commit_mutations primary ks\<rparr>"
  obtain c' r d' r' where s: "commit_primary E c ?tx cts = (c', r)" "commit_primary E' d ?tx cts = (d', r')" by fastforce
  have "twins c' d'" "r = r'"
    using write_twins [OF assms(1), of "commit_primary_batch ?tx cts"] assms(2) s by (auto simp: commit_primary_def split: prod.splits)
  moreover from this have "same (finalize_loop E c' ?tx cts (tx_mutations ?tx)) (finalize_loop E' d' ?tx cts (tx_mutations ?tx))"
    using assms(2) by (intro finalize_twins) (auto simp: commit_mutations_def)
  moreover have "transaction_new st (commit_mutations primary ks) = Inr ?tx"
    by (simp add: transaction_new_def commit_mutations_def)
  ultimately show ?thesis using s by (cases r) (auto simp: tx_commit_def finalize_secondaries_def)
qed

lemma make_apply_twins:
  assumes "twins c d" "entry_adm adm data"
  shows "same (make_apply E c data) (make_apply E' d data)"
proof (cases "command_decode data")
  case (Some cmd)
  have adm: "\<forall>op \<in> set (command_ops cmd). adm op" using assms(2) by (simp add: entry_adm_def Some)
  have "same (apply_command E c cmd) (apply_command E' d cmd)"
  proof (cases cmd)
    case (Autocommit batch)
    then show ?thesis using write_twins [OF assms(1), of batch] adm by (auto split: prod.splits)
  next
    case (Prewrite ms primary st ttl)
    then show ?thesis using prewrite_region_twins [OF assms(1)] adm by simp
  next
    case (Commit primary ks st cts)
    then show ?thesis using commit_twins [OF assms(1)] adm by simp
  next
    case (Resolve ks st cts)
    then show ?thesis using resolve_keys_twins [OF assms(1)] adm by simp
  qed
  with assms(1) show ?thesis by (simp add: make_apply_def Some)
qed (use assms in \<open>simp add: make_apply_def\<close>)

lemma log_twins:
  assumes "twins c d" "\<forall>data \<in> set log. entry_adm adm data"
  shows "twins (fst (apply_entries E c log)) (fst (apply_entries E' d log)) \<and>
    snd (apply_entries E c log) = snd (apply_entries E' d log)"
  using assms
proof (induction log arbitrary: c d)
  case (Cons data log)
  have "same (make_apply E c data) (make_apply E' d data)" using make_apply_twins [OF Cons.prems(1)] Cons.prems(2) by simp
  moreover obtain c' r d' r' where s: "make_apply E c data = (c', r)" "make_apply E' d data = (d', r')" by fastforce
  ultimately have "twins c' d'" "r = r'" by simp_all
  then show ?case using Cons.IH [of c' d'] Cons.prems(2) by (auto simp: s split: prod.splits)
qed simp

end

interpretation list_replicas: replica_pair "core_eng list_deps" "api_inv list_deps" "core_store list_deps" req_small
    "core_eng list_deps" "api_inv list_deps" "core_store list_deps"
  by (rule replica_pair.intro [OF list_mem.core_api list_mem.core_api])


definition demo_put :: bytes where
  "demo_put = command_encode (Autocommit (committed_batch [1] (VPut [7]) 1 2))"

lemma demo_put_decode: "command_decode demo_put = Some (Autocommit (committed_batch [1] (VPut [7]) 1 2))"
  unfolding demo_put_def
  by (rule command_roundtrip) (simp add: batch_fits_def committed_batch_def encode_data_key_def encode_write_value_def TS_LEN_def)


section \<open>Snapshots\<close>

lemma reads_kv: "fits_u32 (fst p) \<Longrightarrow> fits_u32 (snd p) \<Longrightarrow> at_rest buf pos (put_kv p @ rest) \<Longrightarrow>
    get_bytes buf pos = Some (fst p, pos + length (put_bytes (fst p))) \<and>
    get_bytes buf (pos + length (put_bytes (fst p))) = Some (snd p, pos + length (put_kv p))"
  using readsD [OF reads_bytes [of "fst p"], of buf pos "put_bytes (snd p) @ rest"]
    readsD [OF reads_bytes [of "snd p"], of buf "pos + length (put_bytes (fst p))" rest]
    at_rest_next [of buf pos "put_bytes (fst p)" "put_bytes (snd p) @ rest"]
  by (simp add: put_kv_def add.assoc)

lemma kv_pairs_loop_reads:
  assumes "\<forall>p \<in> set pairs. fits_u32 (fst p) \<and> fits_u32 (snd p)" "at_rest buf pos (concat (map put_kv pairs) @ rest)"
  shows "kv_pairs_loop buf (length pairs) pos = pairs"
  using assms
proof (induction pairs arbitrary: pos)
  case (Cons p pairs)
  then have "at_rest buf pos (put_kv p @ (concat (map put_kv pairs) @ rest))" by simp
  with Cons.IH [OF _ at_rest_next [OF this]] reads_kv [OF _ _ this] Cons.prems(1) show ?case by simp
qed simp

lemma kv_pairs_roundtrip:
  assumes "\<forall>p \<in> set pairs. fits_u32 (fst p) \<and> fits_u32 (snd p)" "length pairs < 2 ^ 64"
  shows "decode_kv_pairs (encode_kv_pairs pairs) = pairs"
proof -
  have a: "at_rest (encode_kv_pairs pairs) 0 (u64_to_be (word_of_nat (length pairs)) @ (concat (map put_kv pairs) @ []))"
    by (simp add: encode_kv_pairs_def)
  show ?thesis
    using readsD [OF reads_u64 a] kv_pairs_loop_reads [OF assms(1) at_rest_next [OF a]] assms(2)
    by (simp add: decode_kv_pairs_def unat_u64_of_nat)
qed

text \<open>The store after restoring pairs.\<close>

definition restored :: "(bytes \<times> bytes) list \<Rightarrow> cf_store \<Rightarrow> cf_store" where
  "restored pairs = fold (\<lambda>(k, v). store_batch (committed_batch k (VPut v) 1 1)) pairs"

lemma restored_write:
  "restored pairs s CfWrite w = (if \<exists>k \<in> fst ` set pairs. w = encode_data_key k 1 then Some (MvPut (encode_write_value 1)) else s CfWrite w)"
  by (induction pairs arbitrary: s) (auto simp: restored_def committed_batch_def)

lemma restored_lock: "restored pairs s CfLock k = s CfLock k"
  by (induction pairs arbitrary: s) (auto simp: restored_def committed_batch_def)

lemma restored_default:
  "distinct (map fst pairs) \<Longrightarrow> restored pairs s CfDefault (encode_data_key k st) =
     (if st = 1 then (case map_of pairs k of Some v \<Rightarrow> Some (MvPut (value_encode (VPut v))) | None \<Rightarrow> s CfDefault (encode_data_key k st))
      else s CfDefault (encode_data_key k st))"
proof (induction pairs arbitrary: s)
  case (Cons p pairs)
  obtain k' v where p: "p = (k', v)" by (cases p)
  have "map_of pairs k' = None" using Cons.prems by (auto simp: p map_of_eq_None_iff)
  define s' where "s' = store_batch (committed_batch k' (VPut v) 1 1) s"
  have "restored (p # pairs) s = restored pairs s'" by (simp add: restored_def p s'_def)
  moreover have "s' CfDefault (encode_data_key k st) =
      (if k = k' \<and> st = 1 then Some (MvPut (value_encode (VPut v))) else s CfDefault (encode_data_key k st))"
    by (simp add: s'_def committed_batch_def)
  ultimately show ?case
    using Cons.IH [of s'] Cons.prems \<open>map_of pairs k' = None\<close> by (auto simp: p split: option.splits)
qed (simp add: restored_def)

abbreviation pair_adm :: "(op \<Rightarrow> bool) \<Rightarrow> bytes \<times> bytes \<Rightarrow> bool" where
  "pair_adm adm p \<equiv> adm (OWrite (committed_batch (fst p) (VPut (snd p)) 1 1))"

context engine_api
begin

lemma restore_pairs_store:
  assumes "inv c" "\<forall>p \<in> set pairs. pair_adm adm p"
  shows "inv (restore_pairs E c pairs) \<and> store (restore_pairs E c pairs) = restored pairs (store c)"
  using assms
proof (induction pairs arbitrary: c)
  case (Cons p pairs)
  obtain k v where p: "p = (k, v)" by (cases p)
  obtain c' r where w: "engine_write E c (committed_batch k (VPut v) 1 1) = (c', r)" by fastforce
  have "inv c' \<and> store c' = store_batch (committed_batch k (VPut v) 1 1) (store c)"
    using engine_write_store [OF Cons.prems(1) _ _ w] Cons.prems(2) by (simp add: p committed_batch_def batch_is_empty_def)
  with Cons.IH [of c'] Cons.prems(2) show ?case by (simp add: p w restored_def)
qed (simp add: restored_def)

end

end
