(* ===== verification/Replica_Props.thy ===== *)
theory Replica_Props
  imports Replica_State
begin

text \<open>
  What a snapshot of a region carries to another replica, and where the replicated fast path of \<open>put\<close>
  (\<open>committed_batch\<close> in \<open>server/src/lib.rs\<close>) leaves the rules of the transactions around it.
\<close>

section \<open>A snapshot on an empty replica\<close>

lemma eng_kv_core [simp]: "eng_kv (core_eng D) = core_kv D"
  by (simp add: core_eng_def)

lemma commits_card:
  assumes "finite (dom (s CfWrite))"
  shows "finite {k. commits s k \<noteq> {}}" "card {k. commits s k \<noteq> {}} \<le> card (dom (s CfWrite))"
proof -
  have "{k. commits s k \<noteq> {}} \<subseteq> (\<lambda>w. fst (the (decode_data_key w))) ` dom (s CfWrite)"
  proof
    fix k
    assume "k \<in> {k. commits s k \<noteq> {}}"
    then obtain ts where "s CfWrite (encode_data_key k ts) \<noteq> None" by (auto simp: commits_def)
    then show "k \<in> (\<lambda>w. fst (the (decode_data_key w))) ` dom (s CfWrite)"
      by (intro image_eqI [of _ _ "encode_data_key k ts"]) auto
  qed
  then show "finite {k. commits s k \<noteq> {}}" "card {k. commits s k \<noteq> {}} \<le> card (dom (s CfWrite))"
    using assms finite_subset surj_card_le by blast+
qed

lemma pair_small_fits: "pair_adm req_small p \<Longrightarrow> fits_u32 (fst p) \<and> fits_u32 (snd p)"
  by (simp add: committed_batch_def req_small_simps)

lemma one_row_unread:
  assumes "k \<noteq> [1]"
  shows "mvcc_get_unresolved (core_kv list_deps one_row_core) k t = Inr None"
proof -
  let ?s = "core_store list_deps one_row_core" and ?K = "core_kv list_deps one_row_core"
  have K: "kv_reads ?K ?s" using list_mem.core_kv_reads one_row_store(1) by (simp add: api_inv_def)
  obtain r where r: "kv_seek ?K CfWrite (encode_data_key k t) = Inr r" "seek_spec (?s CfWrite) (encode_data_key k t) r"
    using kv_reads.seek_store [OF K] by blast
  have "r = None \<or> (\<exists>v. r = Some (encode_data_key [1] 10, v))"
    using r(2) one_row_reads(4) by (cases r) (auto simp: seek_spec_def)
  then have "read_committed ?K k t = Inr None" using assms by (auto simp: read_committed_def r(1))
  then show ?thesis
    by (simp add: mvcc_get_unresolved_def kv_reads.get_store [OF K] decode_lock_def present_def one_row_store(2) one_row_batch_def)
qed

text \<open>What a replica reads after restoring pairs on an empty store.\<close>

lemma restored_read:
  assumes "kv_reads K (restored pairs (\<lambda>_ _. None))" "distinct (map fst pairs)" "1 \<le> t"
    and inc: "\<forall>p \<in> set pairs. fst p = k \<or> incomparable k (fst p)"
  shows "mvcc_get_unresolved K k t = Inr (map_of pairs k)"
proof -
  let ?s = "restored pairs (\<lambda>_ _. None)"
  have iso: "isolated ?s k" using inc by (fastforce simp: isolated_def restored_write split: if_splits)
  have com: "commits ?s k = (if map_of pairs k = None then {} else {1})"
    by (auto simp: commits_def restored_write map_of_eq_None_iff image_iff)
  have lock: "mvcc_get_unresolved K k t = read_committed K k t"
    by (simp add: mvcc_get_unresolved_def kv_reads.get_store [OF assms(1)] present_def restored_lock decode_lock_def)
  show ?thesis
  proof (cases "map_of pairs k")
    case None
    then show ?thesis using kv_reads.read_committed_none [OF assms(1) iso] com lock by simp
  next
    case (Some v)
    then have in_pairs: "k \<in> fst ` set pairs" by (force dest: map_of_SomeD)
    have "newest_commit ?s k t 1" using assms(3) com Some by (simp add: newest_commit_def)
    moreover have "start_of ?s k 1 = Some 1"
      using in_pairs by (auto simp: start_of_def present_def restored_write)
    moreover have "present ?s CfDefault (encode_data_key k 1) = Some (value_encode (VPut v))"
      using restored_default [OF assms(2)] Some by (simp add: present_def)
    ultimately have "read_committed K k t = Inr (into_option (VPut v))"
      by (rule kv_reads.read_committed_newest [OF assms(1) iso, OF _ _ _ value_roundtrip])
    then show ?thesis using lock Some by simp
  qed
qed

text \<open>The rows a snapshot holds.\<close>

lemma snapshot_rows:
  assumes "mem_skip_map D" "api_inv D c" "prefix_free (core_store D c)"
    and "card (dom (core_store D c CfWrite)) < 2 ^ 64" "registry_by_id regions i = Some r"
    and "\<forall>k. commits (core_store D c) k \<noteq> {} \<longrightarrow> \<not> prefix k (rg_start r) \<or> k = rg_start r"
    and "\<forall>k. commits (core_store D c) k \<noteq> {} \<longrightarrow> no_fail (mvcc_get_unresolved (core_kv D c) k u64_max)"
    and "\<forall>k v. mvcc_get_unresolved (core_kv D c) k u64_max = Inr (Some v) \<longrightarrow> pair_adm req_small (k, v)"
  obtains rows where "make_snapshot regions i start stop (core_eng D) c = Some (encode_kv_pairs rows)"
    "decode_kv_pairs (encode_kv_pairs rows) = rows" "distinct (map fst rows)" "\<forall>p \<in> set rows. pair_adm req_small p"
    "set rows = {(k, v). region_contains r k \<and> commits (core_store D c) k \<noteq> {} \<and>
      mvcc_get_unresolved (core_kv D c) k u64_max = Inr (Some v)}"
proof -
  let ?s = "core_store D c" and ?K = "core_kv D c"
  note api = mem_skip_map.core_api [OF assms(1)]
  have K: "kv_reads ?K ?s" using engine_api.reads [OF api assms(2)] by simp
  have fin: "finite (dom (?s CfWrite))" by (rule engine_api.finite_store [OF api assms(2)])
  obtain rows where scan: "scan (core_eng D) c (rg_start r) (rg_end r) u64_max 0 False = Some (c, Inr rows)"
    and sorted: "sorted_wrt (<) (map fst rows)"
    and set: "set rows = {(k, v). rg_start r \<le> k \<and> (rg_end r = [] \<or> k < rg_end r) \<and> commits ?s k \<noteq> {} \<and>
      mvcc_get_unresolved ?K k u64_max = Inr (Some v)}"
    using scan_rows [of "core_eng D" c ?s "rg_start r" u64_max "rg_end r" 0] K fin assms(3,6,7) by auto
  have dist: "distinct (map fst rows)" using sorted by (simp add: strict_sorted_iff)
  have adm: "\<forall>p \<in> set rows. pair_adm req_small p" using assms(8) by (auto simp: set)
  have "length rows = card (fst ` set rows)" using dist by (metis distinct_card length_map list.set_map)
  also have "\<dots> \<le> card {k. commits ?s k \<noteq> {}}" by (rule card_mono [OF commits_card(1) [of ?s, OF fin]]) (auto simp: set)
  finally have "length rows < 2 ^ 64" using commits_card(2) [of ?s, OF fin] assms(4) by simp
  then have "decode_kv_pairs (encode_kv_pairs rows) = rows"
    using adm pair_small_fits by (intro kv_pairs_roundtrip) auto
  with scan dist adm set show thesis
    by (intro that [of rows]) (simp_all add: make_snapshot_def assms(5) region_contains_def)
qed

lemma visible_case:
  "(\<And>v. m = Some v \<longleftrightarrow> b \<and> x = Inr (Some v)) \<Longrightarrow> m = (if b then case x of Inr v \<Rightarrow> v | Inl _ \<Rightarrow> None else None)"
  by (cases m; cases x) (auto split: option.split, (metis not_None_eq)+)



section \<open>A snapshot on a replica that has data\<close>

lemma restored_default_other: "st \<noteq> 1 \<Longrightarrow> restored pairs s CfDefault (encode_data_key k st) = s CfDefault (encode_data_key k st)"
  by (induction pairs arbitrary: s) (auto simp: restored_def committed_batch_def)

text \<open>C36: A snapshot does not replace what a lagging replica holds. The restored rows are written at the lowest
  timestamp, so a key with a commit of its own keeps its old value at every later snapshot, whatever value
  the snapshot brings.\<close>

theorem restored_value_hidden:
  assumes "mem_skip_map D" "api_inv D c" "isolated (core_store D c) k" "newest_commit (core_store D c) k t cts" "1 < cts"
    and "start_of (core_store D c) k cts = Some st" "st \<noteq> 1"
    and "\<forall>p \<in> set (decode_kv_pairs buf). pair_adm req_small p \<and> (fst p = k \<or> incomparable k (fst p))"
  shows "read_committed (core_kv D (make_restore (core_eng D) c buf)) k t = read_committed (core_kv D c) k t"
proof -
  let ?s = "core_store D c" and ?pairs = "decode_kv_pairs buf" and ?c = "make_restore (core_eng D) c buf"
  note api = mem_skip_map.core_api [OF assms(1)]
  have st: "api_inv D ?c" "core_store D ?c = restored ?pairs ?s"
    using engine_api.restore_pairs_store [OF api assms(2)] assms(8) by (simp_all add: make_restore_def)
  have K: "kv_reads (core_kv D c) ?s" "kv_reads (core_kv D ?c) (restored ?pairs ?s)"
    using engine_api.reads [OF api assms(2)] engine_api.reads [OF api st(1)] st(2) by simp_all
  have iso: "isolated (restored ?pairs ?s) k"
    using assms(3,8) by (fastforce simp: isolated_def restored_write split: if_splits)
  have own: "restored ?pairs ?s CfWrite (encode_data_key k ts) = ?s CfWrite (encode_data_key k ts)" if "ts \<noteq> 1" for ts
    using that by (auto simp: restored_write)
  have "newest_commit (restored ?pairs ?s) k t cts"
    using assms(4,5) unfolding newest_commit_def commits_def by (auto simp: own restored_write split: if_splits)
  moreover have "commit_value (restored ?pairs ?s) k cts = commit_value ?s k cts"
    using own [of cts] assms(5,6) restored_default_other [OF assms(7), of ?pairs ?s k]
    by (auto simp: commit_value_def start_of_def present_def ok_or_def split: option.splits mem_value.splits)
  ultimately show ?thesis
    using kv_reads.read_committed_value [OF K(1) assms(3,4)] kv_reads.read_committed_value [OF K(2) iso] by simp
qed

theorem restored_value_hidden_witness:
  "decode_kv_pairs (encode_kv_pairs [([1], [42])]) = [([1], [42])] \<and>
   read_committed (core_kv list_deps (make_restore (core_eng list_deps) one_row_core (encode_kv_pairs [([1], [42])]))) [1] 20
     = read_committed (core_kv list_deps one_row_core) [1] 20"
proof
  show d: "decode_kv_pairs (encode_kv_pairs [([1], [42])]) = [([1], [42])]" by (rule kv_pairs_roundtrip) simp_all
  show "read_committed (core_kv list_deps (make_restore (core_eng list_deps) one_row_core (encode_kv_pairs [([1], [42])]))) [1] 20
     = read_committed (core_kv list_deps one_row_core) [1] 20"
    by (rule restored_value_hidden [OF list_mem.mem_skip_map_axioms one_row_store(1) one_row_reads(1) _ _ one_row_reads(5)])
      (unfold d, simp_all add: newest_commit_def one_row_reads(3) committed_batch_def req_small_simps)
qed

section \<open>The fast path of a put\<close>

text \<open>The store after a prewrite, a put of the locked key and the commit.\<close>

definition raced :: "bytes \<Rightarrow> mutation \<Rightarrow> u64 \<Rightarrow> u64 \<Rightarrow> value \<Rightarrow> u64 \<Rightarrow> u64 \<Rightarrow> u64 \<Rightarrow> cf_store \<Rightarrow> cf_store" where
  "raced k m st ttl v st' cts' cts s =
     store_batch (commit_primary_batch \<lparr>tx_start_ts = st, tx_primary = k, tx_mutations = commit_mutations k [k]\<rparr> cts)
       (store_batch (committed_batch k v st' cts')
         (store_batch (build_prewrite_batch (mu_spec \<lparr>tx_start_ts = st, tx_primary = k, tx_mutations = [m]\<rparr> ttl m)) s))"

lemma raced_run:
  assumes "engine_api E ok store adm" "ok c" "key_free (store c) st k"
    and small: "\<forall>op \<in> set (command_ops (Prewrite [m] k st ttl) @ command_ops (Commit k [k] st cts)). adm op"
      "adm (OWrite (committed_batch k v st' cts'))"
    and "mu_key m = k" "apply_command E c (Prewrite [m] k st ttl) = (c1, r1)"
    and "apply_command E c1 (Autocommit (committed_batch k v st' cts')) = (c2, r2)"
    and "apply_command E c2 (Commit k [k] st cts) = (c3, r3)"
  shows "r1 = Inr () \<and> r2 = Inr () \<and> r3 = Inr () \<and> ok c3 \<and> store c3 = raced k m st ttl v st' cts' cts (store c)"
proof -
  let ?tx = "\<lparr>tx_start_ts = st, tx_primary = k, tx_mutations = [m]\<rparr>"
  let ?tx' = "\<lparr>tx_start_ts = st, tx_primary = k, tx_mutations = commit_mutations k [k]\<rparr>"
  have adm: "adm (OPrewrite (mu_spec ?tx ttl m))" "adm (OWrite (commit_primary_batch ?tx' cts))"
    using small(1) by (simp_all add: mu_spec_def assms(6) commit_primary_batch_def)
  obtain n where one: "prewrite_one E c (mu_key m) (mu_value m) (tx_primary ?tx) (tx_start_ts ?tx) ttl = (c1, Inr n)" and r1: "r1 = Inr ()"
    using engine_api.prewrite_one_succeeds [OF assms(1,2) adm(1)] assms(3,6,7) by (auto simp: prewrite_region_def)
  note 1 = engine_api.prewrite_one_mu [OF assms(1,2) adm(1) one]
  obtain q where "engine_write E c1 (committed_batch k v st' cts') = (c2, q)" "r2 = outcome q"
    using assms(8) by (auto split: prod.splits)
  with engine_api.engine_write_store [OF assms(1) conjunct1 [OF 1] small(2)]
  have 2: "ok c2 \<and> store c2 = store_batch (committed_batch k v st' cts') (store c1) \<and> r2 = Inr ()"
    by (auto simp: committed_batch_def batch_is_empty_def)
  have "tx_commit E c2 ?tx' cts = (c3, r3)" using assms(9) by (simp add: transaction_new_def commit_mutations_def)
  then obtain q' where "engine_write E c2 (commit_primary_batch ?tx' cts) = (c3, q')" "r3 = outcome q'"
    by (auto simp: tx_commit_def commit_primary_def finalize_secondaries_def commit_mutations_def res_bind_def split: prod.splits sum.splits)
  with engine_api.engine_write_store [OF assms(1) conjunct1 [OF 2] adm(2)]
  have "ok c3 \<and> store c3 = store_batch (commit_primary_batch ?tx' cts) (store c2) \<and> r3 = Inr ()" by auto
  with r1 1 2 show ?thesis by (simp add: raced_def)
qed

lemma raced_store:
  assumes "mu_key m = k" "st \<noteq> st'"
  shows "raced k m st ttl v st' cts' cts s CfWrite w = (if w = encode_data_key k cts then Some (MvPut (encode_write_value st))
        else if w = encode_data_key k cts' then Some (MvPut (encode_write_value st')) else s CfWrite w)"
    "raced k m st ttl v st' cts' cts s CfLock k = Some MvDelete"
    "raced k m st ttl v st' cts' cts s CfDefault (encode_data_key k st) = Some (MvPut (value_encode (mu_value m)))"
  using assms by (auto simp: raced_def commit_primary_batch_def committed_batch_def build_prewrite_store)

text \<open>C37: A replicated put ignores the locks of transactions. When a transaction has locked a key, a put of the
  key between the transaction's snapshot and its commit is applied without an error, the transaction's commit
  is applied without an error too, and its value replaces that of the put it never saw.\<close>

theorem put_overwritten_by_open_transaction:
  assumes "mem_skip_map D" "api_inv D c" "key_free (core_store D c) st k"
    and "\<forall>op \<in> set (command_ops (Prewrite [m] k st ttl) @ command_ops (Commit k [k] st cts)). req_small op"
      "req_small (OWrite (committed_batch k v st' cts'))"
    and "mu_key m = k" "apply_command (core_eng D) c (Prewrite [m] k st ttl) = (c1, r1)"
    and "apply_command (core_eng D) c1 (Autocommit (committed_batch k v st' cts')) = (c2, r2)"
    and "apply_command (core_eng D) c2 (Commit k [k] st cts) = (c3, r3)"
    and "st < st'" "st' < cts'" "cts' < cts" "cts \<le> t"
  shows "r1 = Inr () \<and> r2 = Inr () \<and> r3 = Inr () \<and>
    mvcc_get_unresolved (core_kv D c3) k t = Inr (into_option (mu_value m))"
proof -
  let ?s = "core_store D c" and ?s3 = "raced k m st ttl v st' cts' cts (core_store D c)"
  note api = mem_skip_map.core_api [OF assms(1)]
  note run = raced_run [OF api assms(2-9)]
  have K: "kv_reads (core_kv D c3) ?s3" using engine_api.reads [OF api, of c3] run by simp
  have "st \<noteq> st'" using assms(10) by simp
  note s3 = raced_store [OF assms(6) this, of ttl v cts' cts ?s]
  have iso: "isolated ?s3 k" using assms(3) unfolding key_free_def isolated_def s3(1) by (auto split: if_splits)
  have "ts \<le> cts" if ts: "ts \<in> commits ?s3 k" for ts
  proof (cases "ts = cts \<or> ts = cts'")
    case False
    then have "?s CfWrite (encode_data_key k ts) \<noteq> None" using ts by (simp add: commits_def s3(1))
    then have "ts < st" using assms(3) unfolding key_free_def by (meson not_le)
    then show ?thesis using assms(10-12) by simp
  qed (use assms(12) in auto)
  then have "newest_commit ?s3 k t cts" using assms(13) by (simp add: newest_commit_def) (simp add: commits_def s3(1))
  moreover have "start_of ?s3 k cts = Some st" by (simp add: start_of_def present_def s3(1))
  moreover have "present ?s3 CfDefault (encode_data_key k st) = Some (value_encode (mu_value m))" by (simp add: present_def s3(3))
  ultimately have "read_committed (core_kv D c3) k t = Inr (into_option (mu_value m))"
    by (rule kv_reads.read_committed_newest [OF K iso, OF _ _ _ value_roundtrip])
  then show ?thesis using run
    by (simp add: mvcc_get_unresolved_def kv_reads.get_store [OF K] present_def s3(2) decode_lock_def)
qed

theorem put_overwritten_by_open_transaction_witness:
  "\<exists>c1 c2 c3. apply_command (core_eng list_deps) (fresh_core list_deps 1000) (Prewrite [\<lparr>mu_key = [1], mu_value = VPut [7]\<rparr>] [1] 5 100) = (c1, Inr ()) \<and>
     apply_command (core_eng list_deps) c1 (Autocommit (committed_batch [1] (VPut [8]) 6 7)) = (c2, Inr ()) \<and>
     apply_command (core_eng list_deps) c2 (Commit [1] [[1]] 5 9) = (c3, Inr ()) \<and>
     mvcc_get_unresolved (core_kv list_deps c3) [1] 10 = Inr (Some [7])"
proof -
  let ?m = "\<lparr>mu_key = [1], mu_value = VPut [7]\<rparr>"
  obtain c1 r1 where c1: "apply_command (core_eng list_deps) (fresh_core list_deps 1000) (Prewrite [?m] [1] 5 100) = (c1, r1)" by fastforce
  obtain c2 r2 where c2: "apply_command (core_eng list_deps) c1 (Autocommit (committed_batch [1] (VPut [8]) 6 7)) = (c2, r2)" by fastforce
  obtain c3 r3 where c3: "apply_command (core_eng list_deps) c2 (Commit [1] [[1]] 5 9) = (c3, r3)" by fastforce
  have "r1 = Inr () \<and> r2 = Inr () \<and> r3 = Inr () \<and> mvcc_get_unresolved (core_kv list_deps c3) [1] 10 = Inr (into_option (mu_value ?m))"
    by (rule put_overwritten_by_open_transaction [OF list_mem.mem_skip_map_axioms
          fresh_api_inv(1) [OF list_mem.mem_skip_map_axioms] _ _ _ _ c1 c2 c3])
      (simp_all add: fresh_api_inv(2) [OF list_mem.mem_skip_map_axioms] key_free_empty committed_batch_def req_small_simps)
  with c1 c2 c3 show ?thesis by auto
qed

end
