(* ===== verification/Ap_Props.thy ===== *)
theory Ap_Props
  imports Ap Merkle Replica_Props
begin

text \<open>
  Last-Writer-Wins of the leaderless regime: what the versions of a replica are after it has pulled from a
  peer, and the case in which replicas never agree.
\<close>

section \<open>The versions of a replica\<close>

text \<open>The commit records of a key of an AP region: one timestamp is both the start and the commit.\<close>

definition ap_wf :: "cf_store \<Rightarrow> bytes \<Rightarrow> bool" where
  "ap_wf s k \<longleftrightarrow> (\<forall>ts \<in> commits s k. s CfWrite (encode_data_key k ts) = Some (MvPut (encode_write_value ts)) \<and>
     (\<exists>v. s CfDefault (encode_data_key k ts) = Some (MvPut (value_encode v))))"

definition ap_value :: "cf_store \<Rightarrow> bytes \<Rightarrow> u64 \<Rightarrow> value" where
  "ap_value s k ts = (case s CfDefault (encode_data_key k ts) of Some (MvPut vb) \<Rightarrow> the (value_decode vb) | _ \<Rightarrow> VDelete)"

definition ap_latest :: "cf_store \<Rightarrow> bytes \<Rightarrow> (u64 \<times> bytes \<times> bool) option" where
  "ap_latest s k = (if commits s k = {} then None
     else let ts = Max (commits s k); v = ap_value s k ts in Some (ts, raw_value v, is_delete v))"

lemma commits_finite: "finite (dom (s CfWrite)) \<Longrightarrow> finite (commits s k)"
proof -
  assume "finite (dom (s CfWrite))"
  moreover have "inj_on (encode_data_key k) (commits s k)" by (auto simp: inj_on_def)
  moreover have "encode_data_key k ` commits s k \<subseteq> dom (s CfWrite)" by (auto simp: commits_def)
  ultimately show ?thesis by (meson finite_imageD finite_subset)
qed

lemma newest_commit_Max: "finite (commits s k) \<Longrightarrow> newest_commit s k u64_max ts \<longleftrightarrow> commits s k \<noteq> {} \<and> ts = Max (commits s k)"
  by (auto simp: newest_commit_def intro: Max_eqI [symmetric] Max_in)

lemma newest_version_ap:
  assumes "kv_reads K s" "ap_wf s k" "finite (commits s k)"
  shows "newest_version K s k row \<longleftrightarrow> (\<exists>x. ap_latest s k = Some x \<and> row = (k, x))"
proof (cases "commits s k = {}")
  case False
  let ?ts = "Max (commits s k)"
  have "?ts \<in> commits s k" using False assms(3) by simp
  then obtain v where v: "s CfWrite (encode_data_key k ?ts) = Some (MvPut (encode_write_value ?ts))"
    "s CfDefault (encode_data_key k ?ts) = Some (MvPut (value_encode v))" using assms(2) unfolding ap_wf_def by blast
  have "entry_version K k ?ts (MvPut (encode_write_value ?ts)) = Inr (Some (k, ?ts, raw_value v, is_delete v))"
    by (simp add: entry_version_def kv_reads.get_store [OF assms(1)] present_def v(2))
      (cases v; simp add: raw_value_def)
  then show ?thesis
    using False v by (auto simp: newest_version_def newest_commit_Max [OF assms(3)] ap_latest_def ap_value_def)
qed (auto simp: newest_version_def newest_commit_def ap_latest_def)

text \<open>What a scan of the region returns.\<close>

lemma ap_rows:
  assumes "kv_reads K s" "finite (dom (s CfWrite))" "prefix_free s"
    and "\<forall>k. commits s k \<noteq> {} \<longrightarrow> \<not> prefix k (rg_start r) \<or> k = rg_start r" "\<forall>k. region_contains r k \<longrightarrow> ap_wf s k"
  obtains rows where "scan_versions K (rg_start r) (rg_end r) 0 = Some (Inr rows)" "distinct (map fst rows)"
    "\<forall>k. map_of rows k = (if region_contains r k then ap_latest s k else None)"
proof -
  obtain rows where rows: "scan_versions K (rg_start r) (rg_end r) 0 = Some (Inr rows)" "sorted_wrt (<) (map fst rows)"
    "set rows = {row. \<exists>k. rg_start r \<le> k \<and> (rg_end r = [] \<or> k < rg_end r) \<and> newest_version K s k row}"
    using scan_versions_rows [OF assms(1-4), of "rg_end r" 0] by auto
  have dist: "distinct (map fst rows)" using rows(2) by (simp add: strict_sorted_iff)
  have nv: "newest_version K s k' (k, x) \<longleftrightarrow> ap_latest s k = Some x \<and> k' = k" if "region_contains r k'" for k' k x
    using newest_version_ap [OF assms(1) _ commits_finite [of s, OF assms(2)], of k' "(k, x)"] assms(5) that by (cases x) auto
  have "row \<in> set rows \<longleftrightarrow> (\<exists>k'. region_contains r k' \<and> newest_version K s k' row)" for row
    unfolding rows(3) region_contains_def mem_Collect_eq by (simp only: conj_assoc)
  then have "(k, x) \<in> set rows \<longleftrightarrow> (\<exists>k'. region_contains r k' \<and> ap_latest s k = Some x \<and> k' = k)" for k x
    by (metis (no_types, lifting) nv)
  then have "(k, x) \<in> set rows \<longleftrightarrow> region_contains r k \<and> ap_latest s k = Some x" for k x
    by (simp only:) blast
  then have "map_of rows k = Some x \<longleftrightarrow> region_contains r k \<and> ap_latest s k = Some x" for k x
    by (simp add: map_of_eq_Some_iff [OF dist])
  then have "map_of rows k = (if region_contains r k then ap_latest s k else None)" for k
    by (metis not_None_eq)
  with rows(1) dist show thesis by (intro that [of rows]) blast+
qed

section \<open>Adopting versions\<close>

definition adopted :: "version list \<Rightarrow> cf_store \<Rightarrow> cf_store" where
  "adopted vs s = fold (\<lambda>v. store_batch (committed_batch (ve_key v) (entry_value (ve_value v) (ve_delete v)) (ve_version v) (ve_version v))) vs s"

lemma stamped_store:
  "commits (store_batch (committed_batch k v ts ts) s) k' = (if k' = k then insert ts (commits s k') else commits s k')"
  "ap_wf s k' \<Longrightarrow> ap_wf (store_batch (committed_batch k v ts ts) s) k'"
  "ap_value (store_batch (committed_batch k v ts ts) s) k' ts' = (if k' = k \<and> ts' = ts then v else ap_value s k' ts')"
  by (auto simp: commits_def committed_batch_def ap_wf_def ap_value_def split: if_splits)

lemma stamped_latest:
  assumes "finite (commits s k)" "\<forall>ts' \<in> commits s k. ts' < ts"
  shows "ap_latest (store_batch (committed_batch k v ts ts) s) k = Some (ts, raw_value v, is_delete v)"
proof -
  have "Max (insert ts (commits s k)) = ts" using assms by (auto intro!: Max_eqI dest: less_imp_le)
  then show ?thesis by (simp add: ap_latest_def stamped_store Let_def)
qed

lemma stamped_other: "k' \<noteq> k \<Longrightarrow> ap_latest (store_batch (committed_batch k v ts ts) s) k' = ap_latest s k'"
  by (simp add: ap_latest_def stamped_store)

lemma stamped_finite: "finite (commits s k') \<Longrightarrow> finite (commits (store_batch (committed_batch k v ts ts) s) k')"
  by (simp add: stamped_store)

text \<open>Adopting newer versions of distinct keys.\<close>

lemma adopted_latest:
  assumes "distinct (map ve_key vs)" "\<forall>v \<in> set vs. \<forall>ts \<in> commits s (ve_key v). ts < ve_version v" "\<forall>k. finite (commits s k)"
  shows "ap_latest (adopted vs s) k = (case find (\<lambda>v. ve_key v = k) vs of
      None \<Rightarrow> ap_latest s k
    | Some v \<Rightarrow> Some (ve_version v, raw_value (entry_value (ve_value v) (ve_delete v)), ve_delete v))"
  using assms
proof (induction vs arbitrary: s)
  case (Cons v vs)
  define s' where "s' = store_batch (committed_batch (ve_key v) (entry_value (ve_value v) (ve_delete v)) (ve_version v) (ve_version v)) s"
  have com: "commits s' k = (if k = ve_key v then insert (ve_version v) (commits s k) else commits s k)" for k
    by (simp add: s'_def stamped_store)
  have ad: "adopted (v # vs) s = adopted vs s'" by (simp add: adopted_def s'_def)
  have other: "ve_key u \<noteq> ve_key v" if "u \<in> set vs" for u using that Cons.prems(1) by (auto simp: image_iff)
  have ih: "ap_latest (adopted vs s') k = (case find (\<lambda>v. ve_key v = k) vs of None \<Rightarrow> ap_latest s' k
      | Some v \<Rightarrow> Some (ve_version v, raw_value (entry_value (ve_value v) (ve_delete v)), ve_delete v))"
    using Cons.IH [of s'] Cons.prems other by (simp add: com)
  show ?case
  proof (cases "k = ve_key v")
    case True
    then have "find (\<lambda>v. ve_key v = k) vs = None" using other by (auto simp: find_None_iff)
    moreover have "ap_latest s' k = Some (ve_version v, raw_value (entry_value (ve_value v) (ve_delete v)), is_delete (entry_value (ve_value v) (ve_delete v)))"
      unfolding s'_def True using Cons.prems by (intro stamped_latest) simp_all
    ultimately show ?thesis unfolding ad ih by (simp add: True entry_value_def)
  next
    case False
    then have "ap_latest s' k = ap_latest s k" by (simp add: s'_def stamped_other)
    then show ?thesis using False unfolding ad ih by (auto split: option.split)
  qed
qed (simp add: adopted_def)

lemma adopted_wf: "ap_wf s k \<Longrightarrow> ap_wf (adopted vs s) k"
  by (induction vs arbitrary: s) (simp_all add: adopted_def stamped_store)

lemma adopted_write:
  "adopted vs s CfWrite w \<noteq> None \<longleftrightarrow> s CfWrite w \<noteq> None \<or> (\<exists>v \<in> set vs. w = encode_data_key (ve_key v) (ve_version v))"
  by (induction vs arbitrary: s) (auto simp: adopted_def committed_batch_def)

lemma prefix_free_pair:
  assumes "prefix_free s" "commits s k \<noteq> {}" "commits s k' \<noteq> {}"
  shows "k' = k \<or> incomparable k k'"
proof -
  obtain ts ts' where "s CfWrite (encode_data_key k ts) \<noteq> None" "s CfWrite (encode_data_key k' ts') \<noteq> None"
    using assms(2,3) unfolding commits_def by auto
  then show ?thesis by (rule prefix_free_incomparable [OF assms(1)])
qed

lemma adopted_prefix_free:
  assumes pf: "prefix_free s"
    and inc: "\<forall>v \<in> set vs. \<forall>k. commits s k \<noteq> {} \<or> k \<in> ve_key ` set vs \<longrightarrow> ve_key v = k \<or> incomparable (ve_key v) k"
  shows "prefix_free (adopted vs s)"
proof -
  let ?keys = "{k. commits s k \<noteq> {}} \<union> ve_key ` set vs"
  have rec: "\<exists>k ts. w = encode_data_key k ts \<and> k \<in> ?keys" if "adopted vs s CfWrite w \<noteq> None" for w
  proof (cases "s CfWrite w = None")
    case False
    then obtain k ts where "w = encode_data_key k ts" using pf unfolding prefix_free_def by blast
    with False show ?thesis by (auto simp: commits_def)
  qed (use that adopted_write [of vs s w] in auto)
  have new: "k' = k \<or> incomparable k k'" if k: "k \<in> ve_key ` set vs" "k' \<in> ?keys" for k k'
  proof -
    obtain v where "v \<in> set vs" "k = ve_key v" using k(1) by blast
    moreover have "commits s k' \<noteq> {} \<or> k' \<in> ve_key ` set vs" using k(2) by simp
    ultimately show ?thesis using inc by metis
  qed
  have pair: "k' = k \<or> incomparable k k'" if k: "k \<in> ?keys" "k' \<in> ?keys" for k k'
  proof -
    consider "k \<in> ve_key ` set vs" | "k' \<in> ve_key ` set vs" | "commits s k \<noteq> {}" "commits s k' \<noteq> {}" using k by auto
    then show ?thesis
    proof cases
      case 2
      then show ?thesis using new [OF 2 k(1)] incomparable_sym by metis
    next
      case 3
      then show ?thesis by (rule prefix_free_pair [OF pf])
    qed (rule new [OF _ k(2)])
  qed
  show ?thesis unfolding prefix_free_def isolated_def
  proof (intro allI impI)
    fix w
    assume "adopted vs s CfWrite w \<noteq> None"
    then obtain k ts where "w = encode_data_key k ts" "k \<in> ?keys" using rec by blast
    moreover have "\<exists>k' ts. w' = encode_data_key k' ts \<and> (k' = k \<or> incomparable k k')" if "adopted vs s CfWrite w' \<noteq> None" for w'
      using rec [OF that] pair [OF \<open>k \<in> ?keys\<close>] by blast
    ultimately show "\<exists>k ts. w = encode_data_key k ts \<and> (\<forall>w. adopted vs s CfWrite w \<noteq> None \<longrightarrow>
        (\<exists>k' ts. w = encode_data_key k' ts \<and> (k' = k \<or> incomparable k k')))" by blast
  qed
qed

context engine_api
begin

lemma adopt_all_store:
  assumes "inv (an_engine n)"
    "\<forall>v \<in> set vs. adm (OWrite (committed_batch (ve_key v) (entry_value (ve_value v) (ve_delete v)) (ve_version v) (ve_version v)))"
  shows "inv (an_engine (adopt_all E vs n)) \<and> store (an_engine (adopt_all E vs n)) = adopted vs (store (an_engine n))"
  using assms
proof (induction vs arbitrary: n)
  case (Cons v vs)
  let ?b = "committed_batch (ve_key v) (entry_value (ve_value v) (ve_delete v)) (ve_version v) (ve_version v)"
  obtain c r where w: "engine_write E (an_engine n) ?b = (c, r)" by fastforce
  have c: "inv c \<and> store c = store_batch ?b (store (an_engine n))"
    using engine_write_store [OF Cons.prems(1) _ _ w] Cons.prems(2) by (simp add: committed_batch_def batch_is_empty_def)
  let ?n = "fst (ap_apply E (ve_key v) (entry_value (ve_value v) (ve_delete v)) (ve_version v) n)"
  have "an_engine ?n = c" by (simp add: ap_apply_def w)
  with Cons.IH [of ?n] Cons.prems(2) c show ?case by (simp add: adopt_all_def adopted_def)
qed (simp add: adopt_all_def adopted_def)

end

lemma core_rows_ex:
  assumes "mem_skip_map D" "api_inv D c" "prefix_free (core_store D c)"
    and "\<forall>k. commits (core_store D c) k \<noteq> {} \<longrightarrow> \<not> prefix k (rg_start r) \<or> k = rg_start r"
    and "\<forall>k. region_contains r k \<longrightarrow> ap_wf (core_store D c) k"
  shows "\<exists>rows. scan_versions (core_kv D c) (rg_start r) (rg_end r) 0 = Some (Inr rows) \<and> distinct (map fst rows) \<and>
    (\<forall>k. map_of rows k = (if region_contains r k then ap_latest (core_store D c) k else None))"
proof -
  note api = mem_skip_map.core_api [OF assms(1)]
  have K: "kv_reads (core_kv D c) (core_store D c)" using engine_api.reads [OF api assms(2)] by simp
  show ?thesis using ap_rows [of _ "core_store D c" r, OF K engine_api.finite_store [OF api assms(2)] assms(3-5)] by blast
qed

lemma core_rows:
  assumes "mem_skip_map D" "api_inv D c" "prefix_free (core_store D c)"
    and "\<forall>k. commits (core_store D c) k \<noteq> {} \<longrightarrow> \<not> prefix k (rg_start r) \<or> k = rg_start r"
    and "\<forall>k. region_contains r k \<longrightarrow> ap_wf (core_store D c) k"
    and "scan_versions (core_kv D c) (rg_start r) (rg_end r) 0 = Some (Inr rows)"
  shows "distinct (map fst rows)" "\<forall>k. map_of rows k = (if region_contains r k then ap_latest (core_store D c) k else None)"
  using core_rows_ex [OF assms(1-5)] assms(6) by auto

section \<open>Pulling from a peer\<close>

text \<open>A reachable peer with this engine.\<close>

definition peer_of :: "kv \<Rightarrow> registry \<Rightarrow> u64 \<Rightarrow> ap_peer" where
  "peer_of K regions i =
     \<lparr>pe_digest = Option.bind (ap_digest K regions i) (case_sum (\<lambda>_. None) Some),
      pe_fetch = (\<lambda>buckets ks. Option.bind (ap_fetch K regions i buckets ks) (case_sum (\<lambda>_. None) Some))\<rparr>"

text \<open>Equal leaf hashes stand for equal keys and versions.\<close>

definition no_leaf_collision :: "versioned_kv list \<Rightarrow> versioned_kv list \<Rightarrow> bool" where
  "no_leaf_collision va vb \<longleftrightarrow> (\<forall>i < LEAVES. digest (map to_ae_version va) ! i = digest (map to_ae_version vb) ! i \<longrightarrow>
     (\<forall>k ts. bucket_of k = i \<longrightarrow> map_option fst (map_of va k) = Some ts \<longleftrightarrow> map_option fst (map_of vb k) = Some ts))"

text \<open>Last writer wins, key by key.\<close>

definition newer :: "('k \<rightharpoonup> u64 \<times> 'v) \<Rightarrow> ('k \<rightharpoonup> u64 \<times> 'v) \<Rightarrow> 'k \<rightharpoonup> u64 \<times> 'v" where
  "newer m m' k = (case m' k of
     None \<Rightarrow> m k
   | Some x \<Rightarrow> (case m k of None \<Rightarrow> Some x | Some y \<Rightarrow> if fst y < fst x then Some x else Some y))"

lemma entry_fields [simp]:
  "ve_key (from_ap_entry (k, x)) = k" "ve_version (from_ap_entry (k, x)) = fst x"
  "ve_value (from_ap_entry (k, x)) = fst (snd x)" "ve_delete (from_ap_entry (k, x)) = snd (snd x)"
  "ve_key (to_ae_version (k, x)) = k" "ve_version (to_ae_version (k, x)) = fst x"
  by (simp_all add: from_ap_entry_def to_ae_version_def split: prod.splits)

definition pulled :: "nat set \<Rightarrow> versioned_kv list \<Rightarrow> versioned_kv list \<Rightarrow> version list" where
  "pulled B va vb = to_adopt (\<lambda>k. map_option fst (map_of va k)) (map from_ap_entry (filter (\<lambda>(key, _). bucket_of key \<in> B) vb))"

lemma pulled_Cons: "pulled B va ((k, x) # vb) =
    (if bucket_of k \<in> B \<and> (case map_of va k of None \<Rightarrow> True | Some y \<Rightarrow> fst y < fst x) then from_ap_entry (k, x) # pulled B va vb else pulled B va vb)"
  by (auto simp: pulled_def to_adopt_def split: option.splits)

lemma pulled_keys: "ve_key ` set (pulled B va vb) \<subseteq> fst ` set vb"
  by (force simp: pulled_def to_adopt_def)

lemma pulled_elem: "v \<in> set (pulled B va vb) \<Longrightarrow> \<exists>k x. (k, x) \<in> set vb \<and> v = from_ap_entry (k, x)"
  by (auto simp: pulled_def to_adopt_def)

lemma pulled_distinct: "distinct (map fst vb) \<Longrightarrow> distinct (map ve_key (pulled B va vb))"
proof (induction vb)
  case (Cons e vb)
  then show ?case using pulled_keys [of B va vb] by (cases e) (auto simp: pulled_Cons)
qed (simp add: pulled_def to_adopt_def)

lemma pulled_find:
  "distinct (map fst vb) \<Longrightarrow> find (\<lambda>v. ve_key v = k) (pulled B va vb) = (case map_of vb k of
     None \<Rightarrow> None
   | Some x \<Rightarrow> if bucket_of k \<in> B \<and> (case map_of va k of None \<Rightarrow> True | Some y \<Rightarrow> fst y < fst x) then Some (from_ap_entry (k, x)) else None)"
proof (induction vb)
  case (Cons e vb)
  obtain k' x where e: "e = (k', x)" by (cases e) auto
  have "find (\<lambda>v. ve_key v = k') (pulled B va vb) = None"
    using Cons.prems pulled_keys [of B va vb] by (force simp: e find_None_iff)
  with Cons show ?case by (cases "k = k'") (auto simp: e pulled_Cons)
qed (simp add: pulled_def to_adopt_def)

lemma local_map:
  "distinct (map fst va) \<Longrightarrow> map_of (rev (map (\<lambda>v. (ve_key v, ve_version v)) (map to_ae_version va))) = (\<lambda>k. map_option fst (map_of va k))"
proof -
  assume d: "distinct (map fst va)"
  let ?m = "map (\<lambda>(k, x). (k, fst x)) va"
  have "map (\<lambda>v. (ve_key v, ve_version v)) (map to_ae_version va) = ?m" by (induction va) auto
  moreover have m: "map fst ?m = map fst va" by (induction va) auto
  then have "map_of (rev ?m) = map_of ?m" using d by (intro map_of_inject_set [THEN iffD2]) (simp_all only: rev_map [symmetric] m distinct_rev set_rev)
  moreover have "map_of ?m k = map_option fst (map_of va k)" for k by (induction va) auto
  ultimately show ?thesis by presburger
qed

text \<open>The versions after adopting what was pulled.\<close>

lemma pulled_latest:
  assumes "distinct (map fst vb)" "\<forall>k. finite (commits sa k)"
    and va: "\<forall>k. map_of va k = (if region_contains r k then ap_latest sa k else None)"
    and vb: "\<forall>k. map_of vb k = (if region_contains r k then ap_latest sb k else None)"
    and B: "\<forall>k. map_option fst (map_of va k) \<noteq> map_option fst (map_of vb k) \<longrightarrow> bucket_of k \<in> B"
  shows "ap_latest (adopted (pulled B va vb) sa) k = (if region_contains r k then newer (map_of va) (map_of vb) k else ap_latest sa k)"
proof -
  have top: "\<forall>ts \<in> commits sa (ve_key v). ts < ve_version v" if v: "v \<in> set (pulled B va vb)" for v
  proof -
    obtain k x where e: "v = from_ap_entry (k, x)" "(k, x) \<in> set vb" "case map_of va k of None \<Rightarrow> True | Some y \<Rightarrow> fst y < fst x"
      using v by (force simp: pulled_def to_adopt_def split: option.splits)
    have "map_of vb k = Some x" using e(2) assms(1) by simp
    then have "region_contains r k" using vb by (metis option.distinct(1))
    then have "map_of va k = ap_latest sa k" using va by simp
    with e(3) have "commits sa k = {} \<or> Max (commits sa k) < fst x" by (auto simp: ap_latest_def Let_def split: if_splits)
    with assms(2) show ?thesis unfolding e(1) by (auto intro: le_less_trans [OF Max_ge])
  qed
  have find: "ap_latest (adopted (pulled B va vb) sa) k = (case find (\<lambda>v. ve_key v = k) (pulled B va vb) of
      None \<Rightarrow> ap_latest sa k
    | Some v \<Rightarrow> Some (ve_version v, raw_value (entry_value (ve_value v) (ve_delete v)), ve_delete v))"
    using adopted_latest [OF pulled_distinct [OF assms(1)] _ assms(2)] top by blast
  show ?thesis
  proof (cases "map_of vb k")
    case None
    then show ?thesis using find pulled_find [OF assms(1), of k B va] va by (simp add: newer_def)
  next
    case (Some x)
    have k: "region_contains r k" "ap_latest sb k = Some x" using vb Some by (metis option.distinct(1))+
    have "snd x = (raw_value (ap_value sb k (fst x)), is_delete (ap_value sb k (fst x)))"
      using k(2) by (auto simp: ap_latest_def Let_def split: if_splits)
    then obtain v where x: "snd x = (raw_value v, is_delete v)" by blast
    have "raw_value (entry_value (raw_value v) (is_delete v)) = raw_value v" by (cases v) (simp_all add: raw_value_def entry_value_def)
    moreover have "bucket_of k \<in> B" if "case map_of va k of None \<Rightarrow> True | Some y \<Rightarrow> fst y < fst x"
      using that B Some by (auto split: option.splits)
    ultimately show ?thesis using find pulled_find [OF assms(1), of k B va] va k x Some
      by (cases x) (auto simp: newer_def split: option.splits)
  qed
qed

text \<open>The exchange with a reachable peer.\<close>

lemma reconcile_exchange:
  assumes "registry_by_id regions i = Some r"
    and va: "scan_versions (eng_kv E (an_engine n)) (rg_start r) (rg_end r) 0 = Some (Inr va)" "distinct (map fst va)"
    and vb: "scan_versions K (rg_start r) (rg_end r) 0 = Some (Inr vb)"
    and coll: "no_collision (from_digest (digest (map to_ae_version va))) (from_digest (digest (map to_ae_version vb)))"
      "no_leaf_collision va vb"
  obtains B where "reconcile_region E regions i [peer_of K regions i] n = Some (adopt_all E (pulled B va vb) n)"
    "\<forall>k. map_option fst (map_of va k) \<noteq> map_option fst (map_of vb k) \<longrightarrow> bucket_of k \<in> B"
proof -
  let ?a = "digest (map to_ae_version va)" and ?b = "digest (map to_ae_version vb)"
  obtain out where out: "diff ?a ?b = Some out" "set out = {i. i < LEAVES \<and> ?a ! i \<noteq> ?b ! i}"
    using merkle_descends [of ?a ?b] coll(1) by auto
  have peer: "pe_digest (peer_of K regions i) = Some ?b"
    "pe_fetch (peer_of K regions i) out [] = Some (if out = [] then [] else filter (\<lambda>(key, _). bucket_of key \<in> set out) vb)"
    using vb by (simp_all add: peer_of_def ap_digest_def ap_fetch_def assms(1))
  have "reconcile_region E regions i [peer_of K regions i] n
      = reconcile_peer E ?a (\<lambda>k. map_option fst (map_of va k)) (peer_of K regions i) n"
    by (cases "reconcile_peer E ?a (\<lambda>k. map_option fst (map_of va k)) (peer_of K regions i) n")
      (simp_all add: reconcile_region_def assms(1) va(1) Let_def local_map [OF va(2)] del: map_map)
  also have "\<dots> = Some (adopt_all E (pulled (set out) va vb) n)"
    using peer out(1) by (cases "out = []") (simp_all add: reconcile_peer_def pulled_def, simp add: to_adopt_def adopt_all_def)
  finally have "reconcile_region E regions i [peer_of K regions i] n = Some (adopt_all E (pulled (set out) va vb) n)" .
  moreover have "bucket_of k \<in> set out" if "map_option fst (map_of va k) \<noteq> map_option fst (map_of vb k)" for k
  proof (rule ccontr)
    assume "bucket_of k \<notin> set out"
    then have "?a ! bucket_of k = ?b ! bucket_of k" using out(2) bucket_less by blast
    then have "map_option fst (map_of va k) = Some ts \<longleftrightarrow> map_option fst (map_of vb k) = Some ts" for ts
      using coll(2) bucket_less unfolding no_leaf_collision_def by blast
    with that show False by (metis not_None_eq)
  qed
  ultimately show thesis using that by blast
qed


section \<open>Writes with equal stamps\<close>

abbreviation stamped_version :: "bytes \<Rightarrow> value \<Rightarrow> u64 \<Rightarrow> version" where
  "stamped_version k v ts \<equiv> \<lparr>ve_key = k, ve_version = ts, ve_value = raw_value v, ve_delete = is_delete v\<rparr>"

lemma entry_value_raw [simp]: "entry_value (raw_value v) (is_delete v) = v"
  by (cases v) (simp_all add: entry_value_def raw_value_def)


context engine_api
begin

lemma ap_write_store:
  assumes "inv (an_engine n)" "adm (OWrite (committed_batch k v ts ts))" "ap_write E now_ms i k v n = (n', res)"
    "snd (hlc_now now_ms (an_hlc n)) = ts"
  shows "inv (an_engine n') \<and> store (an_engine n') = adopted [stamped_version k v ts] (store (an_engine n))"
proof -
  obtain c r where w: "engine_write E (an_engine n) (committed_batch k v ts ts) = (c, r)" by fastforce
  have "an_engine n' = c" using assms(3,4) w by (auto simp: ap_write_def split: prod.splits)
  with engine_write_store [OF assms(1) _ _ w] assms(2) show ?thesis
    by (simp add: committed_batch_def batch_is_empty_def adopted_def)
qed

end

text \<open>Replicas with the same versions of the same keys do not exchange anything.\<close>

lemma same_versions_quiet:
  assumes "registry_by_id regions i = Some r"
    and va: "scan_versions (eng_kv E (an_engine n)) (rg_start r) (rg_end r) 0 = Some (Inr va)" "distinct (map fst va)"
    and vb: "scan_versions K (rg_start r) (rg_end r) 0 = Some (Inr vb)" "distinct (map fst vb)"
    and same: "\<forall>k. map_option fst (map_of va k) = map_option fst (map_of vb k)"
  shows "reconcile_region E regions i [peer_of K regions i] n = Some n"
proof -
  let ?kv = "\<lambda>vs. map (\<lambda>v. (ve_key v, ve_version v)) (map to_ae_version vs)"
  have kv: "set (?kv vs) = {(k, ts). map_option fst (map_of vs k) = Some ts}" "distinct (?kv vs)" if "distinct (map fst vs)" for vs
  proof -
    have e: "?kv vs = map (\<lambda>(k, x). (k, fst x)) vs" by (induction vs) auto
    show "set (?kv vs) = {(k, ts). map_option fst (map_of vs k) = Some ts}"
      unfolding e using that by (force simp: map_of_eq_Some_iff)
    have "map fst (map (\<lambda>(k, x). (k, fst x)) vs) = map fst vs" by (induction vs) auto
    then show "distinct (?kv vs)" unfolding e using that by (metis distinct_map)
  qed
  have "mset (?kv va) = mset (?kv vb)"
    using kv [OF va(2)] kv [OF vb(2)] same by (intro set_eq_iff_mset_eq_distinct [THEN iffD1]) simp_all
  then have dig: "digest (map to_ae_version va) = digest (map to_ae_version vb)" by (rule digest_ignores_values)
  have coll: "no_collision x x" for x by (simp add: no_collision_def)
  obtain out where "diff (digest (map to_ae_version va)) (digest (map to_ae_version vb)) = Some out" "set out = {}"
    using merkle_descends [of "digest (map to_ae_version vb)" "digest (map to_ae_version vb)"] coll unfolding dig by auto
  moreover have "pe_digest (peer_of K regions i) = Some (digest (map to_ae_version vb))"
    using vb by (simp add: peer_of_def ap_digest_def assms(1))
  ultimately show ?thesis
    by (simp add: reconcile_region_def assms(1) va(1) Let_def reconcile_peer_def del: map_map)
qed

text \<open>The rows of a replica after a write.\<close>

lemma stamped_rows:
  assumes "mem_skip_map D" "api_inv D (an_engine n)" "req_small (OWrite (committed_batch k v ts ts))"
    and w: "ap_write (core_eng D) now_ms i k v n = (n', res)" "snd (hlc_now now_ms (an_hlc n)) = ts"
    and s: "core_store D (an_engine n) = s" "prefix_free s" "\<forall>k'. commits s k' \<noteq> {} \<longrightarrow> k = k' \<or> incomparable k k'"
    and r: "\<forall>k'. commits s k' \<noteq> {} \<or> k' = k \<longrightarrow> \<not> prefix k' (rg_start r) \<or> k' = rg_start r" "\<forall>k'. region_contains r k' \<longrightarrow> ap_wf s k'"
      "region_contains r k" "\<forall>ts' \<in> commits s k. ts' < ts"
  shows "\<exists>rows. scan_versions (core_kv D (an_engine n')) (rg_start r) (rg_end r) 0 = Some (Inr rows) \<and> distinct (map fst rows) \<and>
    map_of rows = (\<lambda>k'. if region_contains r k' then if k' = k then Some (ts, raw_value v, is_delete v) else ap_latest s k' else None)"
proof -
  let ?s = "adopted [stamped_version k v ts] s"
  note api = mem_skip_map.core_api [OF assms(1)]
  have n: "api_inv D (an_engine n')" "core_store D (an_engine n') = ?s"
    using engine_api.ap_write_store [OF api assms(2,3) w] s(1) by simp_all
  have com: "commits ?s k' = (if k' = k then insert ts (commits s k') else commits s k')" for k'
    by (simp add: adopted_def stamped_store)
  have "finite (commits s k')" for k'
    using commits_finite [of s] engine_api.finite_store [OF api assms(2)] s(1) by blast
  then have latest: "ap_latest ?s k' = (if k' = k then Some (ts, raw_value v, is_delete v) else ap_latest s k')" for k'
    using adopted_latest [of "[stamped_version k v ts]" s k'] r(4) by simp
  have "prefix_free ?s" using s(3) by (intro adopted_prefix_free [OF s(2)]) auto
  moreover have "\<forall>k'. commits ?s k' \<noteq> {} \<longrightarrow> \<not> prefix k' (rg_start r) \<or> k' = rg_start r"
    using r(1) unfolding com by (metis insert_not_empty)
  moreover have "\<forall>k'. region_contains r k' \<longrightarrow> ap_wf ?s k'" using r(2) adopted_wf by blast
  ultimately obtain rows where rows: "scan_versions (core_kv D (an_engine n')) (rg_start r) (rg_end r) 0 = Some (Inr rows)" "distinct (map fst rows)"
    "\<forall>k'. map_of rows k' = (if region_contains r k' then ap_latest ?s k' else None)"
    using core_rows_ex [OF assms(1) n(1), of r] unfolding n(2) by blast
  have "map_of rows = (\<lambda>k'. if region_contains r k' then if k' = k then Some (ts, raw_value v, is_delete v) else ap_latest s k' else None)"
    using rows(3) latest by presburger
  with rows(1,2) show ?thesis by blast
qed

text \<open>C40: Last-Writer-Wins does not converge on equal stamps. Two replicas in sync accept a write of the same
  key in the same millisecond; the stamps carry no node, so both are the wall clock's, and the digests, which
  see keys and stamps only, are equal: anti-entropy in either direction adopts nothing, and each replica
  keeps its own value.\<close>

theorem equal_stamps_never_converge:
  assumes "mem_skip_map D" "mem_skip_map D'" "api_inv D (an_engine n)" "api_inv D' (an_engine n')"
    and s: "core_store D (an_engine n) = s" "core_store D' (an_engine n') = s" "prefix_free s"
      "\<forall>k'. commits s k' \<noteq> {} \<longrightarrow> k = k' \<or> incomparable k k'"
    and clocks: "an_hlc n + 1 \<le> push_bit HLC_BITS now_ms" "an_hlc n' + 1 \<le> push_bit HLC_BITS now_ms" "push_bit HLC_BITS now_ms = ts"
    and w: "ap_write (core_eng D) now_ms i k v n = (m, res)" "ap_write (core_eng D') now_ms i k v' n' = (m', res')"
    and small: "req_small (OWrite (committed_batch k v ts ts))" "req_small (OWrite (committed_batch k v' ts ts))"
    and reg: "registry_by_id regions i = Some r"
      "\<forall>k'. commits s k' \<noteq> {} \<or> k' = k \<longrightarrow> \<not> prefix k' (rg_start r) \<or> k' = rg_start r" "\<forall>k'. region_contains r k' \<longrightarrow> ap_wf s k'"
      "region_contains r k" "\<forall>ts' \<in> commits s k. ts' < ts"
  shows "reconcile_region (core_eng D) regions i [peer_of (core_kv D' (an_engine m')) regions i] m = Some m \<and>
    reconcile_region (core_eng D') regions i [peer_of (core_kv D (an_engine m)) regions i] m' = Some m' \<and>
    (\<exists>va vb. scan_versions (core_kv D (an_engine m)) (rg_start r) (rg_end r) 0 = Some (Inr va) \<and>
       scan_versions (core_kv D' (an_engine m')) (rg_start r) (rg_end r) 0 = Some (Inr vb) \<and>
       map_of va k = Some (ts, raw_value v, is_delete v) \<and> map_of vb k = Some (ts, raw_value v', is_delete v'))"
proof -
  have ts: "snd (hlc_now now_ms (an_hlc n)) = ts" "snd (hlc_now now_ms (an_hlc n')) = ts"
    using clocks by (simp_all add: hlc_now_def Let_def max_absorb2)
  obtain va where va: "scan_versions (core_kv D (an_engine m)) (rg_start r) (rg_end r) 0 = Some (Inr va)" "distinct (map fst va)"
    "map_of va = (\<lambda>k'. if region_contains r k' then if k' = k then Some (ts, raw_value v, is_delete v) else ap_latest s k' else None)"
    using stamped_rows [OF assms(1,3) small(1) w(1) ts(1) s(1,3,4) reg(2-5)] by blast
  obtain vb where vb: "scan_versions (core_kv D' (an_engine m')) (rg_start r) (rg_end r) 0 = Some (Inr vb)" "distinct (map fst vb)"
    "map_of vb = (\<lambda>k'. if region_contains r k' then if k' = k then Some (ts, raw_value v', is_delete v') else ap_latest s k' else None)"
    using stamped_rows [OF assms(2,4) small(2) w(2) ts(2) s(2-4) reg(2-5)] by blast
  have same: "map_option fst (map_of va k') = map_option fst (map_of vb k')" for k' by (simp add: va(3) vb(3))
  have "reconcile_region (core_eng D) regions i [peer_of (core_kv D' (an_engine m')) regions i] m = Some m"
    using same_versions_quiet [OF reg(1) _ va(2) vb(1,2), of "core_eng D" m] va(1) same by simp
  moreover have "reconcile_region (core_eng D') regions i [peer_of (core_kv D (an_engine m)) regions i] m' = Some m'"
    using same_versions_quiet [OF reg(1) _ vb(2) va(1,2), of "core_eng D'" m'] vb(1) same by simp
  ultimately show ?thesis using va vb reg(4) by simp
qed

lemma empty_store [simp]: "prefix_free (\<lambda>_ _. None)" "commits (\<lambda>_ _. None) k = {}" "ap_wf (\<lambda>_ _. None) k"
  by (simp_all add: prefix_free_def commits_def ap_wf_def)

abbreviation fresh_node :: "u64 \<Rightarrow> (bytes \<times> mem_value) list core ap_node" where
  "fresh_node h \<equiv> \<lparr>an_engine = fresh_core list_deps 1000, an_hlc = h\<rparr>"

theorem equal_stamps_never_converge_witness:
  "\<exists>m m' res res' va vb. ap_write (core_eng list_deps) 9 1 [1] (VPut [7]) (fresh_node 0) = (m, res) \<and>
     ap_write (core_eng list_deps) 9 1 [1] (VPut [8]) (fresh_node 3) = (m', res') \<and>
     reconcile_region (core_eng list_deps) registry_in_memory 1 [peer_of (core_kv list_deps (an_engine m')) registry_in_memory 1] m = Some m \<and>
     scan_versions (core_kv list_deps (an_engine m)) [] [] 0 = Some (Inr va) \<and>
     scan_versions (core_kv list_deps (an_engine m')) [] [] 0 = Some (Inr vb) \<and>
     map_of va [1] = Some (0x240000, [7], False) \<and> map_of vb [1] = Some (0x240000, [8], False)"
proof -
  note fresh = fresh_api_inv [OF list_mem.mem_skip_map_axioms, of 1000]
  obtain m res where m: "ap_write (core_eng list_deps) 9 1 [1] (VPut [7]) (fresh_node 0) = (m, res)" by fastforce
  obtain m' res' where m': "ap_write (core_eng list_deps) 9 1 [1] (VPut [8]) (fresh_node 3) = (m', res')" by fastforce
  let ?r = "whole_keyspace 1"
  have "reconcile_region (core_eng list_deps) registry_in_memory 1 [peer_of (core_kv list_deps (an_engine m')) registry_in_memory 1] m = Some m \<and>
    reconcile_region (core_eng list_deps) registry_in_memory 1 [peer_of (core_kv list_deps (an_engine m)) registry_in_memory 1] m' = Some m' \<and>
    (\<exists>va vb. scan_versions (core_kv list_deps (an_engine m)) (rg_start ?r) (rg_end ?r) 0 = Some (Inr va) \<and>
       scan_versions (core_kv list_deps (an_engine m')) (rg_start ?r) (rg_end ?r) 0 = Some (Inr vb) \<and>
       map_of va [1] = Some (0x240000, raw_value (VPut [7]), is_delete (VPut [7])) \<and>
       map_of vb [1] = Some (0x240000, raw_value (VPut [8]), is_delete (VPut [8])))"
    by (rule equal_stamps_never_converge [OF list_mem.mem_skip_map_axioms list_mem.mem_skip_map_axioms _ _ _ _ _ _ _ _ _ m m',
          of "\<lambda>_ _. None"])
      (simp_all add: fresh HLC_BITS_def committed_batch_def req_small_simps registry_by_id_def registry_in_memory_def
        whole_keyspace_def region_contains_def)
  with m m' show ?thesis by (auto simp: whole_keyspace_def raw_value_def)
qed

lemma map_of_single:
  assumes "distinct (map fst xs)" "map_of xs = [k \<mapsto> v]"
  shows "xs = [(k, v)]"
proof -
  have "set xs = {(k, v)}" using assms by (auto simp: map_of_eq_Some_iff [symmetric] split: if_splits)
  moreover have "distinct xs" using assms(1) by (simp add: distinct_map)
  ultimately show ?thesis by (metis distinct.simps(2) list.set(1) list.simps(15) set_empty_eq insert_not_empty neq_Nil_conv insert_iff singletonD subset_singletonD set_subset_Cons)
qed


end
