(* ===== verification/Spec2Isabelle.thy ===== *)
theory Spec2Isabelle
  imports Key_Overlap Storage_Props Raft_Props Tso Pd_Failover Pd_Group In_Flight Ap_Props
begin

text \<open>
  Verification of the arcux storage engine and of its Raft core.
\<close>

end
